(* ===== verification/SysPrelude.thy ===== *)
theory SysPrelude
  imports Main "HOL-Library.Multiset" "HOL-Library.Sublist"
begin

text \<open>
  Shared material of the library: sums over a process list in which one process moves,
  the contents of a ring buffer read as a list, and the collections the component
  theories feed (\<open>ring_facts\<close> for the ring lemmas, \<open>cs_defs\<close> for the predicates that
  classify program counters).
\<close>

named_theorems ring_facts \<open>how a ring buffer's contents change under one write or one index move\<close>
named_theorems cs_defs \<open>classifications of program counters\<close>

section \<open>Counting\<close>

text \<open>One for true, zero for false; unlike \<open>of_bool\<close> it is not expanded over disjunctions.\<close>

definition one_if :: "bool \<Rightarrow> nat" where
  "one_if b = (if b then 1 else 0)"

lemma one_if_simps [simp]: "one_if True = 1" "one_if False = 0"
  by (simp_all add: one_if_def)

lemma one_if_eq_0 [simp]: "one_if b = 0 \<longleftrightarrow> \<not> b"
  by (simp add: one_if_def)

section \<open>Sums over a process list\<close>

lemma sum_list_map_update:
  fixes f :: "'a \<Rightarrow> 'b::cancel_comm_monoid_add"
  assumes "i < length xs"
  shows "sum_list (map f (xs[i := y])) + f (xs ! i) = sum_list (map f xs) + f y"
  using assms
proof (induction xs arbitrary: i)
  case Nil
  then show ?case by simp
next
  case (Cons x xs)
  then show ?case by (cases i) (auto simp: ac_simps)
qed

lemma nth_le_sum_list_map:
  fixes f :: "'a \<Rightarrow> nat"
  assumes "i < length xs"
  shows "f (xs ! i) \<le> sum_list (map f xs)"
  using assms by (intro member_le_sum_list) (auto simp: image_iff)

lemma two_nth_le_sum_list_map:
  fixes f :: "'a \<Rightarrow> nat"
  assumes "i < length xs" "j < length xs" "i \<noteq> j"
  shows "f (xs ! i) + f (xs ! j) \<le> sum_list (map f xs)"
  using assms
proof (induction xs arbitrary: i j)
  case Nil
  then show ?case by simp
next
  case (Cons x xs)
  show ?case
  proof (cases i)
    case 0
    with Cons.prems obtain j' where "j = Suc j'" "j' < length xs" by (cases j) auto
    with 0 show ?thesis by (simp add: nth_le_sum_list_map)
  next
    case (Suc i')
    with Cons show ?thesis
      by (cases j) (auto simp: nth_le_sum_list_map intro: trans_le_add2)
  qed
qed

lemma sum_list_map_zero:
  fixes f :: "'a \<Rightarrow> 'b::comm_monoid_add"
  assumes "\<And>x. x \<in> set xs \<Longrightarrow> f x = 0"
  shows "sum_list (map f xs) = 0"
  using assms by (induction xs) auto

lemma sum_list_map_count:
  fixes c :: nat
  assumes "\<And>x. x \<in> set xs \<Longrightarrow> f x = (if P x then c else 0)"
  shows "sum_list (map f xs) = c * length (filter P xs)"
  using assms by (induction xs) auto

lemma map_update_same:
  "i < length xs \<Longrightarrow> f y = f (xs ! i) \<Longrightarrow> map f (xs[i := y]) = map f xs"
  by (simp add: map_update list_update_same_conv)

section \<open>A ring buffer's contents\<close>

text \<open>
  \<open>ring_slice b h n\<close> is the \<open>n\<close> entries of the array \<open>b\<close> from index \<open>h\<close> on, wrapping
  round; \<open>ring_view b h t q\<close> says that the array \<open>b\<close> with read index \<open>h\<close> and write
  index \<open>t\<close> holds the list \<open>q\<close>.
\<close>

definition ring_slice :: "'a list \<Rightarrow> nat \<Rightarrow> nat \<Rightarrow> 'a list" where
  "ring_slice b h n = map (\<lambda>i. b ! ((h + i) mod length b)) [0..<n]"

definition ring_view :: "'a list \<Rightarrow> nat \<Rightarrow> nat \<Rightarrow> 'a list \<Rightarrow> bool" where
  "ring_view b h t q \<longleftrightarrow>
     h < length b \<and> length q \<le> length b \<and> t = (h + length q) mod length b \<and>
     ring_slice b h (length q) = q"

lemma ring_slice_length [simp]: "length (ring_slice b h n) = n"
  by (simp add: ring_slice_def)

lemma ring_slice_0 [simp]: "ring_slice b h 0 = []"
  by (simp add: ring_slice_def)

lemma ring_slice_nth: "i < n \<Longrightarrow> ring_slice b h n ! i = b ! ((h + i) mod length b)"
  by (simp add: ring_slice_def)

lemma ring_offsets_distinct:
  assumes "i < j" "j < (L::nat)"
  shows "(h + i) mod L \<noteq> (h + j) mod L"
proof
  assume "(h + i) mod L = (h + j) mod L"
  then have "L dvd (h + j) - (h + i)"
    using assms by (metis add_le_cancel_left less_imp_le mod_eq_dvd_iff_nat)
  then have "L dvd j - i" by simp
  with assms show False by (auto dest: dvd_imp_le)
qed

lemma ring_slice_write_end:
  assumes "n < length b"
  shows "ring_slice (b[(h + n) mod length b := x]) h (Suc n) = ring_slice b h n @ [x]"
proof (rule nth_equalityI)
  fix i assume "i < length (ring_slice (b[(h + n) mod length b := x]) h (Suc n))"
  then have i: "i \<le> n" by simp
  have pos: "0 < length b" using assms by linarith
  show "ring_slice (b[(h + n) mod length b := x]) h (Suc n) ! i = (ring_slice b h n @ [x]) ! i"
  proof (cases "i = n")
    case True
    then show ?thesis using pos by (simp add: ring_slice_nth nth_append)
  next
    case False
    with i have "i < n" by simp
    moreover from this assms have "(h + i) mod length b \<noteq> (h + n) mod length b"
      by (intro ring_offsets_distinct)
    ultimately show ?thesis by (simp add: ring_slice_nth nth_append)
  qed
qed simp

lemma ring_slice_Suc:
  "h < length b \<Longrightarrow>
   ring_slice b h (Suc n) = b ! h # ring_slice b ((h + 1) mod length b) n"
proof (rule nth_equalityI)
  fix i assume h: "h < length b" and i: "i < length (ring_slice b h (Suc n))"
  show "ring_slice b h (Suc n) ! i = (b ! h # ring_slice b ((h + 1) mod length b) n) ! i"
  proof (cases i)
    case 0
    with h show ?thesis by (simp add: ring_slice_nth)
  next
    case (Suc k)
    with i have "k < n" by simp
    moreover have "((h + 1) mod length b + k) mod length b = (h + Suc k) mod length b"
      by (simp add: mod_add_left_eq)
    ultimately show ?thesis using Suc i by (simp add: ring_slice_nth)
  qed
qed simp

lemma ring_view_bounds: "ring_view b h t q \<Longrightarrow> h < length b \<and> t < length b \<and> length q \<le> length b"
  by (auto simp: ring_view_def intro: mod_less_divisor)

lemma ring_view_empty [ring_facts]: "h < length b \<Longrightarrow> ring_view b h h []"
  by (simp add: ring_view_def)

text \<open>Writing at the write index of a ring that is not full leaves the contents alone.\<close>

lemma ring_view_write [ring_facts]:
  assumes "ring_view b h t q" "length q < length b"
  shows "ring_view (b[t := x]) h t q" and "b[t := x] ! t = x"
proof -
  have t: "t = (h + length q) mod length b" "t < length b"
    using assms ring_view_bounds [OF assms(1)] by (auto simp: ring_view_def)
  have "ring_slice (b[t := x]) h (Suc (length q)) = ring_slice b h (length q) @ [x]"
    using ring_slice_write_end [OF assms(2)] t(1) by simp
  then have "take (length q) (ring_slice (b[t := x]) h (Suc (length q))) = q"
    using assms(1) by (simp add: ring_view_def)
  then have "ring_slice (b[t := x]) h (length q) = q"
    by (simp add: ring_slice_def take_map)
  with assms(1) show "ring_view (b[t := x]) h t q" by (simp add: ring_view_def)
  from t show "b[t := x] ! t = x" by simp
qed

text \<open>Moving the write index over a written slot appends it; moving the read index drops the head.\<close>

lemma ring_view_advance_tail [ring_facts]:
  assumes "ring_view b h t q" "length q < length b"
  shows "ring_view b h ((t + 1) mod length b) (q @ [b ! t])"
proof -
  have t: "t = (h + length q) mod length b" using assms by (simp add: ring_view_def)
  have "ring_slice b h (Suc (length q)) = ring_slice b h (length q) @ [b ! t]"
    by (simp add: ring_slice_def t)
  moreover have "(t + 1) mod length b = (h + Suc (length q)) mod length b"
    unfolding t by (simp add: mod_simps)
  ultimately show ?thesis using assms by (simp add: ring_view_def)
qed

lemma ring_view_hd [ring_facts]:
  assumes "ring_view b h t q" "q \<noteq> []"
  shows "b ! h = hd q"
proof -
  obtain x q' where q: "q = x # q'" using assms(2) by (cases q) auto
  with assms(1) show ?thesis by (auto simp: ring_view_def ring_slice_Suc)
qed

lemma ring_view_advance_head [ring_facts]:
  assumes "ring_view b h t q" "q \<noteq> []"
  shows "ring_view b ((h + 1) mod length b) t (tl q)"
proof -
  obtain x q' where q: "q = x # q'" using assms(2) by (cases q) auto
  have "h < length b" using assms(1) by (simp add: ring_view_def)
  moreover have "((h + 1) mod length b + length q') mod length b = (h + Suc (length q')) mod length b"
    by (simp add: mod_simps)
  ultimately show ?thesis
    using assms(1) q by (auto simp: ring_view_def ring_slice_Suc intro: mod_less_divisor)
qed

section \<open>Runs of a machine\<close>

text \<open>A list of acts, each of which the machine must be able to do.\<close>

primrec run_acts :: "('a \<Rightarrow> 's \<Rightarrow> 's option) \<Rightarrow> 'a list \<Rightarrow> 's \<Rightarrow> 's option" where
  "run_acts f [] s = Some s"
| "run_acts f (a # as) s = (case f a s of None \<Rightarrow> None | Some s' \<Rightarrow> run_acts f as s')"

lemma run_acts_append: "run_acts f (as @ bs) s = (case run_acts f as s of None \<Rightarrow> None | Some t \<Rightarrow> run_acts f bs t)"
  by (induction as arbitrary: s) (auto split: option.splits)

lemma run_acts_induct [consumes 1, case_names start step]:
  assumes "run_acts f as s = Some t" "P s" "\<And>a u v. a \<in> set as \<Longrightarrow> P u \<Longrightarrow> f a u = Some v \<Longrightarrow> P v"
  shows "P t"
  using assms
proof (induction as arbitrary: s)
  case (Cons a as)
  from Cons.prems(1) obtain u where u: "f a s = Some u" "run_acts f as u = Some t" by (auto split: option.splits)
  have "P u" by (rule Cons.prems(3) [OF _ Cons.prems(2) u(1)]) simp
  with u(2) show ?case by (rule Cons.IH) (rule Cons.prems(3), simp_all)
qed simp

text \<open>
  A machine all of whose runs end: every act keeps \<open>ok\<close> and lowers \<open>rank\<close>, and where no act
  is possible the machine is \<open>over\<close>.  Its runs are then no longer than the rank, they can be
  continued to the end, and the end is never a deadlock.
\<close>

locale ending_machine =
  fixes step :: "'a \<Rightarrow> 's \<Rightarrow> 's option" and ok :: "'s \<Rightarrow> bool" and rank :: "'s \<Rightarrow> nat" and over :: "'s \<Rightarrow> bool"
  assumes keeps: "ok s \<Longrightarrow> step a s = Some t \<Longrightarrow> ok t"
    and descends: "ok s \<Longrightarrow> step a s = Some t \<Longrightarrow> rank t < rank s"
    and stuck_over: "ok s \<Longrightarrow> (\<And>a. step a s = None) \<Longrightarrow> over s"
begin

lemma run_ok: "run_acts step as s = Some t \<Longrightarrow> ok s \<Longrightarrow> ok t"
  by (induction rule: run_acts_induct) (auto intro: keeps)

lemma run_length: "run_acts step as s = Some t \<Longrightarrow> ok s \<Longrightarrow> length as + rank t \<le> rank s"
proof (induction as arbitrary: s)
  case (Cons a as)
  then obtain u where u: "step a s = Some u" "run_acts step as u = Some t" by (auto split: option.splits)
  with Cons.IH [OF u(2) keeps [OF Cons.prems(2) u(1)]] descends [OF Cons.prems(2) u(1)] show ?case by simp
qed simp

lemma run_to_end: "ok s \<Longrightarrow> \<exists>as t. run_acts step as s = Some t \<and> (\<forall>a. step a t = None) \<and> over t"
proof (induction "rank s" arbitrary: s rule: less_induct)
  case less
  show ?case
  proof (cases "\<forall>a. step a s = None")
    case True
    with stuck_over [OF less.prems] have "run_acts step [] s = Some s \<and> (\<forall>a. step a s = None) \<and> over s" by simp
    then show ?thesis by blast
  next
    case False
    then obtain a u where u: "step a s = Some u" by auto
    from less.hyps [OF descends [OF less.prems u] keeps [OF less.prems u]]
    obtain as t where "run_acts step as u = Some t" "\<forall>a. step a t = None" "over t" by blast
    with u have "run_acts step (a # as) s = Some t \<and> (\<forall>a. step a t = None) \<and> over t" by simp
    then show ?thesis by blast
  qed
qed

end

end
