(* ===== verification/CLib.thy ===== *)
theory CLib
  imports SysPrelude "HOL-Library.Char_ord"
begin

text \<open>
  The part of the C standard library that the programs use, on \<open>char\<close> arrays written as
  lists of bytes: NUL-terminated strings (\<open>cstr\<close>, \<open>strncpy\<close>, \<open>strcmp\<close>, \<open>strncmp\<close>,
  \<open>strlen\<close>), decimal output (the \<open>%d\<close> of \<open>printf\<close>), truncating \<open>snprintf\<close>, decimal
  input (\<open>sscanf\<close> with \<open>%d\<close>), and \<open>rand\<close> read from a stream that stands for the
  values the library returns.  These functions belong to the language, not to a file of
  the repository.
\<close>

section \<open>Strings in char arrays\<close>

abbreviation NUL :: char where "NUL \<equiv> CHR 0x00"

definition cstr :: "char list \<Rightarrow> char list" where
  "cstr a = takeWhile (\<lambda>c. c \<noteq> NUL) a"

definition c_strlen :: "char list \<Rightarrow> nat" where
  "c_strlen a = length (cstr a)"

text \<open>
  \<open>strncpy(dst, src, n)\<close> copies at most \<open>n\<close> bytes of the string \<open>src\<close> and fills the rest of
  the first \<open>n\<close> bytes of \<open>dst\<close> with zeros; the bytes after the first \<open>n\<close> stay.
\<close>

definition c_strncpy :: "char list \<Rightarrow> char list \<Rightarrow> nat \<Rightarrow> char list" where
  "c_strncpy dst src n =
     (let s = take n (cstr src) in s @ replicate (n - length s) NUL @ drop n dst)"

definition c_strcmp_eq :: "char list \<Rightarrow> char list \<Rightarrow> bool" where
  "c_strcmp_eq a b \<longleftrightarrow> cstr a = cstr b"

text \<open>\<open>strncmp(a, b, n) == 0\<close>: the strings agree up to \<open>n\<close> bytes or their common end.\<close>

definition c_strncmp_eq :: "char list \<Rightarrow> char list \<Rightarrow> nat \<Rightarrow> bool" where
  "c_strncmp_eq a b n \<longleftrightarrow> take n (cstr a) = take n (cstr b)"

lemma cstr_no_NUL [simp]: "NUL \<notin> set (cstr a)"
  by (auto simp: cstr_def dest: set_takeWhileD)

lemma cstr_id: "NUL \<notin> set s \<Longrightarrow> cstr s = s"
  by (auto simp: cstr_def takeWhile_eq_all_conv)

lemma cstr_append_NUL: "NUL \<notin> set s \<Longrightarrow> cstr (s @ NUL # r) = s"
  by (induction s) (auto simp: cstr_def)

lemma cstr_append_replicate: "NUL \<notin> set s \<Longrightarrow> cstr (s @ replicate n NUL) = s"
  by (cases n) (auto simp: cstr_append_NUL cstr_id)

lemma c_strncpy_length: "length dst = n \<Longrightarrow> length (c_strncpy dst src n) = n"
  by (simp add: c_strncpy_def Let_def)

text \<open>A copy of \<open>n\<close> bytes of a string shorter than \<open>n\<close> into an \<open>n\<close>-byte array.\<close>

lemma c_strncpy_cstr:
  assumes "length dst = n" "c_strlen src < n"
  shows "cstr (c_strncpy dst src n) = cstr src"
  using assms by (simp add: c_strncpy_def Let_def c_strlen_def cstr_append_replicate)

text \<open>A task text is an array of \<open>n + 1\<close> bytes: \<open>n\<close> characters other than NUL, then NUL.\<close>

lemma c_strncpy_full:
  assumes "length dst = Suc n" "src = s @ [NUL]" "length s = n" "NUL \<notin> set s"
  shows "c_strncpy dst src (Suc n) = src"
  using assms by (simp add: c_strncpy_def Let_def cstr_append_NUL)

section \<open>Decimal output\<close>

fun show_nat :: "nat \<Rightarrow> string" where
  "show_nat n = (if n < 10 then [char_of (48 + n)]
                 else show_nat (n div 10) @ [char_of (48 + n mod 10)])"

declare show_nat.simps [simp del]

text \<open>The \<open>%d\<close> conversion of \<open>printf\<close>.\<close>

definition show_int :: "int \<Rightarrow> string" where
  "show_int i = (if i < 0 then CHR ''-'' # show_nat (nat (- i)) else show_nat (nat i))"

text \<open>
  \<open>snprintf(buf, n, ...)\<close>: the formatted text is cut to \<open>n - 1\<close> bytes and NUL is
  added; the value returned is the length of the whole text.
\<close>

definition c_snprintf :: "nat \<Rightarrow> string \<Rightarrow> char list \<times> int" where
  "c_snprintf n txt =
     ((if n = 0 then [] else take (n - 1) (cstr txt) @ [NUL]), int (length (cstr txt)))"

section \<open>Decimal input\<close>

definition is_digit :: "char \<Rightarrow> bool" where
  "is_digit c \<longleftrightarrow> 48 \<le> (of_char c :: nat) \<and> (of_char c :: nat) \<le> 57"

text \<open>\<open>isspace\<close> in the C locale: blank, and the codes 9 to 13.\<close>

definition is_space :: "char \<Rightarrow> bool" where
  "is_space c \<longleftrightarrow> (of_char c :: nat) = 32 \<or> (9 \<le> (of_char c :: nat) \<and> (of_char c :: nat) \<le> 13)"

definition digit_val :: "char \<Rightarrow> nat" where
  "digit_val c = (of_char c :: nat) - 48"

definition read_digits :: "string \<Rightarrow> nat" where
  "read_digits ds = foldl (\<lambda>n c. 10 * n + digit_val c) 0 ds"

text \<open>
  The subject sequence of \<open>%d\<close> and \<open>strtol(.., 10)\<close>: white space, an optional sign, digits.
  The result is the value and what follows it, or \<open>None\<close> when there is no digit.
\<close>

definition scan_int :: "string \<Rightarrow> (int \<times> string) option" where
  "scan_int s0 =
     (let s = dropWhile is_space s0;
          (neg, r) = (case s of [] \<Rightarrow> (False, [])
                      | c # cs \<Rightarrow> if c = CHR ''-'' then (True, cs)
                                  else if c = CHR ''+'' then (False, cs) else (False, s));
          ds = takeWhile is_digit r
      in if ds = [] then None
         else Some (if neg then - int (read_digits ds) else int (read_digits ds),
                    dropWhile is_digit r))"

lemma is_digit_char_of: "d < 10 \<Longrightarrow> is_digit (char_of (48 + d :: nat))"
  by (simp add: is_digit_def)

lemma digit_val_char_of: "d < 10 \<Longrightarrow> digit_val (char_of (48 + d :: nat)) = d"
  by (simp add: digit_val_def)

lemma show_nat_nonempty [simp]: "show_nat n \<noteq> []"
  by (subst show_nat.simps) simp

lemma show_nat_digits: "c \<in> set (show_nat n) \<Longrightarrow> is_digit c"
proof (induction n rule: show_nat.induct)
  case (1 n)
  show ?case
  proof (cases "n < 10")
    case True
    with "1.prems" show ?thesis by (simp add: show_nat.simps [of n] is_digit_char_of)
  next
    case False
    with 1 show ?thesis by (auto simp: show_nat.simps [of n] is_digit_char_of)
  qed
qed

lemma read_digits_append: "read_digits (xs @ [c]) = 10 * read_digits xs + digit_val c"
  by (simp add: read_digits_def)

lemma read_show_nat [simp]: "read_digits (show_nat n) = n"
proof (induction n rule: show_nat.induct)
  case (1 n)
  show ?case
  proof (cases "n < 10")
    case True
    then show ?thesis by (simp add: show_nat.simps [of n] read_digits_def digit_val_char_of)
  next
    case False
    with 1 show ?thesis by (simp add: show_nat.simps [of n] read_digits_append digit_val_char_of)
  qed
qed

lemma show_nat_no_NUL [simp]: "NUL \<notin> set (show_nat n)"
  using show_nat_digits [of NUL n] by (auto simp: is_digit_def)

lemma show_int_no_NUL [simp]: "NUL \<notin> set (show_int i)"
  by (simp add: show_int_def)

text \<open>A printed number of at most \<open>k\<close> digits stays below \<open>10 ^ k\<close>, and conversely.\<close>

lemma show_nat_length: "n < 10 ^ Suc k \<Longrightarrow> length (show_nat n) \<le> Suc k"
proof (induction k arbitrary: n)
  case 0
  then show ?case by (simp add: show_nat.simps [of n])
next
  case (Suc k)
  show ?case
  proof (cases "n < 10")
    case True
    then show ?thesis by (simp add: show_nat.simps [of n])
  next
    case False
    have "n div 10 < 10 ^ Suc k" using Suc.prems by (simp add: div_less_iff_less_mult)
    from Suc.IH [OF this] False show ?thesis by (simp add: show_nat.simps [of n])
  qed
qed

lemma scan_show_int_append:
  assumes "\<And>c. rest \<noteq> [] \<Longrightarrow> c = hd rest \<Longrightarrow> \<not> is_digit c"
  shows "scan_int (show_int i @ rest) = Some (i, rest)"
proof -
  have tw: "takeWhile is_digit (show_nat n @ rest) = show_nat n" for n
    using assms by (cases rest) (auto simp: takeWhile_append dest: show_nat_digits)
  have dw: "dropWhile is_digit (show_nat n @ rest) = rest" for n
    using assms by (cases rest) (auto simp: dropWhile_append dest: show_nat_digits)
  show ?thesis
  proof (cases "i < 0")
    case True
    then show ?thesis
      by (simp add: scan_int_def show_int_def is_space_def tw dw)
  next
    case False
    obtain c cs where c: "show_nat (nat i) = c # cs"
      by (meson list.exhaust show_nat_nonempty)
    then have dig: "is_digit c" using show_nat_digits [of c "nat i"] by simp
    then have "\<not> is_space c" "c \<noteq> CHR ''-''" "c \<noteq> CHR ''+''"
      by (auto simp: is_digit_def is_space_def)
    moreover have "read_digits (c # cs) = nat i"
      using read_show_nat [of "nat i"] c by simp
    ultimately show ?thesis
      using False c tw [of "nat i"] dw [of "nat i"] by (simp add: scan_int_def show_int_def)
  qed
qed

lemma scan_show_int [simp]: "scan_int (show_int i) = Some (i, [])"
  using scan_show_int_append [of "[]" i] by simp

section \<open>Pseudo-random numbers\<close>

text \<open>
  \<open>rand()\<close> returns the next value of a sequence that \<open>srand\<close> selects.  The sequence is
  a parameter: \<open>rand_vals\<close> gives the values in order, \<open>rand_pos\<close> counts the calls so far.
\<close>

record rng =
  rand_vals :: "nat \<Rightarrow> nat"
  rand_pos :: nat

definition c_rand :: "rng \<Rightarrow> nat \<times> rng" where
  "c_rand r = (rand_vals r (rand_pos r), r\<lparr>rand_pos := Suc (rand_pos r)\<rparr>)"

section \<open>Integers of 32 bits\<close>

text \<open>
  Signed overflow, and a \<open>%d\<close> conversion whose value does not fit an \<open>int\<close>, have no
  defined result in C; the models return \<open>Undefined\<close> there instead of choosing a value.
\<close>

datatype 'a c_result = Defined 'a | Undefined

definition int_ok :: "int \<Rightarrow> bool" where
  "int_ok i \<longleftrightarrow> - 2147483648 \<le> i \<and> i \<le> 2147483647"

lemma show_nat_length_int: "n \<le> 2147483648 \<Longrightarrow> length (show_nat n) \<le> 10"
  using show_nat_length [of n 9] by simp

lemma show_int_length:
  assumes "int_ok i"
  shows "length (show_int i) \<le> 11"
proof (cases "i < 0")
  case True
  then have "nat (- i) \<le> 2147483648" using assms by (simp add: int_ok_def)
  from show_nat_length_int [OF this] True show ?thesis by (simp add: show_int_def)
next
  case False
  then have "nat i \<le> 2147483648" using assms by (simp add: int_ok_def)
  from show_nat_length_int [OF this] False show ?thesis by (simp add: show_int_def)
qed

text \<open>What a buffer of \<open>n\<close> bytes holds after \<open>snprintf\<close> when the text fits.\<close>

lemma c_snprintf_fits:
  assumes "NUL \<notin> set txt" "length txt < n"
  shows "c_snprintf n txt = (txt @ [NUL], int (length txt))"
  using assms by (simp add: c_snprintf_def cstr_id)

end
