(* ===== verification/Double.thy ===== *)
theory Double
  imports SysPrelude Complex_Main
begin

text \<open>
  The type \<open>double\<close> of the programs: IEEE 754 binary64 numbers as rational numbers, every
  operation rounded to the nearest number of 53 significant bits, ties to even.  The
  exponent is not bounded, which is exact as long as results are neither subnormal nor
  infinite.
\<close>

section \<open>Rounding\<close>

function bits :: "int \<Rightarrow> int" where
  "bits n = (if n \<le> 0 then 0 else 1 + bits (n div 2))"
  by pat_completeness auto
termination by (relation "measure nat") auto

declare bits.simps [simp del]

lemma bits_nonneg: "0 \<le> bits n"
proof (induction n rule: bits.induct)
  case (1 n)
  then show ?case by (cases "n \<le> 0") (simp_all add: bits.simps [of n])
qed

lemma bits_bounds: "0 < n \<Longrightarrow> 0 < bits n \<and> 2 ^ nat (bits n - 1) \<le> n \<and> n < 2 ^ nat (bits n)"
proof (induction n rule: bits.induct)
  case (1 n)
  show ?case
  proof (cases "n = 1")
    case True
    then show ?thesis by (simp add: bits.simps [of 1] bits.simps [of 0])
  next
    case False
    with "1.prems" have n: "\<not> n \<le> 0" "0 < n div 2" by simp_all
    from "1.IH" [OF n] have h: "0 < bits (n div 2)" "2 ^ nat (bits (n div 2) - 1) \<le> n div 2"
      "n div 2 < 2 ^ nat (bits (n div 2))" by auto
    have b: "bits n = 1 + bits (n div 2)" using n(1) by (simp add: bits.simps [of n])
    have e: "nat (bits n) = Suc (nat (bits (n div 2)))" "nat (bits n - 1) = Suc (nat (bits (n div 2) - 1))"
      using h(1) by (simp_all add: b nat_add_distrib flip: Suc_nat_eq_nat_zadd1)
    define c c' where "c = (2::int) ^ nat (bits (n div 2) - 1)" and "c' = (2::int) ^ nat (bits (n div 2))"
    have "c \<le> n div 2" "n div 2 < c'" using h by (simp_all add: c_def c'_def)
    then have "2 * c \<le> n" "n < 2 * c'" by linarith+
    then show ?thesis using h(1) b e by (simp add: c_def c'_def)
  qed
qed

text \<open>The exponent of the leading bit of a positive rational.\<close>

definition expo :: "rat \<Rightarrow> int" where
  "expo x = (let (n, d) = quotient_of x; k = bits n - bits d in if x < 2 powi k then k - 1 else k)"

text \<open>The nearest integer, the even one of two.\<close>

definition round_even :: "rat \<Rightarrow> int" where
  "round_even y =
     (let f = \<lfloor>y\<rfloor>; r = y - of_int f
      in if r < 1 / 2 then f else if r > 1 / 2 then f + 1 else if even f then f else f + 1)"

definition fl_pos :: "rat \<Rightarrow> rat" where
  "fl_pos x = (let e = expo x - 52 in of_int (round_even (x / 2 powi e)) * 2 powi e)"

definition fl :: "rat \<Rightarrow> rat" where
  "fl x = (if x = 0 then 0 else if x < 0 then - fl_pos (- x) else fl_pos x)"

lemma expo_bounds:
  assumes "0 < x"
  shows "2 powi expo x \<le> x" and "x < 2 powi (expo x + 1)"
proof -
  obtain n d where q: "quotient_of x = (n, d)" by fastforce
  have d: "0 < d" using quotient_of_denom_pos [OF q] .
  have x: "x = of_int n / of_int d" using quotient_of_div [OF q] .
  with assms d have n: "0 < n" by (simp add: zero_less_divide_iff)
  define a b where "a = bits n" and "b = bits d"
  have np: "2 ^ nat (a - 1) \<le> n" "n < 2 ^ nat a" "0 < a"
    and dp: "2 ^ nat (b - 1) \<le> d" "d < 2 ^ nat b" "0 < b"
    using bits_bounds [OF n] bits_bounds [OF d] by (auto simp: a_def b_def)
  have P: "(2::rat) powi k = of_int (2 ^ nat k)" if "0 \<le> k" for k :: int
    using that by (simp add: power_int_def)
  have n1: "2 powi (a - 1) \<le> (of_int n :: rat)" "(of_int n :: rat) < 2 powi a"
    using np by (simp_all only: P of_int_le_iff of_int_less_iff)
  have d1: "2 powi (b - 1) \<le> (of_int d :: rat)" "(of_int d :: rat) < 2 powi b"
    using dp by (simp_all only: P of_int_le_iff of_int_less_iff)
  have dr: "0 < (of_int d :: rat)" using d by simp
  have e: "expo x = (if x < 2 powi (a - b) then a - b - 1 else a - b)"
    by (simp add: expo_def q a_def b_def)
  have lo: "2 powi (a - b - 1) \<le> x"
  proof -
    have "2 powi (a - b - 1) * of_int d \<le> 2 powi (a - b - 1) * (2::rat) powi b"
      using d1(2) by (intro mult_left_mono) auto
    also have "\<dots> = 2 powi (a - 1)" by (simp flip: power_int_add)
    finally have "2 powi (a - b - 1) * of_int d \<le> (of_int n :: rat)" using n1(1) by simp
    then show ?thesis using dr by (simp add: x pos_le_divide_eq)
  qed
  have hi: "x < 2 powi (a - b + 1)"
  proof -
    have "of_int n < (2::rat) powi a" by (rule n1(2))
    also have "\<dots> = 2 powi (a - b + 1) * 2 powi (b - 1)" by (simp flip: power_int_add)
    also have "\<dots> \<le> 2 powi (a - b + 1) * of_int d" using d1(1) by (intro mult_left_mono) auto
    finally show ?thesis using dr by (simp add: x pos_divide_less_eq)
  qed
  show "2 powi expo x \<le> x" and "x < 2 powi (expo x + 1)"
    using lo hi by (auto simp: e)
qed

lemma round_even_error: "\<bar>of_int (round_even y) - y\<bar> \<le> 1 / 2"
proof -
  have "of_int \<lfloor>y\<rfloor> \<le> y" "y < of_int \<lfloor>y\<rfloor> + 1" by linarith+
  then show ?thesis by (auto simp: round_even_def Let_def abs_le_iff)
qed

lemma round_even_of_int [simp]: "round_even (of_int k) = k"
  by (simp add: round_even_def)

lemma round_even_nonneg: "0 \<le> y \<Longrightarrow> 0 \<le> round_even y"
  by (auto simp: round_even_def Let_def)

text \<open>The relative error of one rounding is at most \<open>2 ^ -53\<close>.\<close>

lemma fl_pos_error:
  assumes "0 < x"
  shows "\<bar>fl_pos x - x\<bar> \<le> x / 2 ^ 53"
proof -
  define e where "e = expo x - 52"
  define s where "s = (2::rat) powi e"
  have s: "0 < s" by (simp add: s_def)
  have "fl_pos x - x = (of_int (round_even (x / s)) - x / s) * s"
    using s by (simp add: fl_pos_def Let_def e_def s_def left_diff_distrib)
  then have "\<bar>fl_pos x - x\<bar> \<le> 1 / 2 * s"
    using round_even_error [of "x / s"] s by (simp add: abs_mult mult_right_mono)
  moreover have "2 powi expo x = s * 2 powi 52"
    unfolding s_def e_def using power_int_add [of "2::rat" "expo x - 52" 52] by simp
  moreover have "(2::rat) powi 52 = 2 ^ 52" by (simp add: power_int_def)
  ultimately show ?thesis using expo_bounds(1) [OF assms] by simp
qed

lemma fl_error: "\<bar>fl x - x\<bar> \<le> \<bar>x\<bar> / 2 ^ 53"
  using fl_pos_error [of x] fl_pos_error [of "- x"] by (auto simp: fl_def abs_if split: if_splits)

lemma fl_minus [simp]: "fl (- x) = - fl x"
  by (simp add: fl_def)

lemma fl_0 [simp]: "fl 0 = 0"
  by (simp add: fl_def)

lemma fl_pos_nonneg: "0 < x \<Longrightarrow> 0 \<le> fl_pos x"
  by (simp add: fl_pos_def Let_def round_even_nonneg)

text \<open>An integer below \<open>2 ^ 53\<close> is its own \<open>double\<close>.\<close>

lemma fl_of_int:
  assumes "\<bar>k\<bar> < 2 ^ 53"
  shows "fl (of_int k) = of_int k"
proof -
  have pos: "fl_pos (of_int k) = of_int k" if k: "0 < k" "k < 2 ^ 53" for k
  proof -
    have k0: "0 < (of_int k :: rat)" using k by simp
    have "2 powi expo (of_int k) < (2::rat) powi 53"
    proof -
      have "(of_int k :: rat) < of_int (2 ^ 53)" using k(2) by (simp only: of_int_less_iff)
      also have "\<dots> = 2 powi 53" by (simp add: power_int_def)
      finally show ?thesis using expo_bounds(1) [OF k0] by simp
    qed
    then have e: "expo (of_int k) - 52 \<le> 0"
      using power_int_increasing [of 53 "expo (of_int k)" "2::rat"] by force
    define m where "m = nat (52 - expo (of_int k))"
    have s: "(2::rat) powi (expo (of_int k) - 52) = 1 / 2 ^ m"
      using e by (simp add: m_def power_int_def power_one_over inverse_eq_divide)
    have "of_int k / (1 / 2 ^ m) = (of_int (k * 2 ^ m) :: rat)" by simp
    then have "round_even (of_int k / (1 / 2 ^ m)) = k * 2 ^ m" by (metis round_even_of_int)
    then show ?thesis by (simp add: fl_pos_def Let_def s)
  qed
  show ?thesis using pos [of k] pos [of "- k"] assms by (auto simp: fl_def)
qed

section \<open>Arithmetic\<close>

text \<open>Each operation of C on doubles rounds the exact result.\<close>

definition dadd :: "rat \<Rightarrow> rat \<Rightarrow> rat" where "dadd x y = fl (x + y)"
definition dsub :: "rat \<Rightarrow> rat \<Rightarrow> rat" where "dsub x y = fl (x - y)"
definition dmul :: "rat \<Rightarrow> rat \<Rightarrow> rat" where "dmul x y = fl (x * y)"
definition ddiv :: "rat \<Rightarrow> rat \<Rightarrow> rat" where "ddiv x y = fl (x / y)"

end
