(* ===== verification/CNum.thy ===== *)
theory CNum
  imports CLib Double
begin

text \<open>
  The C library functions that turn a text into a number and report where they stopped:
  \<open>strtol(s, &end, 10)\<close> on a 64-bit \<open>long\<close>, and \<open>strtod(s, &end)\<close> on decimal texts (the
  spellings \<open>inf\<close>, \<open>nan\<close> and hexadecimal numbers are not covered).  Both return the value
  and the rest of the text; when nothing can be converted the value is 0 and the rest is
  the text itself.
\<close>

definition c_strtol :: "string \<Rightarrow> int \<times> string" where
  "c_strtol s = (case scan_int s of None \<Rightarrow> (0, s)
     | Some (v, r) \<Rightarrow> (max (- 9223372036854775808) (min 9223372036854775807 v), r))"

definition scan_sign :: "string \<Rightarrow> bool \<times> string" where
  "scan_sign s = (case s of [] \<Rightarrow> (False, [])
     | c # cs \<Rightarrow> if c = CHR ''-'' then (True, cs) else if c = CHR ''+'' then (False, cs) else (False, s))"

definition scan_exponent :: "string \<Rightarrow> int \<times> string" where
  "scan_exponent r = (case r of [] \<Rightarrow> (0, [])
     | c # cs \<Rightarrow>
         if c = CHR ''e'' \<or> c = CHR ''E''
         then (let (neg, q) = scan_sign cs; ds = takeWhile is_digit q
               in if ds = [] then (0, r)
                  else (if neg then - int (read_digits ds) else int (read_digits ds), dropWhile is_digit q))
         else (0, r))"

definition c_strtod :: "string \<Rightarrow> rat \<times> string" where
  "c_strtod s0 =
     (let (neg, r) = scan_sign (dropWhile is_space s0);
          ip = takeWhile is_digit r; r1 = dropWhile is_digit r;
          (fp, r2) = (case r1 of [] \<Rightarrow> ([], [])
                      | c # cs \<Rightarrow> if c = CHR ''.'' then (takeWhile is_digit cs, dropWhile is_digit cs) else ([], r1))
      in if ip = [] \<and> fp = [] then (0, s0)
         else (let (e, r3) = scan_exponent r2;
                   m = of_nat (read_digits (ip @ fp)) * 10 powi (e - int (length fp))
               in (fl (if neg then - m else m), r3)))"

text \<open>The test \<open>endptr == arg || *endptr != 0\<close> of the programs.\<close>

definition not_a_number :: "string \<Rightarrow> string \<Rightarrow> bool" where
  "not_a_number arg rest \<longleftrightarrow> rest = arg \<or> rest \<noteq> []"

lemma c_strtol_show [simp]:
  assumes "- 9223372036854775808 \<le> i" "i \<le> 9223372036854775807"
  shows "c_strtol (show_int i) = (i, [])"
  using assms by (simp add: c_strtol_def)

lemma show_int_is_number: "\<not> not_a_number (show_int i) []"
proof -
  have "show_int i \<noteq> []" by (simp add: show_int_def)
  then show ?thesis by (simp add: not_a_number_def)
qed

end
