(* ===== verification/DoubleOrder.thy ===== *)
theory DoubleOrder
  imports Double
begin

text \<open>
  Which rationals are doubles, and that rounding is monotone and leaves a double as it is.
  From this follow the two facts the loops on doubles rest on: adding something that is not
  positive never moves a double up, and adding a step that is large enough against the
  rounding error always does.
\<close>

section \<open>Representable numbers\<close>

definition is_double :: "rat \<Rightarrow> bool" where
  "is_double x \<longleftrightarrow> fl x = x"

lemma round_even_mono:
  assumes "y \<le> z"
  shows "round_even y \<le> round_even z"
proof (cases "\<lfloor>y\<rfloor> = \<lfloor>z\<rfloor>")
  case True
  with assms show ?thesis by (auto simp: round_even_def Let_def)
next
  case False
  with floor_mono [OF assms] have "\<lfloor>y\<rfloor> + 1 \<le> \<lfloor>z\<rfloor>" by simp
  moreover have "round_even y \<le> \<lfloor>y\<rfloor> + 1" "\<lfloor>z\<rfloor> \<le> round_even z"
    by (auto simp: round_even_def Let_def)
  ultimately show ?thesis by linarith
qed

lemma expo_mono:
  assumes "0 < x" "x \<le> y"
  shows "expo x \<le> expo y"
proof (rule ccontr)
  assume "\<not> expo x \<le> expo y"
  then have "(2::rat) powi (expo y + 1) \<le> 2 powi expo x" by (intro power_int_increasing) auto
  with expo_bounds(2) [of y] expo_bounds(1) [of x] assms show False by simp
qed

lemma powi2_less: "(2::rat) powi a < 2 powi b \<Longrightarrow> a < b"
  by (rule ccontr) (use power_int_increasing [of b a "2::rat"] in simp)

lemma expo_eqI:
  assumes "2 powi k \<le> x" "x < 2 powi (k + 1)"
  shows "expo x = k"
proof -
  have "(0::rat) < 2 powi k" by simp
  from this assms(1) have x: "0 < x" by (rule less_le_trans)
  have "2 powi k < (2::rat) powi (expo x + 1)" "(2::rat) powi expo x < 2 powi (k + 1)"
    using assms expo_bounds [OF x] by (auto intro: le_less_trans)
  then have "k < expo x + 1" "expo x < k + 1" by (auto dest: powi2_less)
  then show ?thesis by simp
qed

text \<open>The scaled number lies between \<open>2 ^ 52\<close> and \<open>2 ^ 53\<close>, so the rounded one does.\<close>

lemma mantissa_bounds:
  assumes "0 < x"
  shows "2 ^ 52 \<le> round_even (x / 2 powi (expo x - 52))"
    and "round_even (x / 2 powi (expo x - 52)) \<le> 2 ^ 53"
proof -
  define s where "s = (2::rat) powi (expo x - 52)"
  have s: "0 < s" by (simp add: s_def)
  have p: "(2::rat) powi expo x = of_int (2 ^ 52) * s" "(2::rat) powi (expo x + 1) = of_int (2 ^ 53) * s"
    using power_int_add [of "2::rat" "52" "expo x - 52"] power_int_add [of "2::rat" "53" "expo x - 52"]
    by (simp_all add: s_def add.commute power_int_def [of _ 52] power_int_def [of _ 53])
  have "of_int (2 ^ 52) \<le> x / s" "x / s \<le> of_int (2 ^ 53)"
    using expo_bounds [OF assms] s by (simp_all only: p pos_le_divide_eq pos_divide_le_eq less_imp_le)
  from round_even_mono [OF this(1)] round_even_mono [OF this(2)]
  show "2 ^ 52 \<le> round_even (x / 2 powi (expo x - 52))"
    "round_even (x / 2 powi (expo x - 52)) \<le> 2 ^ 53"
    by (simp_all only: s_def round_even_of_int)
qed

lemma fl_pos_grid:
  assumes "0 < x"
  shows "2 powi expo x \<le> fl_pos x" and "fl_pos x \<le> 2 powi (expo x + 1)"
proof -
  define s where "s = (2::rat) powi (expo x - 52)"
  have s: "0 < s" by (simp add: s_def)
  have p: "(2::rat) powi expo x = of_int (2 ^ 52) * s" "(2::rat) powi (expo x + 1) = of_int (2 ^ 53) * s"
    using power_int_add [of "2::rat" "52" "expo x - 52"] power_int_add [of "2::rat" "53" "expo x - 52"]
    by (simp_all add: s_def add.commute power_int_def [of _ 52] power_int_def [of _ 53])
  have f: "fl_pos x = of_int (round_even (x / s)) * s" by (simp add: fl_pos_def Let_def s_def)
  show "2 powi expo x \<le> fl_pos x" "fl_pos x \<le> 2 powi (expo x + 1)"
    using mantissa_bounds [OF assms] s
    by (simp_all only: f p s_def [symmetric] mult_le_cancel_right_pos of_int_le_iff)
qed

lemma fl_pos_pos: "0 < x \<Longrightarrow> 0 < fl_pos x"
  using fl_pos_grid(1) [of x] by (meson less_le_trans zero_less_numeral zero_less_power_int)

lemma fl_pos_mono:
  assumes "0 < x" "x \<le> y"
  shows "fl_pos x \<le> fl_pos y"
proof (cases "expo x = expo y")
  case True
  have "x / 2 powi (expo x - 52) \<le> y / 2 powi (expo x - 52)"
    using assms by (intro divide_right_mono) auto
  from round_even_mono [OF this] show ?thesis
    by (simp add: fl_pos_def Let_def True)
next
  case False
  with expo_mono [OF assms] have "expo x + 1 \<le> expo y" by simp
  then have "(2::rat) powi (expo x + 1) \<le> 2 powi expo y" by (intro power_int_increasing) auto
  with fl_pos_grid(2) [of x] fl_pos_grid(1) [of y] assms show ?thesis by simp
qed

lemma fl_mono:
  assumes "x \<le> y"
  shows "fl x \<le> fl y"
proof -
  consider "0 < x" | "x \<le> 0" "0 \<le> y" | "y < 0" by linarith
  then show ?thesis
  proof cases
    case 1
    with assms fl_pos_mono show ?thesis by (simp add: fl_def)
  next
    case 2
    have "fl x \<le> 0" using 2 fl_pos_nonneg [of "- x"] by (simp add: fl_def)
    moreover have "0 \<le> fl y" using 2 fl_pos_nonneg [of y] by (simp add: fl_def)
    ultimately show ?thesis by simp
  next
    case 3
    with assms fl_pos_mono [of "- y" "- x"] show ?thesis by (simp add: fl_def)
  qed
qed

lemma fl_nonneg: "0 \<le> x \<Longrightarrow> 0 \<le> fl x"
  using fl_mono [of 0 x] by simp

lemma fl_pos_id:
  assumes m: "0 < m" "m < 2 ^ 53"
  shows "fl_pos (of_int m * 2 powi e) = of_int m * 2 powi e"
proof -
  define x where "x = (of_int m :: rat) * 2 powi e"
  have x: "0 < x" using m by (simp add: x_def)
  have "x < of_int (2 ^ 53) * 2 powi e"
    using m(2) by (simp only: x_def mult_less_cancel_right_pos zero_less_power_int zero_less_numeral of_int_less_iff)
  also have "\<dots> = 2 powi (e + 53)" by (simp add: power_int_add power_int_def [of _ 53])
  finally have "2 powi expo x < (2::rat) powi (e + 53)" using expo_bounds(1) [OF x] by simp
  then have e: "expo x - 52 \<le> e" by (auto dest: powi2_less)
  define k where "k = expo x - 52"
  define n where "n = nat (e - k)"
  have "e = int n + k" using e by (simp add: n_def k_def)
  then have "(2::rat) powi e = 2 ^ n * 2 powi k"
    by (metis power_int_add power_int_of_nat zero_neq_numeral)
  then have x': "x = of_int (m * 2 ^ n) * 2 powi k" by (simp add: x_def)
  then have q: "x / 2 powi k = of_int (m * 2 ^ n)" by simp
  have "fl_pos x = of_int (m * 2 ^ n) * 2 powi k"
    by (simp only: fl_pos_def Let_def k_def [symmetric] q round_even_of_int)
  with x' have "fl_pos x = x" by simp
  then show ?thesis by (simp only: x_def)
qed

lemma is_double_grid:
  assumes "\<bar>m\<bar> \<le> 2 ^ 53"
  shows "is_double (of_int m * 2 powi e)"
proof -
  have pos: "fl_pos (of_int k * 2 powi e) = of_int k * 2 powi e" if k: "0 < k" "k \<le> 2 ^ 53" for k e
  proof (cases "k = 2 ^ 53")
    case True
    have "(of_int k :: rat) * 2 powi e = of_int 1 * 2 powi (53 + e)"
      by (simp add: True power_int_add power_int_def [of _ 53])
    with fl_pos_id [of 1 "53 + e"] show ?thesis by (simp only:) simp
  next
    case False
    with k fl_pos_id [of k e] show ?thesis by simp
  qed
  consider "m = 0" | "0 < m" | "m < 0" by linarith
  then show ?thesis
  proof cases
    case 1
    then show ?thesis by (simp add: is_double_def)
  next
    case 2
    then have "fl_pos (of_int m * 2 powi e) = of_int m * 2 powi e" "0 < of_int m * (2::rat) powi e"
      using pos [of m e] assms by simp_all
    then show ?thesis by (simp add: is_double_def fl_def)
  next
    case 3
    then have "- fl_pos (of_int (- m) * 2 powi e) = of_int m * 2 powi e" using pos [of "- m" e] assms by simp
    then show ?thesis using 3 by (simp add: is_double_def fl_def mult_less_0_iff)
  qed
qed

lemma is_double_fl [simp]: "is_double (fl x)"
proof -
  have g: "is_double (fl_pos y)" if "0 < y" for y
    using mantissa_bounds [OF that] by (simp add: fl_pos_def Let_def is_double_grid)
  have n: "is_double (- y)" if "is_double y" for y
    using that by (simp add: is_double_def)
  show ?thesis using g [of x] n [OF g, of "- x"] is_double_grid [of 0 0] by (simp add: fl_def)
qed

lemma is_double_ops [simp]:
  "is_double (dadd x y)" "is_double (dsub x y)" "is_double (dmul x y)" "is_double (ddiv x y)"
  by (simp_all add: dadd_def dsub_def dmul_def ddiv_def)

lemma is_double_int: "\<bar>m\<bar> \<le> 2 ^ 53 \<Longrightarrow> is_double (of_int m)"
  using is_double_grid [of m 0] by simp

section \<open>Moving a double\<close>

lemma dadd_le_self: "is_double x \<Longrightarrow> d \<le> 0 \<Longrightarrow> dadd x d \<le> x"
  using fl_mono [of "x + d" x] by (simp add: dadd_def is_double_def)

lemma self_le_dadd: "is_double x \<Longrightarrow> 0 \<le> d \<Longrightarrow> x \<le> dadd x d"
  using fl_mono [of x "x + d"] by (simp add: dadd_def is_double_def)

lemma dadd_error: "\<bar>dadd x y - (x + y)\<bar> \<le> \<bar>x + y\<bar> / 2 ^ 53"
  unfolding dadd_def by (rule fl_error)

end
