(* ===== verification/SemBuffer.thy ===== *)
theory SemBuffer
  imports SysPrelude
begin

text \<open>
  POSIX semaphores and systems of processes that share them.  A process is described by
  its own step function: given its local state, the semaphores and the shared memory it
  returns the events it emits and the new values, or \<open>None\<close> while it is blocked (or has
  ended).  The scheduler picks any process; a signal may end any process at any point.

  Two interfaces are stated as locales: \<open>ledger\<close>, a quantity that every step moves
  between the processes and the shared state without creating or losing any, and
  \<open>sem_buffer\<close>, the protocol of the bounded-buffer programs (a binary semaphore round the
  shared memory, two counting semaphores for free and used slots).  The programs of lab5
  interpret both.
\<close>

section \<open>Semaphores\<close>

datatype semid = Mutex | Empty | Full

type_synonym sems = "semid \<Rightarrow> nat"

text \<open>\<open>sem_wait\<close> blocks on zero, \<open>sem_post\<close> adds one, \<open>sem_getvalue\<close> reads.\<close>

definition sem_wait :: "semid \<Rightarrow> sems \<Rightarrow> sems option" where
  "sem_wait k v = (if v k = 0 then None else Some (v(k := v k - 1)))"

definition sem_post :: "semid \<Rightarrow> sems \<Rightarrow> sems" where
  "sem_post k v = v(k := v k + 1)"

definition sem_getvalue :: "semid \<Rightarrow> sems \<Rightarrow> nat" where
  "sem_getvalue k v = v k"

text \<open>The values with which the programs create the three semaphores.\<close>

definition sems_init :: "nat \<Rightarrow> sems" where
  "sems_init k = (\<lambda>s. case s of Mutex \<Rightarrow> 1 | Empty \<Rightarrow> k | Full \<Rightarrow> 0)"

lemma sem_wait_None [simp]: "sem_wait k v = None \<longleftrightarrow> v k = 0"
  by (simp add: sem_wait_def)

lemma sem_wait_SomeD: "sem_wait k v = Some v' \<Longrightarrow> 0 < v k \<and> v' = v(k := v k - 1)"
  by (auto simp: sem_wait_def split: if_splits)

section \<open>Systems of processes\<close>

record ('p, 'm, 'e) bsys =
  procs :: "'p list"
  sem :: sems
  mem :: 'm
  hist :: "'e list"
  killed :: "nat set"

type_synonym ('p, 'm, 'e) pstep = "'p \<Rightarrow> sems \<Rightarrow> 'm \<Rightarrow> ('e list \<times> 'p \<times> sems \<times> 'm) option"

datatype action = Run nat | Kill nat

text \<open>
  \<open>Run i\<close>: process \<open>i\<close> executes its next statement.  \<open>Kill i\<close>: a signal ends process \<open>i\<close>
  between two statements; neither the kernel nor the programs' handlers post a semaphore.
\<close>

fun act :: "('p, 'm, 'e) pstep \<Rightarrow> action \<Rightarrow> ('p, 'm, 'e) bsys \<Rightarrow> ('p, 'm, 'e) bsys option" where
  "act f (Run i) s =
     (if i < length (procs s) \<and> i \<notin> killed s then
        (case f (procs s ! i) (sem s) (mem s) of
           None \<Rightarrow> None
         | Some (es, p, v, m) \<Rightarrow>
             Some (s\<lparr>procs := (procs s)[i := p], sem := v, mem := m, hist := hist s @ es\<rparr>))
      else None)"
| "act f (Kill i) s = (if i < length (procs s) then Some (s\<lparr>killed := insert i (killed s)\<rparr>) else None)"

inductive sreach :: "('p, 'm, 'e) pstep \<Rightarrow> ('p, 'm, 'e) bsys \<Rightarrow> ('p, 'm, 'e) bsys \<Rightarrow> bool"
  for f :: "('p, 'm, 'e) pstep" and s0 :: "('p, 'm, 'e) bsys" where
  start: "sreach f s0 s0"
| step: "sreach f s0 s \<Longrightarrow> act f a s = Some t \<Longrightarrow> sreach f s0 t"

text \<open>A schedule executed from a state, for concrete runs.\<close>

fun run_sched :: "('p, 'm, 'e) pstep \<Rightarrow> action list \<Rightarrow> ('p, 'm, 'e) bsys \<Rightarrow> ('p, 'm, 'e) bsys option" where
  "run_sched f [] s = Some s"
| "run_sched f (a # as) s = (case act f a s of None \<Rightarrow> None | Some t \<Rightarrow> run_sched f as t)"

lemma run_sched_append:
  "run_sched f (as @ bs) s = (case run_sched f as s of None \<Rightarrow> None | Some t \<Rightarrow> run_sched f bs t)"
  by (induction as arbitrary: s) (auto split: option.splits)

lemma run_sched_sreach_from: "sreach f s0 s \<Longrightarrow> run_sched f as s = Some t \<Longrightarrow> sreach f s0 t"
  by (induction as arbitrary: s) (auto split: option.splits intro: sreach.step)

lemma run_sched_sreach: "run_sched f as s0 = Some t \<Longrightarrow> sreach f s0 t"
  by (rule run_sched_sreach_from [OF sreach.start])

text \<open>A concrete schedule as a reachable state with a property that has been evaluated.\<close>

lemma run_sched_reaches:
  assumes "case run_sched f as s0 of None \<Rightarrow> False | Some s \<Rightarrow> P s"
  obtains s where "run_sched f as s0 = Some s" "sreach f s0 s" "P s"
  using assms by (auto split: option.splits intro: run_sched_sreach)

lemma sreach_trans: "sreach f s1 t \<Longrightarrow> sreach f s0 s1 \<Longrightarrow> sreach f s0 t"
  by (induction rule: sreach.induct) (auto intro: sreach.step)

lemma sreach_run_sched:
  assumes "sreach f s0 t"
  shows "\<exists>as. run_sched f as s0 = Some t"
  using assms
proof (induction rule: sreach.induct)
  case start
  have "run_sched f [] s0 = Some s0" by simp
  then show ?case ..
next
  case (step s a t)
  then obtain as where "run_sched f as s0 = Some s" by blast
  with step have "run_sched f (as @ [a]) s0 = Some t" by (simp add: run_sched_append)
  then show ?case ..
qed

text \<open>What one action does, as one rule for case analysis.\<close>

lemma act_cases:
  assumes "act f a s = Some t"
  obtains (Run) i es p v m where "a = Run i" "i < length (procs s)" "i \<notin> killed s"
      "f (procs s ! i) (sem s) (mem s) = Some (es, p, v, m)"
      "t = s\<lparr>procs := (procs s)[i := p], sem := v, mem := m, hist := hist s @ es\<rparr>"
    | (Kill) i where "a = Kill i" "i < length (procs s)" "t = s\<lparr>killed := insert i (killed s)\<rparr>"
  using assms by (cases a) (auto split: if_splits option.splits)

lemma sreach_length: "sreach f s0 s \<Longrightarrow> length (procs s) = length (procs s0)"
  by (induction rule: sreach.induct) (auto elim!: act_cases)

lemma sreach_killed_mono: "sreach f s0 s \<Longrightarrow> killed s0 \<subseteq> killed s"
  by (induction rule: sreach.induct) (auto elim!: act_cases)

text \<open>A killed process keeps the local state it had.\<close>

lemma sreach_killed_frozen:
  "sreach f s0 s \<Longrightarrow> i \<in> killed s0 \<Longrightarrow> procs s ! i = procs s0 ! i"
proof (induction rule: sreach.induct)
  case start
  show ?case by simp
next
  case (step s a t)
  from sreach_killed_mono [OF step.hyps(1)] step.prems have "i \<in> killed s" by blast
  with step show ?case by (auto elim!: act_cases simp: nth_list_update)
qed

section \<open>The living and the dead\<close>

text \<open>The processes that no signal has ended, and those that one has, as they were then.\<close>

definition alive :: "('p, 'm, 'e) bsys \<Rightarrow> 'p list" where
  "alive s = map snd (filter (\<lambda>(i, p). i \<notin> killed s) (enumerate 0 (procs s)))"

definition dead :: "('p, 'm, 'e) bsys \<Rightarrow> 'p list" where
  "dead s = map snd (filter (\<lambda>(i, p). i \<in> killed s) (enumerate 0 (procs s)))"

text \<open>No process can move: the living ones are blocked or have run to their end.\<close>

definition stuck :: "('p, 'm, 'e) pstep \<Rightarrow> ('p, 'm, 'e) bsys \<Rightarrow> bool" where
  "stuck f s \<longleftrightarrow> (\<forall>p \<in> set (alive s). f p (sem s) (mem s) = None)"

lemma stuck_no_run: "stuck f s \<longleftrightarrow> (\<forall>i. act f (Run i) s = None)"
proof -
  have "stuck f s \<longleftrightarrow> (\<forall>i < length (procs s). i \<notin> killed s \<longrightarrow> f (procs s ! i) (sem s) (mem s) = None)"
    by (auto simp: stuck_def alive_def in_set_enumerate_eq image_iff)
  also have "\<dots> \<longleftrightarrow> (\<forall>i. act f (Run i) s = None)"
    by (intro iff_allI) (simp split: option.split)
  finally show ?thesis .
qed

lemma mset_procs: "mset (procs s) = mset (alive s) + mset (dead s)"
proof -
  let ?e = "enumerate 0 (procs s)" and ?D = "\<lambda>(i, p). i \<in> killed s" and ?L = "\<lambda>(i, p). i \<notin> killed s"
  have "mset (procs s) = image_mset snd (mset ?e)" by (simp flip: mset_map)
  also have "mset ?e = filter_mset ?L (mset ?e) + filter_mset ?D (mset ?e)"
    using multiset_partition [of "mset ?e" ?L] by (simp add: case_prod_unfold)
  finally show ?thesis by (simp only: alive_def dead_def mset_map mset_filter image_mset_union)
qed

lemma set_procs: "set (procs s) = set (alive s) \<union> set (dead s)"
  using arg_cong [OF mset_procs, of set_mset] by simp

lemma sum_procs:
  fixes f :: "'p \<Rightarrow> 'a::comm_monoid_add"
  shows "sum_list (map f (procs s)) = sum_list (map f (alive s)) + sum_list (map f (dead s))"
proof -
  have "sum_list (map f (procs s)) = sum_mset (image_mset f (mset (procs s)))" by (simp flip: sum_mset_sum_list)
  also have "\<dots> = sum_list (map f (alive s)) + sum_list (map f (dead s))"
    by (simp add: mset_procs sum_mset_sum_list flip: mset_map)
  finally show ?thesis .
qed

section \<open>Ledgers: quantities that only move\<close>

text \<open>
  \<open>lhs\<close> and \<open>rhs\<close> read a quantity off the semaphores and the history, \<open>share p\<close> is what
  process \<open>p\<close> holds of it.  When every single step balances, the whole system does.
\<close>

locale ledger =
  fixes pstep :: "('p, 'm, 'e) pstep"
    and lhs :: "sems \<Rightarrow> 'e list \<Rightarrow> 'a::cancel_comm_monoid_add"
    and share :: "'p \<Rightarrow> 'a"
    and rhs :: "sems \<Rightarrow> 'e list \<Rightarrow> 'a"
  assumes balance:
    "pstep p v m = Some (es, p', v', m') \<Longrightarrow>
       lhs v' (h @ es) + share p' + rhs v h = lhs v h + share p + rhs v' (h @ es)"
begin

lemma ledger_act:
  assumes "act pstep a s = Some t"
    and "lhs (sem s) (hist s) + sum_list (map share (procs s)) = rhs (sem s) (hist s)"
  shows "lhs (sem t) (hist t) + sum_list (map share (procs t)) = rhs (sem t) (hist t)"
  using assms(1)
proof (cases rule: act_cases)
  case (Run i es p v m)
  let ?S = "sum_list (map share (procs s))"
  let ?S' = "sum_list (map share ((procs s)[i := p]))"
  let ?l = "lhs (sem s) (hist s)" and ?l' = "lhs v (hist s @ es)"
  let ?r = "rhs (sem s) (hist s)" and ?r' = "rhs v (hist s @ es)"
  let ?w = "share (procs s ! i)" and ?w' = "share p"
  have upd: "?S' + ?w = ?S + ?w'"
    by (rule sum_list_map_update [OF Run(2)])
  have bal: "?l' + ?w' + ?r = ?l + ?w + ?r'"
    by (rule balance [OF Run(4)])
  have "(?l' + ?S') + (?w + ?r) = (?l' + ?r) + (?S' + ?w)" by (simp only: ac_simps)
  also have "\<dots> = (?l' + ?w' + ?r) + ?S" unfolding upd by (simp only: ac_simps)
  also have "\<dots> = (?l + ?S) + ?w + ?r'"
    unfolding bal by (simp only: ac_simps)
  also have "\<dots> = ?r' + (?w + ?r)"
    unfolding assms(2) by (simp only: ac_simps)
  finally have "?l' + ?S' = ?r'" by simp
  with Run show ?thesis by simp
next
  case (Kill i)
  with assms(2) show ?thesis by simp
qed

lemma ledger_reach:
  "sreach pstep s0 s \<Longrightarrow>
   lhs (sem s0) (hist s0) + sum_list (map share (procs s0)) = rhs (sem s0) (hist s0) \<Longrightarrow>
   lhs (sem s) (hist s) + sum_list (map share (procs s)) = rhs (sem s) (hist s)"
  by (induction rule: sreach.induct) (auto intro: ledger_act)

end

section \<open>Invariants of one process\<close>

locale local_invariant =
  fixes pstep :: "('p, 'm, 'e) pstep" and J :: "'p \<Rightarrow> bool"
  assumes keeps: "pstep p v m = Some (es, p', v', m') \<Longrightarrow> J p \<Longrightarrow> J p'"
begin

lemma local_reach:
  "sreach pstep s0 s \<Longrightarrow> \<forall>p \<in> set (procs s0). J p \<Longrightarrow> \<forall>p \<in> set (procs s). J p"
proof (induction rule: sreach.induct)
  case start
  then show ?case .
next
  case (step s a t)
  have IH: "\<forall>p \<in> set (procs s). J p" using step.IH [OF step.prems] .
  from step.hyps(2) show ?case
  proof (cases rule: act_cases)
    case (Run i es p v m)
    then have "J p" using keeps [OF Run(4)] IH by simp
    with IH Run show ?thesis by (auto dest!: set_update_subset_insert [THEN subsetD])
  next
    case (Kill i)
    with IH show ?thesis by simp
  qed
qed

end

section \<open>The bounded-buffer protocol\<close>

text \<open>
  \<open>cs p\<close>: process \<open>p\<close> is between \<open>sem_wait(mutex)\<close> and \<open>sem_post(mutex)\<close>.
  \<open>tok p\<close>: it has taken a unit from one counting semaphore and not yet returned it to the other.
  \<open>hold p\<close>: that unit stands for an item that is still (or already) in the buffer.
  \<open>RI\<close> is the invariant of the shared memory and the history while nobody is in the
  critical section, \<open>LI p\<close> the one while \<open>p\<close> is, \<open>PI p\<close> what a process knows of its own
  state outside.
\<close>

locale sem_buffer =
  mx: ledger pstep "\<lambda>v _. v Mutex" "\<lambda>p. one_if (cs p)" "\<lambda>_ _. 1 :: nat" +
  tk: ledger pstep "\<lambda>v _. v Empty + v Full" tok "\<lambda>_ _. cap" +
  it: ledger pstep "\<lambda>v h. v Full + taken h" hold "\<lambda>_ h. inserted h"
  for pstep :: "('p, 'm, 'e) pstep" and cs :: "'p \<Rightarrow> bool" and tok hold :: "'p \<Rightarrow> nat"
    and taken inserted :: "'e list \<Rightarrow> nat" and cap :: nat +
  fixes RI :: "'m \<Rightarrow> 'e list \<Rightarrow> bool"
    and LI :: "'p \<Rightarrow> 'm \<Rightarrow> 'e list \<Rightarrow> bool"
    and PI :: "'p \<Rightarrow> bool"
  assumes hold_le_tok: "hold p \<le> tok p"
    and outside: "pstep p v m = Some (es, p', v', m') \<Longrightarrow> \<not> cs p \<Longrightarrow> PI p \<Longrightarrow> \<not> cs p' \<Longrightarrow>
        PI p' \<and> m' = m \<and> (RI m h \<longrightarrow> RI m (h @ es)) \<and> (\<forall>q. LI q m h \<longrightarrow> LI q m (h @ es))"
    and enter: "pstep p v m = Some (es, p', v', m') \<Longrightarrow> \<not> cs p \<Longrightarrow> PI p \<Longrightarrow> cs p' \<Longrightarrow>
        RI m h \<Longrightarrow> LI p' m' (h @ es)"
    and inside: "pstep p v m = Some (es, p', v', m') \<Longrightarrow> cs p \<Longrightarrow> LI p m h \<Longrightarrow>
        v Empty + inserted h + (tok p - hold p) \<le> cap + taken h \<Longrightarrow>
        v Full + hold p + taken h \<le> inserted h \<Longrightarrow>
        (if cs p' then LI p' m' (h @ es) else RI m' (h @ es) \<and> PI p')"
begin

definition started :: "('p, 'm, 'e) bsys \<Rightarrow> bool" where
  "started s \<longleftrightarrow> sem s = sems_init cap \<and> RI (mem s) (hist s) \<and> taken (hist s) = inserted (hist s) \<and>
     (\<forall>p \<in> set (procs s). \<not> cs p \<and> tok p = 0 \<and> PI p)"

definition counts_ok :: "('p, 'm, 'e) bsys \<Rightarrow> bool" where
  "counts_ok s \<longleftrightarrow>
     sem s Mutex + sum_list (map (\<lambda>p. one_if (cs p)) (procs s)) = 1 \<and>
     sem s Empty + sem s Full + sum_list (map tok (procs s)) = cap \<and>
     sem s Full + taken (hist s) + sum_list (map hold (procs s)) = inserted (hist s)"

definition data_ok :: "('p, 'm, 'e) bsys \<Rightarrow> bool" where
  "data_ok s \<longleftrightarrow>
     (\<forall>p \<in> set (procs s). if cs p then LI p (mem s) (hist s) else PI p) \<and>
     ((\<forall>p \<in> set (procs s). \<not> cs p) \<longrightarrow> RI (mem s) (hist s))"

lemma tok_0_hold_0: "tok p = 0 \<Longrightarrow> hold p = 0"
  using hold_le_tok [of p] by simp

lemma started_counts: "started s \<Longrightarrow> counts_ok s"
  by (auto simp: started_def counts_ok_def sems_init_def sum_list_map_zero tok_0_hold_0)

lemma started_data: "started s \<Longrightarrow> data_ok s"
  by (simp add: started_def data_ok_def)

lemma counts_reach:
  assumes r: "sreach pstep s0 s" and "started s0"
  shows "counts_ok s"
proof -
  have c: "sem s0 Mutex + sum_list (map (\<lambda>p. one_if (cs p)) (procs s0)) = 1"
      "sem s0 Empty + sem s0 Full + sum_list (map tok (procs s0)) = cap"
      "sem s0 Full + taken (hist s0) + sum_list (map hold (procs s0)) = inserted (hist s0)"
    using started_counts [OF assms(2)] unfolding counts_ok_def by blast+
  note mx.ledger_reach [OF r c(1)] tk.ledger_reach [OF r c(2)] it.ledger_reach [OF r c(3)]
  then show ?thesis
    unfolding counts_ok_def by blast
qed

text \<open>At most one process is in the critical section, and then the mutex is zero.\<close>

lemma cs_unique:
  assumes "counts_ok s" "i < length (procs s)" "j < length (procs s)"
    and "cs (procs s ! i)" "cs (procs s ! j)"
  shows "i = j"
proof (rule ccontr)
  assume "i \<noteq> j"
  with assms have "one_if (cs (procs s ! i)) + one_if (cs (procs s ! j))
      \<le> sum_list (map (\<lambda>p. one_if (cs p)) (procs s))"
    by (intro two_nth_le_sum_list_map [where f = "\<lambda>p. one_if (cs p)"])
  with assms show False by (simp add: counts_ok_def)
qed

lemma cs_mutex_0:
  assumes "counts_ok s" "i < length (procs s)" "cs (procs s ! i)"
  shows "sem s Mutex = 0"
  using assms nth_le_sum_list_map [of i "procs s" "\<lambda>p. one_if (cs p)"]
  by (simp add: counts_ok_def)

lemma mutex_0_cs:
  assumes "counts_ok s" "sem s Mutex = 0"
  shows "\<exists>i < length (procs s). cs (procs s ! i)"
proof (rule ccontr)
  assume "\<not> ?thesis"
  then have "sum_list (map (\<lambda>p. one_if (cs p)) (procs s)) = 0"
    by (intro sum_list_map_zero) (auto simp: in_set_conv_nth)
  with assms show False by (simp add: counts_ok_def)
qed

text \<open>The number of items in the buffer, seen by a process of the system.\<close>

lemma items_bounds:
  assumes c: "counts_ok s" and i: "i < length (procs s)"
  shows "sem s Empty + inserted (hist s) + (tok (procs s ! i) - hold (procs s ! i)) \<le> cap + taken (hist s)"
    and "sem s Full + hold (procs s ! i) + taken (hist s) \<le> inserted (hist s)"
proof -
  have "sum_list (map hold (procs s)) + sum_list (map (\<lambda>p. tok p - hold p) (procs s))
      = sum_list (map tok (procs s))"
    by (simp add: sum_list_addf [symmetric] hold_le_tok)
  moreover have "tok (procs s ! i) - hold (procs s ! i) \<le> sum_list (map (\<lambda>p. tok p - hold p) (procs s))"
    using nth_le_sum_list_map [OF i, of "\<lambda>p. tok p - hold p"] by simp
  ultimately show "sem s Empty + inserted (hist s) + (tok (procs s ! i) - hold (procs s ! i))
      \<le> cap + taken (hist s)"
    using c by (simp add: counts_ok_def)
  show "sem s Full + hold (procs s ! i) + taken (hist s) \<le> inserted (hist s)"
    using c nth_le_sum_list_map [OF i, of hold] by (simp add: counts_ok_def)
qed

lemma items_le_cap: "counts_ok s \<Longrightarrow> taken (hist s) \<le> inserted (hist s) \<and> inserted (hist s) \<le> cap + taken (hist s)"
proof -
  assume c: "counts_ok s"
  have "sum_list (map hold (procs s)) \<le> sum_list (map tok (procs s))"
    by (intro sum_list_mono hold_le_tok)
  with c show ?thesis by (simp add: counts_ok_def)
qed

lemma data_act:
  assumes a: "act pstep a s = Some t" and c: "counts_ok s" and ct: "counts_ok t" and d: "data_ok s"
  shows "data_ok t"
  using a
proof (cases rule: act_cases)
  case (Kill i)
  with d show ?thesis by (simp add: data_ok_def)
next
  case (Run i es p' v' m')
  let ?p = "procs s ! i"
  have len: "length (procs t) = length (procs s)" and p': "procs t ! i = p'"
    and others: "\<And>j. j \<noteq> i \<Longrightarrow> procs t ! j = procs s ! j"
    using Run by auto
  have d': "if cs (procs s ! j) then LI (procs s ! j) (mem s) (hist s) else PI (procs s ! j)"
    if "j < length (procs s)" for j
    using d that unfolding data_ok_def by (meson nth_mem)
  have none_else: "\<not> cs (procs s ! j)" if "cs ?p \<or> cs p'" "j < length (procs s)" "j \<noteq> i" for j
    using that cs_unique [OF c that(2) Run(2)] cs_unique [OF ct, of j i] len p' others Run(2) by auto
  have goal: "data_ok t"
    if "\<And>j. j < length (procs s) \<Longrightarrow>
          if cs (procs t ! j) then LI (procs t ! j) m' (hist s @ es) else PI (procs t ! j)"
      and "(\<forall>j < length (procs s). \<not> cs (procs t ! j)) \<Longrightarrow> RI m' (hist s @ es)"
  proof -
    have mh: "mem t = m'" "hist t = hist s @ es" using Run by auto
    have "\<forall>p \<in> set (procs t). if cs p then LI p m' (hist s @ es) else PI p"
      using that(1) len by (metis in_set_conv_nth)
    moreover have "(\<forall>p \<in> set (procs t). \<not> cs p) \<longrightarrow> RI m' (hist s @ es)"
      using that(2) len by (metis nth_mem)
    ultimately show ?thesis by (simp add: data_ok_def mh)
  qed
  show ?thesis
  proof (cases "cs ?p")
    case True
    note inp = inside [OF Run(4) True _ items_bounds [OF c Run(2)]]
    have LI: "LI ?p (mem s) (hist s)" using d' [OF Run(2)] True by simp
    show ?thesis
    proof (rule goal)
      fix j assume j: "j < length (procs s)"
      show "if cs (procs t ! j) then LI (procs t ! j) m' (hist s @ es) else PI (procs t ! j)"
        using inp [OF LI] p' d' [OF j] none_else [OF _ j] others [of j] True by (cases "j = i") auto
    next
      assume "\<forall>j < length (procs s). \<not> cs (procs t ! j)"
      with Run(2) p' inp [OF LI] show "RI m' (hist s @ es)" by auto
    qed
  next
    case False
    have PI: "PI ?p" using d' [OF Run(2)] False by simp
    show ?thesis
    proof (cases "cs p'")
      case True
      have "RI (mem s) (hist s)"
        using d none_else True False unfolding data_ok_def by (metis in_set_conv_nth)
      from enter [OF Run(4) False PI True this] have LI: "LI p' m' (hist s @ es)" .
      show ?thesis
      proof (rule goal)
        fix j assume j: "j < length (procs s)"
        show "if cs (procs t ! j) then LI (procs t ! j) m' (hist s @ es) else PI (procs t ! j)"
          using LI p' d' [OF j] none_else [OF _ j] others [of j] True by (cases "j = i") auto
      next
        assume "\<forall>j < length (procs s). \<not> cs (procs t ! j)"
        with Run(2) p' True show "RI m' (hist s @ es)" by auto
      qed
    next
      case out: False
      note o = outside [OF Run(4) False PI out, of "hist s"]
      show ?thesis
      proof (rule goal)
        fix j assume j: "j < length (procs s)"
        show "if cs (procs t ! j) then LI (procs t ! j) m' (hist s @ es) else PI (procs t ! j)"
          using o p' d' [OF j] others [of j] out by (cases "j = i") (auto split: if_splits)
      next
        assume none: "\<forall>j < length (procs s). \<not> cs (procs t ! j)"
        have "\<not> cs (procs s ! j)" if "j < length (procs s)" for j
          using none that False others [of j] by (cases "j = i") auto
        then have "RI (mem s) (hist s)"
          using d unfolding data_ok_def by (metis in_set_conv_nth)
        with o show "RI m' (hist s @ es)" by simp
      qed
    qed
  qed
qed

lemma data_reach: "sreach pstep s0 s \<Longrightarrow> started s0 \<Longrightarrow> data_ok s"
proof (induction rule: sreach.induct)
  case start
  then show ?case by (rule started_data)
next
  case (step s a t)
  have "counts_ok s" and "counts_ok t"
    using step.hyps step.prems counts_reach sreach.step by blast+
  with step show ?case by (auto intro: data_act)
qed

text \<open>
  A process that was ended inside the critical section keeps the mutex for ever: no
  other process enters, whatever the schedule.
\<close>

lemma killed_in_cs_blocks:
  assumes "sreach pstep s0 s" "started s0" "i \<in> killed s" "i < length (procs s)" "cs (procs s ! i)"
    and "sreach pstep s t" "j < length (procs t)" "j \<noteq> i"
  shows "sem t Mutex = 0" and "\<not> cs (procs t ! j)"
proof -
  have "sreach pstep s0 t" by (rule sreach_trans [OF assms(6,1)])
  then have c: "counts_ok t" using assms(2) by (rule counts_reach)
  have i: "i < length (procs t)" and csi: "cs (procs t ! i)"
    using assms sreach_length [OF assms(6)] sreach_killed_frozen [OF assms(6)] by auto
  show "sem t Mutex = 0" by (rule cs_mutex_0 [OF c i csi])
  show "\<not> cs (procs t ! j)" using cs_unique [OF c assms(7) i _ csi] assms(8) by blast
qed

end

section \<open>Progress\<close>

text \<open>
  \<open>waits p\<close>: the semaphore process \<open>p\<close> is about to wait for; \<open>ended p\<close>: it has run to its
  end.  A process that waits for a counting semaphore holds nothing, so the only states
  in which nobody can move are a full buffer with nobody left to take from it and an
  empty one with nobody left to fill it.
\<close>

locale sem_buffer_progress = sem_buffer +
  fixes waits :: "'a \<Rightarrow> semid option" and ended :: "'a \<Rightarrow> bool"
  assumes blocked: "pstep p v m = None \<Longrightarrow> ended p \<or> (\<exists>k. waits p = Some k \<and> v k = 0)"
    and waits_outside: "waits p = Some k \<Longrightarrow> \<not> cs p \<and> (k \<noteq> Mutex \<longrightarrow> tok p = 0)"
    and ended_outside: "ended p \<Longrightarrow> \<not> cs p \<and> tok p = 0"
begin

text \<open>
  A system at rest: the dead hold nothing, and each of the living is blocked, has ended, or
  holds nothing either.  Then nobody holds anything, and the blocked ones wait for a counting
  semaphore that is zero.
\<close>

lemma at_rest:
  assumes "sreach pstep s0 s" "started s0"
    and d: "\<forall>p \<in> set (dead s). \<not> cs p \<and> tok p = 0"
    and a: "\<forall>p \<in> set (alive s). pstep p (sem s) (mem s) = None \<or> \<not> cs p \<and> tok p = 0"
  shows "sem s Mutex = 1" and "sem s Empty + sem s Full = cap"
    and "sem s Full + taken (hist s) = inserted (hist s)"
    and "p \<in> set (procs s) \<Longrightarrow> pstep p (sem s) (mem s) = None \<Longrightarrow>
           ended p \<or> waits p = Some Empty \<and> sem s Empty = 0 \<or> waits p = Some Full \<and> sem s Full = 0"
proof -
  have c: "counts_ok s" using assms(1,2) by (rule counts_reach)
  have cs: "\<not> cs p" if "p \<in> set (procs s)" for p
    using that d a blocked [of p] waits_outside [of p] ended_outside [of p] unfolding set_procs by blast
  then have "sum_list (map (\<lambda>p. one_if (cs p)) (procs s)) = 0"
    by (intro sum_list_map_zero) auto
  with c show m1: "sem s Mutex = 1" by (simp add: counts_ok_def)
  show b: "ended p \<or> waits p = Some Empty \<and> sem s Empty = 0 \<or> waits p = Some Full \<and> sem s Full = 0"
    if "p \<in> set (procs s)" "pstep p (sem s) (mem s) = None" for p
    using blocked [OF that(2)] m1 by (metis semid.exhaust zero_neq_one)
  have tok: "tok p = 0" if "p \<in> set (procs s)" for p
  proof -
    have "tok p = 0" if none: "pstep p (sem s) (mem s) = None"
      using b [OF \<open>p \<in> set (procs s)\<close> none] waits_outside [of p Empty] waits_outside [of p Full] ended_outside [of p]
      by auto
    with that d a show ?thesis unfolding set_procs by (metis UnE)
  qed
  then have "sum_list (map tok (procs s)) = 0" "sum_list (map hold (procs s)) = 0"
    by (auto intro!: sum_list_map_zero tok_0_hold_0)
  with c show "sem s Empty + sem s Full = cap" "sem s Full + taken (hist s) = inserted (hist s)"
    by (simp_all add: counts_ok_def)
qed

end

end
