(* ===== verification/Lab1.thy ===== *)
theory Lab1
  imports CNum "HOL-Library.Multiset"
begin

text \<open>
  \<open>lab1/zad1\<close>: \<open>N\<close> children print three lines each and the parent prints a global variable
  that the children increment, once with \<open>fork\<close> (\<open>main.c\<close>) and once with \<open>vfork\<close>
  (\<open>main_vfork.c\<close>).  Standard output is a terminal, where every line is written at once, or
  something else, where lines stay in the buffer of the process until it returns from
  \<open>main\<close>; \<open>_exit\<close> writes nothing.  \<open>fork\<close> copies the memory, buffer included; a child of
  \<open>vfork\<close> runs in the memory of its parent while the parent sleeps.
\<close>

section \<open>Arguments\<close>

datatype line = Usage_Line | Potomek nat | Rodzic int

text \<open>
  \<open>None\<close>: wrong number of arguments.  Otherwise the number, and whether the text was a
  number: if not, the usage line is printed and the program goes on with what was read.
\<close>

definition count_arg :: "string \<Rightarrow> int \<times> bool" where
  "count_arg a = (let (n, rest) = c_strtol a in (n, \<not> not_a_number a rest))"

definition parse_n :: "string list \<Rightarrow> (nat \<times> bool) option" where
  "parse_n argv = (if length argv \<noteq> 2 then None
     else (let (n, valid) = count_arg (argv ! 1) in Some (nat n, valid)))"

definition LINES :: nat where "LINES = 3"

section \<open>\<open>printf\<close> and the end of a process\<close>

text \<open>What is in the buffer and what has been written.\<close>

definition put :: "bool \<Rightarrow> line \<Rightarrow> line list \<times> line list \<Rightarrow> line list \<times> line list" where
  "put tty l = (\<lambda>(buf, out). if tty then (buf, out @ [l]) else (buf @ [l], out))"

section \<open>The program with \<open>fork\<close>\<close>

datatype kid_pc = K_Start | K_Print nat | K_Dead | K_Reaped

record kid =
  kid_pc :: kid_pc
  kid_glob :: int
  kid_buf :: "line list"

datatype fk_pc = F_Fork | F_Wait | F_Print | F_Done

record fk_state =
  fk_pc :: fk_pc
  fk_i :: nat
  fk_glob :: int
  fk_kids :: "kid list"
  fk_buf :: "line list"
  fk_out :: "line list"

datatype fk_act = F_Parent bool | F_Reap nat | F_Kid nat

definition fk_parent :: "bool \<Rightarrow> nat \<Rightarrow> bool \<Rightarrow> fk_state \<Rightarrow> fk_state option" where
  "fk_parent tty n ok s =
     (case fk_pc s of
        F_Fork \<Rightarrow>
          if fk_i s < n
          then Some (s\<lparr>fk_i := Suc (fk_i s),
                       fk_kids := (if ok then fk_kids s @ [\<lparr>kid_pc = K_Start, kid_glob = fk_glob s, kid_buf = fk_buf s\<rparr>]
                                   else fk_kids s)\<rparr>)
          else Some (s\<lparr>fk_pc := F_Wait, fk_i := 0\<rparr>)
      | F_Wait \<Rightarrow>
          if fk_i s < n
          then (if \<forall>k\<in>set (fk_kids s). kid_pc k = K_Reaped then Some (s\<lparr>fk_i := Suc (fk_i s)\<rparr>) else None)
          else Some (s\<lparr>fk_pc := F_Print\<rparr>)
      | F_Print \<Rightarrow>
          (let (buf, out) = put tty (Rodzic (fk_glob s)) (fk_buf s, fk_out s)
           in Some (s\<lparr>fk_pc := F_Done, fk_buf := [], fk_out := out @ buf\<rparr>))
      | F_Done \<Rightarrow> None)"

text \<open>\<open>wait(NULL)\<close> returns for child \<open>c\<close>, which has exited.\<close>

definition fk_reap :: "nat \<Rightarrow> nat \<Rightarrow> fk_state \<Rightarrow> fk_state option" where
  "fk_reap n c s =
     (if fk_pc s = F_Wait \<and> fk_i s < n \<and> c < length (fk_kids s) \<and> kid_pc (fk_kids s ! c) = K_Dead
      then Some (s\<lparr>fk_i := Suc (fk_i s), fk_kids := (fk_kids s)[c := (fk_kids s ! c)\<lparr>kid_pc := K_Reaped\<rparr>]\<rparr>)
      else None)"

definition fk_kid :: "bool \<Rightarrow> nat \<Rightarrow> fk_state \<Rightarrow> fk_state option" where
  "fk_kid tty c s =
     (if length (fk_kids s) \<le> c then None
      else (let k = fk_kids s ! c in
        case kid_pc k of
          K_Start \<Rightarrow> Some (s\<lparr>fk_kids := (fk_kids s)[c := k\<lparr>kid_pc := K_Print 0, kid_glob := kid_glob k + 1\<rparr>]\<rparr>)
        | K_Print j \<Rightarrow>
            if j < LINES
            then (let (buf, out) = put tty (Potomek c) (kid_buf k, fk_out s)
                  in Some (s\<lparr>fk_out := out, fk_kids := (fk_kids s)[c := k\<lparr>kid_pc := K_Print (Suc j), kid_buf := buf\<rparr>]\<rparr>))
            else Some (s\<lparr>fk_kids := (fk_kids s)[c := k\<lparr>kid_pc := K_Dead, kid_buf := []\<rparr>]\<rparr>)
        | K_Dead \<Rightarrow> None
        | K_Reaped \<Rightarrow> None))"

definition fk_next :: "bool \<Rightarrow> nat \<Rightarrow> fk_act \<Rightarrow> fk_state \<Rightarrow> fk_state option" where
  "fk_next tty n a s = (case a of F_Parent ok \<Rightarrow> fk_parent tty n ok s | F_Reap c \<Rightarrow> fk_reap n c s
     | F_Kid c \<Rightarrow> fk_kid tty c s)"

text \<open>After the arguments: the usage line was printed when the text was not a number.\<close>

definition fk_init :: "bool \<Rightarrow> bool \<Rightarrow> fk_state" where
  "fk_init tty valid =
     (let (buf, out) = (if valid then ([], []) else put tty Usage_Line ([], []))
      in \<lparr>fk_pc = F_Fork, fk_i = 0, fk_glob = 1, fk_kids = [], fk_buf = buf, fk_out = out\<rparr>)"

inductive fk_reach :: "bool \<Rightarrow> nat \<Rightarrow> bool \<Rightarrow> fk_state \<Rightarrow> bool" for tty n valid where
  init: "fk_reach tty n valid (fk_init tty valid)"
| step: "fk_reach tty n valid s \<Longrightarrow> fk_next tty n a s = Some s' \<Longrightarrow> fk_reach tty n valid s'"

section \<open>The program with \<open>vfork\<close>\<close>

text \<open>
  The variable, the buffer and the output belong to the parent and to the child that runs
  in its place.  \<open>oks\<close> says which of the calls of \<open>vfork\<close> succeed.
\<close>

record vf_state =
  vf_glob :: int
  vf_buf :: "line list"
  vf_out :: "line list"

definition vf_printf :: "bool \<Rightarrow> line \<Rightarrow> vf_state \<Rightarrow> vf_state" where
  "vf_printf tty l s = (let (buf, out) = put tty l (vf_buf s, vf_out s) in s\<lparr>vf_buf := buf, vf_out := out\<rparr>)"

definition vf_child :: "bool \<Rightarrow> nat \<Rightarrow> vf_state \<Rightarrow> vf_state" where
  "vf_child tty c s = (vf_printf tty (Potomek c) ^^ LINES) (s\<lparr>vf_glob := vf_glob s + 1\<rparr>)"

primrec vf_loop :: "bool \<Rightarrow> nat \<Rightarrow> bool list \<Rightarrow> vf_state \<Rightarrow> vf_state" where
  "vf_loop tty c [] s = s"
| "vf_loop tty c (ok # oks) s = (if ok then vf_loop tty (Suc c) oks (vf_child tty c s) else vf_loop tty c oks s)"

text \<open>The waits find no child left; the return from \<open>main\<close> writes the buffer.\<close>

definition vf_main :: "bool \<Rightarrow> bool \<Rightarrow> bool list \<Rightarrow> line list" where
  "vf_main tty valid oks =
     (let s = \<lparr>vf_glob = 1, vf_buf = [], vf_out = []\<rparr>;
          s = (if valid then s else vf_printf tty Usage_Line s);
          s = vf_loop tty 0 oks s;
          s = vf_printf tty (Rodzic (vf_glob s)) s
      in vf_out s @ vf_buf s)"

lemma vf_child_printed:
  "vf_buf (vf_child tty c s) = (if tty then vf_buf s else vf_buf s @ replicate LINES (Potomek c))"
  "vf_out (vf_child tty c s) = (if tty then vf_out s @ replicate LINES (Potomek c) else vf_out s)"
  "vf_glob (vf_child tty c s) = vf_glob s + 1"
  by (simp_all add: vf_child_def LINES_def vf_printf_def put_def eval_nat_numeral)

text \<open>The lines of children \<open>c\<close> to \<open>c + n - 1\<close>, one after the other.\<close>

definition blocks :: "nat \<Rightarrow> nat \<Rightarrow> line list" where
  "blocks c n = concat (map (\<lambda>i. replicate LINES (Potomek i)) [c..<c + n])"

lemma blocks_simps: "blocks c 0 = []" "blocks c (Suc n) = replicate LINES (Potomek c) @ blocks (Suc c) n"
proof -
  have "[c..<c + Suc n] = c # [Suc c..<Suc c + n]" by (subst upt_conv_Cons) simp_all
  then show "blocks c 0 = []" "blocks c (Suc n) = replicate LINES (Potomek c) @ blocks (Suc c) n"
    by (simp_all add: blocks_def)
qed

lemma vf_loop_tty:
  "vf_buf (vf_loop True c oks s) = vf_buf s
    \<and> vf_out (vf_loop True c oks s) = vf_out s @ blocks c (length (filter id oks))
    \<and> vf_glob (vf_loop True c oks s) = vf_glob s + int (length (filter id oks))"
  by (induction oks arbitrary: c s) (simp_all add: vf_child_printed blocks_simps)

lemma vf_loop_file:
  "vf_buf (vf_loop False c oks s) = vf_buf s @ blocks c (length (filter id oks))
    \<and> vf_out (vf_loop False c oks s) = vf_out s
    \<and> vf_glob (vf_loop False c oks s) = vf_glob s + int (length (filter id oks))"
  by (induction oks arbitrary: c s) (simp_all add: vf_child_printed blocks_simps)

text \<open>
  With \<open>vfork\<close> the output is the same on a terminal and into a file: the lines of the
  children one child after the other, then the variable, which every child has incremented.
\<close>

theorem vfork_output:
  "vf_main tty valid oks =
     (if valid then [] else [Usage_Line])
     @ blocks 0 (length (filter id oks))
     @ [Rodzic (1 + int (length (filter id oks)))]"
  by (cases tty) (simp_all add: vf_main_def vf_printf_def put_def vf_loop_tty vf_loop_file)

section \<open>What the program with \<open>fork\<close> prints\<close>

text \<open>
  A child's lines on a terminal, the parent's lines, and that the variable of the parent
  stays 1: the children increment their own copies.
\<close>

definition kid_lines :: "kid \<Rightarrow> nat" where
  "kid_lines k = (case kid_pc k of K_Start \<Rightarrow> 0 | K_Print j \<Rightarrow> j | _ \<Rightarrow> LINES)"

definition is_potomek :: "line \<Rightarrow> bool" where
  "is_potomek l \<longleftrightarrow> (case l of Potomek _ \<Rightarrow> True | _ \<Rightarrow> False)"

definition head_lines :: "bool \<Rightarrow> line list" where
  "head_lines valid = (if valid then [] else [Usage_Line])"

definition all_reaped :: "fk_state \<Rightarrow> bool" where
  "all_reaped s \<longleftrightarrow> (\<forall>k\<in>set (fk_kids s). kid_pc k = K_Reaped)"

definition reaped_kids :: "fk_state \<Rightarrow> nat" where
  "reaped_kids s = length (filter (\<lambda>k. kid_pc k = K_Reaped) (fk_kids s))"

definition fk_inv :: "nat \<Rightarrow> fk_state \<Rightarrow> bool" where
  "fk_inv n s \<longleftrightarrow> fk_glob s = 1 \<and> length (fk_kids s) \<le> n
     \<and> (\<forall>k\<in>set (fk_kids s). kid_lines k \<le> LINES)
     \<and> (fk_pc s = F_Fork \<longrightarrow> fk_i s \<le> n \<and> length (fk_kids s) \<le> fk_i s)
     \<and> (fk_pc s = F_Wait \<longrightarrow> min (fk_i s) (length (fk_kids s)) \<le> reaped_kids s)
     \<and> (fk_pc s \<in> {F_Print, F_Done} \<longrightarrow> all_reaped s)"

text \<open>How often a line was written while the parent has not printed its own.\<close>

definition printed :: "kid list \<Rightarrow> line \<Rightarrow> nat" where
  "printed ks l = (case l of Potomek c \<Rightarrow> if c < length ks then kid_lines (ks ! c) else 0 | _ \<Rightarrow> 0)"

definition out_inv :: "bool \<Rightarrow> bool \<Rightarrow> fk_state \<Rightarrow> bool" where
  "out_inv tty valid s \<longleftrightarrow>
     (if tty then fk_buf s = [] \<and> (\<exists>xs. fk_out s = head_lines valid @ xs \<and> (\<forall>l. count_list xs l = printed (fk_kids s) l))
      else fk_buf s = head_lines valid \<and> fk_out s = [])"

definition done_inv :: "bool \<Rightarrow> bool \<Rightarrow> fk_state \<Rightarrow> bool" where
  "done_inv tty valid s \<longleftrightarrow>
     (if tty then (\<exists>xs. fk_out s = head_lines valid @ xs @ [Rodzic 1] \<and> (\<forall>l. count_list xs l = printed (fk_kids s) l))
      else fk_out s = head_lines valid @ [Rodzic 1])"

lemma printed_new [simp]: "printed (ks @ [\<lparr>kid_pc = K_Start, kid_glob = g, kid_buf = b\<rparr>]) = printed ks"
  by (auto simp: printed_def fun_eq_iff kid_lines_def nth_append split: line.splits)

lemma printed_same: "c < length ks \<Longrightarrow> kid_lines k = kid_lines (ks ! c) \<Longrightarrow> printed (ks[c := k]) = printed ks"
  by (auto simp: printed_def fun_eq_iff nth_list_update split: line.splits)

lemma printed_Suc:
  "c < length ks \<Longrightarrow> kid_lines k = Suc (kid_lines (ks ! c)) \<Longrightarrow>
     printed (ks[c := k]) l = printed ks l + (if l = Potomek c then 1 else 0)"
  by (auto simp: printed_def nth_list_update split: line.splits)

lemma reaped_update:
  assumes "c < length ks" "kid_pc (ks ! c) \<noteq> K_Reaped"
  shows "length (filter (\<lambda>k. kid_pc k = K_Reaped) (ks[c := k])) =
    length (filter (\<lambda>k. kid_pc k = K_Reaped) ks) + (if kid_pc k = K_Reaped then 1 else 0)"
  using assms by (induction ks arbitrary: c) (auto simp: nth_Cons split: nat.splits)

lemma fk_parent_inv:
  assumes "fk_inv n s" "fk_parent tty n ok s = Some s'"
  shows "fk_inv n s'"
  using assms(2) unfolding fk_parent_def
proof (cases "fk_pc s")
  case F_Fork
  with assms show ?thesis
    by (auto simp: fk_parent_def fk_inv_def all_reaped_def reaped_kids_def kid_lines_def split: if_splits)
next
  case F_Wait
  show ?thesis
  proof (cases "fk_i s < n")
    case True
    with F_Wait assms have "all_reaped s" "s' = s\<lparr>fk_i := Suc (fk_i s)\<rparr>"
      by (auto simp: fk_parent_def all_reaped_def split: if_splits)
    then show ?thesis using assms(1) F_Wait
      by (simp add: fk_inv_def reaped_kids_def all_reaped_def)
  next
    case False
    with F_Wait assms have "length (fk_kids s) \<le> reaped_kids s" "s' = s\<lparr>fk_pc := F_Print\<rparr>"
      by (auto simp: fk_parent_def fk_inv_def)
    moreover have "all_reaped s"
    proof (rule ccontr)
      assume "\<not> all_reaped s"
      then obtain k where "k \<in> set (fk_kids s)" "kid_pc k \<noteq> K_Reaped" by (auto simp: all_reaped_def)
      then have "reaped_kids s < length (fk_kids s)"
        unfolding reaped_kids_def by (rule length_filter_less)
      with calculation show False by simp
    qed
    ultimately show ?thesis using assms(1) by (simp add: fk_inv_def all_reaped_def)
  qed
next
  case F_Print
  with assms show ?thesis by (auto simp: fk_parent_def fk_inv_def all_reaped_def put_def Let_def split: if_splits)
qed simp

lemma fk_reap_inv:
  assumes "fk_inv n s" "fk_reap n c s = Some s'"
  shows "fk_inv n s'"
proof -
  have r: "fk_pc s = F_Wait" "c < length (fk_kids s)" "kid_pc (fk_kids s ! c) = K_Dead"
    "s' = s\<lparr>fk_i := Suc (fk_i s), fk_kids := (fk_kids s)[c := (fk_kids s ! c)\<lparr>kid_pc := K_Reaped\<rparr>]\<rparr>"
    using assms(2) by (auto simp: fk_reap_def split: if_splits)
  have "reaped_kids s' = Suc (reaped_kids s)"
    using reaped_update [OF r(2), of "(fk_kids s ! c)\<lparr>kid_pc := K_Reaped\<rparr>"] r(3) by (simp add: reaped_kids_def r(4))
  with assms(1) r show ?thesis
    by (auto simp: fk_inv_def kid_lines_def dest!: set_update_subset_insert [THEN subsetD])
qed

lemma fk_kid_cases:
  assumes "fk_kid tty c s = Some s'"
  obtains (start) "c < length (fk_kids s)" "kid_pc (fk_kids s ! c) = K_Start"
      "s' = s\<lparr>fk_kids := (fk_kids s)[c := (fk_kids s ! c)\<lparr>kid_pc := K_Print 0, kid_glob := kid_glob (fk_kids s ! c) + 1\<rparr>]\<rparr>"
    | (print) j where "c < length (fk_kids s)" "kid_pc (fk_kids s ! c) = K_Print j" "j < LINES"
      "s' = s\<lparr>fk_out := snd (put tty (Potomek c) (kid_buf (fk_kids s ! c), fk_out s)),
              fk_kids := (fk_kids s)[c := (fk_kids s ! c)\<lparr>kid_pc := K_Print (Suc j),
                 kid_buf := fst (put tty (Potomek c) (kid_buf (fk_kids s ! c), fk_out s))\<rparr>]\<rparr>"
    | (exit) j where "c < length (fk_kids s)" "kid_pc (fk_kids s ! c) = K_Print j" "LINES \<le> j"
      "s' = s\<lparr>fk_kids := (fk_kids s)[c := (fk_kids s ! c)\<lparr>kid_pc := K_Dead, kid_buf := []\<rparr>]\<rparr>"
  using assms unfolding fk_kid_def Let_def
  by (cases "kid_pc (fk_kids s ! c)") (auto split: if_splits prod.splits)

lemma fk_kid_inv:
  assumes inv: "fk_inv n s" and step: "fk_kid tty c s = Some s'"
  shows "fk_inv n s'"
proof -
  obtain k where k: "c < length (fk_kids s)" "fk_kids s' = (fk_kids s)[c := k]" "kid_lines k \<le> LINES"
    "kid_pc (fk_kids s ! c) \<noteq> K_Reaped" "kid_pc k \<noteq> K_Reaped"
    "fk_glob s' = fk_glob s" "fk_pc s' = fk_pc s" "fk_i s' = fk_i s"
    using step by (cases rule: fk_kid_cases) (auto simp: kid_lines_def)
  have "reaped_kids s' = reaped_kids s" using reaped_update [OF k(1,4), of k] k(5) by (simp add: reaped_kids_def k(2))
  moreover have "\<not> all_reaped s" using k(1,4) by (auto simp: all_reaped_def)
  ultimately show ?thesis using inv k unfolding fk_inv_def k(2,6-8)
    by (auto dest!: set_update_subset_insert [THEN subsetD])
qed

lemma kid_out:
  assumes out: "out_inv tty valid s" and step: "fk_kid tty c s = Some s'" and le: "\<forall>k\<in>set (fk_kids s). kid_lines k \<le> LINES"
  shows "out_inv tty valid s'"
  using step
proof (cases rule: fk_kid_cases)
  case start
  with out show ?thesis by (simp add: out_inv_def printed_same kid_lines_def)
next
  case (print j)
  show ?thesis
  proof (cases tty)
    case True
    with out obtain xs where xs: "fk_buf s = []" "fk_out s = head_lines valid @ xs" "\<And>l. count_list xs l = printed (fk_kids s) l"
      by (auto simp: out_inv_def)
    have "count_list (xs @ [Potomek c]) l = printed (fk_kids s') l" for l
      using print xs(3) [of l] by (simp add: printed_Suc kid_lines_def)
    with print xs(1,2) True show ?thesis
      by (simp add: out_inv_def put_def)
  next
    case False
    with print out show ?thesis by (simp add: out_inv_def put_def)
  qed
next
  case (exit j)
  have "kid_lines (fk_kids s ! c) \<le> LINES" using le exit(1) by auto
  with exit have "j = LINES" by (simp add: kid_lines_def)
  with exit out show ?thesis by (simp add: out_inv_def printed_same kid_lines_def)
qed

lemma fk_reach_inv:
  assumes "fk_reach tty n valid s"
  shows "fk_inv n s \<and> (if fk_pc s = F_Done then done_inv tty valid s else out_inv tty valid s)"
  using assms
proof (induction rule: fk_reach.induct)
  case init
  have "count_list [] l = printed [] l" for l by (simp add: printed_def split: line.splits)
  then show ?case
    by (cases tty; cases valid)
      (simp_all add: fk_init_def fk_inv_def out_inv_def put_def head_lines_def all_reaped_def)
next
  case (step s a s')
  then have inv: "fk_inv n s" by simp
  show ?case
  proof (cases a)
    case (F_Parent ok)
    with step have p: "fk_parent tty n ok s = Some s'" by (simp add: fk_next_def)
    then have nd: "fk_pc s \<noteq> F_Done" by (auto simp: fk_parent_def)
    with step.IH have out: "out_inv tty valid s" by simp
    have "if fk_pc s' = F_Done then done_inv tty valid s' else out_inv tty valid s'"
    proof (cases "fk_pc s = F_Print")
      case True
      have "fk_glob s = 1" using inv by (simp add: fk_inv_def)
      with True p out show ?thesis by (auto simp: fk_parent_def put_def out_inv_def done_inv_def split: if_splits)
    next
      case False
      then have "fk_buf s' = fk_buf s \<and> fk_out s' = fk_out s \<and> printed (fk_kids s') = printed (fk_kids s) \<and> fk_pc s' \<noteq> F_Done"
        using p nd by (cases "fk_pc s") (auto simp: fk_parent_def split: if_splits)
      with out show ?thesis by (simp add: out_inv_def)
    qed
    with fk_parent_inv [OF inv p] show ?thesis by blast
  next
    case (F_Reap c)
    with step have r: "fk_reap n c s = Some s'" by (simp add: fk_next_def)
    then have "fk_pc s = F_Wait" "fk_pc s' = F_Wait" "fk_buf s' = fk_buf s" "fk_out s' = fk_out s"
      "printed (fk_kids s') = printed (fk_kids s)"
      by (auto simp: fk_reap_def printed_same kid_lines_def split: if_splits)
    with step.IH fk_reap_inv [OF inv r] show ?thesis by (simp add: out_inv_def)
  next
    case (F_Kid c)
    with step have k: "fk_kid tty c s = Some s'" by (simp add: fk_next_def)
    then have "kid_pc (fk_kids s ! c) \<noteq> K_Reaped" "c < length (fk_kids s)" "fk_pc s' = fk_pc s"
      by (cases rule: fk_kid_cases; simp)+
    then have "fk_pc s \<noteq> F_Done" using inv by (auto simp: fk_inv_def all_reaped_def)
    with step.IH inv k \<open>fk_pc s' = fk_pc s\<close> show ?thesis
      using fk_kid_inv [OF inv k] kid_out [of tty valid s c s'] by (simp add: fk_inv_def)
  qed
qed

text \<open>What is written when the parent has ended.\<close>

lemma fork_done_output:
  assumes "fk_reach tty n valid s" "fk_pc s = F_Done"
  shows "if tty
    then \<exists>xs. fk_out s = head_lines valid @ xs @ [Rodzic 1]
      \<and> mset xs = (\<Sum>c<length (fk_kids s). replicate_mset LINES (Potomek c))
    else fk_out s = head_lines valid @ [Rodzic 1]"
proof -
  have inv: "all_reaped s" "done_inv tty valid s" using fk_reach_inv [OF assms(1)] assms(2) by (simp_all add: fk_inv_def)
  show ?thesis
  proof (cases tty)
    case True
    with inv(2) obtain xs where xs: "fk_out s = head_lines valid @ xs @ [Rodzic 1]"
      "\<And>l. count_list xs l = printed (fk_kids s) l" by (auto simp: done_inv_def)
    have "mset xs = (\<Sum>c<length (fk_kids s). replicate_mset LINES (Potomek c))"
    proof (rule multiset_eqI)
      fix l
      have "kid_lines (fk_kids s ! c) = LINES" if "c < length (fk_kids s)" for c
        using inv(1) that by (simp add: all_reaped_def kid_lines_def)
      then have "printed (fk_kids s) l = (case l of Potomek c \<Rightarrow> if c < length (fk_kids s) then LINES else 0 | _ \<Rightarrow> 0)"
        by (simp add: printed_def split: line.splits)
      with xs(2) [of l] show "count (mset xs) l = count (\<Sum>c<length (fk_kids s). replicate_mset LINES (Potomek c)) l"
        by (auto simp: count_sum count_mset count_list_eq_length_filter split: line.splits)
    qed
    with xs(1) True show ?thesis by auto
  next
    case False
    with inv(2) show ?thesis by (simp add: done_inv_def)
  qed
qed

section \<open>The program with \<open>fork\<close> ends\<close>

definition kid_left :: "kid \<Rightarrow> nat" where
  "kid_left k = (case kid_pc k of K_Start \<Rightarrow> LINES + 2 | K_Print j \<Rightarrow> LINES - j + 1 | _ \<Rightarrow> 0)"

definition fk_rank :: "nat \<Rightarrow> fk_state \<Rightarrow> nat" where
  "fk_rank n s = sum_list (map kid_left (fk_kids s)) +
     (case fk_pc s of F_Fork \<Rightarrow> (n - fk_i s) * (LINES + 3) + n + 3 | F_Wait \<Rightarrow> n - fk_i s + 2 | F_Print \<Rightarrow> 1 | F_Done \<Rightarrow> 0)"

lemma fk_parent_less:
  assumes "fk_parent tty n ok s = Some t"
  shows "fk_rank n t < fk_rank n s"
proof (cases "fk_pc s = F_Fork \<and> fk_i s < n")
  case True
  then have "n - fk_i s = Suc (n - Suc (fk_i s))" by (simp add: Suc_diff_Suc)
  with True assms show ?thesis
    by (auto simp: fk_parent_def fk_rank_def kid_left_def simp del: diff_Suc_Suc)
next
  case False
  with assms show ?thesis by (auto simp: fk_parent_def fk_rank_def Let_def put_def split: fk_pc.splits if_splits)
qed

lemma kid_left_update:
  assumes "c < length ks" "kid_left k < kid_left (ks ! c)"
  shows "sum_list (map kid_left (ks[c := k])) < sum_list (map kid_left ks)"
  using sum_list_map_update [OF assms(1), of kid_left k] assms(2) by linarith

lemma fk_kid_less:
  assumes "fk_kid tty c s = Some t"
  shows "fk_rank n t < fk_rank n s"
proof -
  have c: "c < length (fk_kids s)" using assms by (auto simp: fk_kid_def split: if_splits)
  obtain k where k: "fk_kids t = (fk_kids s)[c := k]" "kid_left k < kid_left (fk_kids s ! c)"
    "fk_pc t = fk_pc s" "fk_i t = fk_i s"
    using assms c by (auto simp: fk_kid_def kid_left_def Let_def put_def split: kid_pc.splits if_splits)
  from kid_left_update [OF c k(2)] show ?thesis unfolding fk_rank_def k(1,3,4) by simp
qed

lemma fk_reap_less:
  assumes "fk_reap n c s = Some t"
  shows "fk_rank n t < fk_rank n s"
proof -
  define k where "k = (fk_kids s ! c)\<lparr>kid_pc := K_Reaped\<rparr>"
  have h: "fk_pc s = F_Wait" "fk_i s < n" "c < length (fk_kids s)" "kid_pc (fk_kids s ! c) = K_Dead"
    "t = s\<lparr>fk_i := Suc (fk_i s), fk_kids := (fk_kids s)[c := k]\<rparr>"
    using assms by (auto simp: fk_reap_def k_def split: if_splits)
  have "kid_left k = kid_left (fk_kids s ! c)" using h(4) by (simp add: kid_left_def k_def)
  then have "map kid_left ((fk_kids s)[c := k]) = map kid_left (fk_kids s)" by (rule map_update_same [OF h(3)])
  with h show ?thesis by (simp add: fk_rank_def)
qed

lemma fk_stuck:
  assumes none: "\<And>a. fk_next tty n a s = None"
  shows "fk_pc s = F_Done"
proof (rule ccontr)
  assume "fk_pc s \<noteq> F_Done"
  with none [of "F_Parent True"] have w: "fk_pc s = F_Wait" "fk_i s < n" "\<not> (\<forall>k\<in>set (fk_kids s). kid_pc k = K_Reaped)"
    by (auto simp: fk_next_def fk_parent_def Let_def put_def split: fk_pc.splits if_splits)
  then obtain c where c: "c < length (fk_kids s)" "kid_pc (fk_kids s ! c) \<noteq> K_Reaped" by (metis in_set_conv_nth)
  from none [of "F_Kid c"] c have "kid_pc (fk_kids s ! c) = K_Dead"
    by (auto simp: fk_next_def fk_kid_def Let_def put_def split: kid_pc.splits if_splits)
  with none [of "F_Reap c"] w c(1) show False by (simp add: fk_next_def fk_reap_def)
qed

interpretation fk: ending_machine "fk_next tty n" "fk_reach tty n valid" "fk_rank n" "\<lambda>s. fk_pc s = F_Done" for tty n valid
proof unfold_locales
  fix s t a assume "fk_reach tty n valid s" and step: "fk_next tty n a s = Some t"
  then show "fk_reach tty n valid t" by (rule fk_reach.step)
  show "fk_rank n t < fk_rank n s"
    using step by (cases a) (auto simp: fk_next_def intro: fk_parent_less fk_reap_less fk_kid_less)
qed (rule fk_stuck)

text \<open>
  What the calls of \<open>fork\<close> return: the first \<open>n\<close> steps of the parent are its \<open>n\<close> calls, and
  there is one child for each that succeeds.
\<close>

definition fork_results :: "nat \<Rightarrow> fk_act list \<Rightarrow> bool list" where
  "fork_results n as = take n (concat (map (\<lambda>a. case a of F_Parent ok \<Rightarrow> [ok] | _ \<Rightarrow> []) as))"

lemma fork_results_simps [simp]:
  "fork_results n [] = []" "fork_results 0 as = []"
  "fork_results (Suc n) (F_Parent ok # as) = ok # fork_results n as"
  "fork_results n (F_Reap c # as) = fork_results n as" "fork_results n (F_Kid c # as) = fork_results n as"
  by (simp_all add: fork_results_def)

lemma forked_kids:
  assumes "run_acts (fk_next tty n) as s = Some t"
  shows "if fk_pc s = F_Fork
    then length (fk_kids t) = length (fk_kids s) + length (filter id (fork_results (n - fk_i s) as))
      \<and> (fk_pc t \<noteq> F_Fork \<longrightarrow> length (fork_results (n - fk_i s) as) = n - fk_i s)
    else length (fk_kids t) = length (fk_kids s) \<and> fk_pc t \<noteq> F_Fork"
  using assms
proof (induction as arbitrary: s)
  case (Cons a as)
  then obtain u where u: "fk_next tty n a s = Some u" "run_acts (fk_next tty n) as u = Some t" by (auto split: option.splits)
  note IH = Cons.IH [OF u(2)]
  show ?case
  proof (cases a)
    case (F_Parent ok)
    then have p: "fk_parent tty n ok s = Some u" using u(1) by (simp add: fk_next_def)
    show ?thesis
    proof (cases "fk_pc s = F_Fork \<and> fk_i s < n")
      case True
      then have "n - fk_i s = Suc (n - Suc (fk_i s))" by (simp add: Suc_diff_Suc)
      with True p IH F_Parent show ?thesis by (cases ok) (auto simp: fk_parent_def simp del: diff_Suc_Suc)
    next
      case False
      then have "fk_kids u = fk_kids s \<and> fk_pc u \<noteq> F_Fork \<and> (fk_pc s = F_Fork \<longrightarrow> n - fk_i s = 0)"
        using p by (auto simp: fk_parent_def put_def split: fk_pc.splits if_splits)
      with IH show ?thesis by auto
    qed
  next
    case (F_Reap c)
    then have "length (fk_kids u) = length (fk_kids s) \<and> fk_pc u = fk_pc s \<and> fk_pc s \<noteq> F_Fork"
      using u(1) by (auto simp: fk_next_def fk_reap_def split: if_splits)
    with IH show ?thesis by simp
  next
    case (F_Kid c)
    then have "fk_kid tty c s = Some u" using u(1) by (simp add: fk_next_def)
    then have "length (fk_kids u) = length (fk_kids s) \<and> fk_pc u = fk_pc s \<and> fk_i u = fk_i s"
      by (cases rule: fk_kid_cases) simp_all
    with IH F_Kid show ?thesis by (simp split: if_splits)
  qed
qed auto


abbreviation fk_run :: "bool \<Rightarrow> nat \<Rightarrow> fk_act list \<Rightarrow> fk_state \<Rightarrow> fk_state option" where
  "fk_run tty n \<equiv> run_acts (fk_next tty n)"

definition two_children :: "fk_act list" where
  "two_children = replicate 3 (F_Parent True) @ replicate 5 (F_Kid 1) @ replicate 5 (F_Kid 0)
     @ [F_Reap 1, F_Reap 0, F_Parent True, F_Parent True]"

lemma two_children_result:
  "case fk_run False 2 two_children (fk_init False True) of None \<Rightarrow> False
   | Some s \<Rightarrow> fk_pc s = F_Done \<and> length (fk_kids s) = 2 \<and> (\<forall>k\<in>set (fk_kids s). kid_pc k = K_Reaped)"
  by code_simp


end
