(* ===== verification/Lab1Exec.thy ===== *)
theory Lab1Exec
  imports Lab1
begin

text \<open>
  \<open>lab1/zad2\<close>: the children run another program, \<open>child.out\<close>.  After \<open>fork\<close> the child calls
  \<open>execl\<close>, and when that fails it goes on in the loop of its parent.
\<close>

section \<open>Processes\<close>

text \<open>
  A process is named by the numbers of the forks that lead to it; the first one is \<open>[]\<close>.
  What a run prints is a multiset, because the processes run in any order.
\<close>

datatype pline = P_Usage | P_Potomek "nat list" | P_Rodzic "nat list"

text \<open>\<open>child.c\<close> of \<open>zad2\<close>: the argument is read again, and the lines are printed.\<close>

definition child_prog :: "string \<Rightarrow> nat list \<Rightarrow> pline multiset" where
  "child_prog arg p =
     (let (m, valid) = count_arg arg
      in (if valid then {#} else {#P_Usage#}) + replicate_mset (nat m) (P_Potomek p))"

text \<open>
  The loop at \<open>i\<close> with \<open>r\<close> rounds left, in process \<open>p\<close> with the buffer \<open>buf\<close>: a child whose
  \<open>execl\<close> works is \<open>child.out\<close>, its copy of the buffer is gone; one whose \<open>execl\<close> fails does
  the rest of the loop like its parent and prints its own last line.
\<close>

primrec exec_loop ::
  "(nat list \<Rightarrow> bool) \<Rightarrow> (nat list \<Rightarrow> bool) \<Rightarrow> (nat list \<Rightarrow> pline multiset) \<Rightarrow> pline list \<Rightarrow> nat \<Rightarrow> nat list \<Rightarrow> nat
     \<Rightarrow> pline multiset" where
  "exec_loop forks execs prog buf 0 p i = mset buf + {#P_Rodzic p#}"
| "exec_loop forks execs prog buf (Suc r) p i =
     exec_loop forks execs prog buf r p (Suc i)
     + (let c = p @ [i]
        in if \<not> forks c then {#}
           else if execs c then prog c
           else exec_loop forks execs prog buf r c (Suc i))"

text \<open>\<open>main.c\<close> of \<open>zad2\<close>: exit status of the first process and what all of them print.\<close>

definition exec_main :: "bool \<Rightarrow> (nat list \<Rightarrow> bool) \<Rightarrow> (nat list \<Rightarrow> bool) \<Rightarrow> string list \<Rightarrow> int \<times> pline multiset" where
  "exec_main tty forks execs argv =
     (if length argv \<noteq> 3 then (1, {#P_Usage#})
      else (let (n, valid_n) = count_arg (argv ! 1); (m, valid_m) = count_arg (argv ! 2);
                usage = (if valid_n \<and> valid_m then [] else [P_Usage]);
                buf = (if tty then [] else usage); out = (if tty then mset usage else {#})
            in (0, out + exec_loop forks execs (child_prog (argv ! 2)) buf (nat n) [] 0)))"

lemma exec_loop_ok:
  "exec_loop (\<lambda>_. True) (\<lambda>_. True) prog buf r p i
     = mset buf + {#P_Rodzic p#} + (\<Sum>j<r. prog (p @ [i + j]))"
proof (induction r arbitrary: i)
  case (Suc r)
  have "(\<Sum>j<Suc r. prog (p @ [i + j])) = prog (p @ [i]) + (\<Sum>j<r. prog (p @ [Suc i + j]))"
    by (subst sum.lessThan_Suc_shift) simp
  with Suc show ?case by (simp add: Let_def)
qed simp

text \<open>
  When every \<open>fork\<close> and \<open>execl\<close> succeeds, \<open>N\<close> children print \<open>M\<close> lines each and only the
  first process prints the line of the parent.
\<close>

theorem exec_output:
  assumes "length argv = 3" "count_arg (argv ! 1) = (n, True)" "count_arg (argv ! 2) = (m, True)"
  shows "exec_main tty (\<lambda>_. True) (\<lambda>_. True) argv =
     (0, {#P_Rodzic []#} + (\<Sum>i<nat n. replicate_mset (nat m) (P_Potomek [i])))"
  using assms by (simp add: exec_main_def exec_loop_ok child_prog_def)

theorem exec_output_witness:
  "exec_main True (\<lambda>_. True) (\<lambda>_. True) [''main.out'', show_int 3, show_int 2] =
     (0, {#P_Rodzic []#} + (\<Sum>i<3. replicate_mset 2 (P_Potomek [i])))"
  using exec_output [of "[''main.out'', show_int 3, show_int 2]" 3 2 True]
  by (simp add: count_arg_def show_int_is_number)

text \<open>When \<open>execl\<close> fails, the number of processes that reach the end doubles with every round.\<close>

definition is_rodzic :: "pline \<Rightarrow> bool" where
  "is_rodzic l \<longleftrightarrow> (case l of P_Rodzic _ \<Rightarrow> True | _ \<Rightarrow> False)"

lemma exec_loop_fails:
  "filter_mset is_rodzic (mset buf) = {#} \<Longrightarrow>
     size (filter_mset is_rodzic (exec_loop (\<lambda>_. True) (\<lambda>_. False) prog buf r p i)) = 2 ^ r"
  by (induction r arbitrary: p i) (simp_all add: is_rodzic_def Let_def)

text \<open>
  When \<open>execl\<close> fails in every child, \<open>2 ^ N\<close> processes reach the end of \<open>main\<close> and print
  the line of the parent: a child goes on with the loop it was forked in.
\<close>

theorem failed_exec_doubles:
  assumes "length argv = 3" "count_arg (argv ! 1) = (int n, valid)"
  shows "size (filter_mset is_rodzic (snd (exec_main tty (\<lambda>_. True) (\<lambda>_. False) argv))) = 2 ^ n"
proof -
  obtain m valid_m where m: "count_arg (argv ! 2) = (m, valid_m)" by fastforce
  define buf where "buf = (if tty then [] else if valid \<and> valid_m then [] else [P_Usage])"
  have "filter_mset is_rodzic (mset buf) = {#}" by (simp add: buf_def is_rodzic_def)
  from exec_loop_fails [OF this, of "child_prog (argv ! 2)" n "[]" 0] show ?thesis
    using assms m by (auto simp: exec_main_def buf_def is_rodzic_def)
qed

theorem failed_exec_doubles_witness:
  "size (filter_mset is_rodzic
     (snd (exec_main True (\<lambda>_. True) (\<lambda>_. False) [''main.out'', show_int 10, show_int 2]))) = 1024"
  using failed_exec_doubles [of "[''main.out'', show_int 10, show_int 2]" 10 True True]
  by (simp add: count_arg_def show_int_is_number)

end
