(* ===== verification/Lab1Append.thy ===== *)
theory Lab1Append
  imports Lab1Exec
begin

text \<open>
  \<open>lab1/zad3\<close> as one system: \<open>main.c\<close> removes the output file with a child that runs \<open>rm\<close>,
  starts \<open>N\<close> children that become \<open>child.out\<close>, and waits for them; each child appends \<open>M\<close>
  lines to the file under a lock.  A child whose \<open>execl\<close> fails goes on in the loop of its
  parent, so any process may have children.  Every call may fail; a write may be cut short.
\<close>

section \<open>Removing the old file\<close>

text \<open>
  \<open>main.c\<close> starts with a child that runs \<open>rm output.txt\<close>, whose status is 0 only when the
  file was there.  When that child cannot be started, the code reads a variable that was
  never set.
\<close>

definition rm_status :: "string option \<Rightarrow> int" where
  "rm_status content = (case content of None \<Rightarrow> 1 | Some _ \<Rightarrow> 0)"

definition remove_first :: "bool \<Rightarrow> bool \<Rightarrow> string option \<Rightarrow> (int option \<times> string option) c_result" where
  "remove_first fork_ok exec_ok content =
     (if \<not> fork_ok \<or> \<not> exec_ok then Undefined
      else if rm_status content \<noteq> 0 then Defined (Some 1, content)
      else Defined (None, None))"

section \<open>State\<close>

text \<open>The statements of \<open>main.c\<close> after that, those of \<open>child.c\<close>, and the lines on standard output.\<close>

datatype main_pc = Z_Fork nat | Z_Exec nat | Z_Wait nat | Z_Print | Z_Done

datatype app_pc = A_Open | A_Lock | A_Write nat | A_Unlock | A_Close | A_Exit int

datatype zad3_pc = No_Process | In_Main main_pc | In_Child app_pc

datatype zline = Z_Usage | Z_Not_Removed | Z_Rodzic nat

text \<open>
  Processes are numbered in the order of their creation, the first is 0; \<open>c_pid\<close> is what
  \<open>getpid\<close> returns.  Standard output is a terminal (\<open>c_tty\<close>) or is written from a buffer at
  the end of a process; \<open>c_usage\<close> and \<open>c_kid_usage\<close> say whether an argument was no number.
\<close>

record zad3_cfg =
  c_tty :: bool
  c_n :: nat
  c_m :: nat
  c_usage :: bool
  c_kid_usage :: bool
  c_pid :: "nat \<Rightarrow> nat"

record zad3 =
  z_count :: nat
  z_pc :: "nat \<Rightarrow> zad3_pc"
  z_parent :: "nat \<Rightarrow> nat option"
  z_reaped :: "nat \<Rightarrow> bool"
  z_file :: "string option"
  z_lock :: "nat option"
  z_out :: "zline list"

text \<open>How a call ends: it succeeds, fails, writes only so many characters, or (\<open>wait\<close>) returns a child.\<close>

datatype call = Succeeds | Fails | Wrote nat | Reaps nat

definition usage_text :: "bool \<Rightarrow> zline list" where
  "usage_text u = (if u then [Z_Usage] else [])"

definition goto :: "nat \<Rightarrow> zad3_pc \<Rightarrow> zad3 \<Rightarrow> zad3" where
  "goto p l s = s\<lparr>z_pc := (z_pc s)(p := l)\<rparr>"

section \<open>\<open>main.c\<close>\<close>

definition has_ended :: "zad3_pc \<Rightarrow> bool" where
  "has_ended l = (case l of In_Main Z_Done \<Rightarrow> True | In_Child (A_Exit _) \<Rightarrow> True | _ \<Rightarrow> False)"

definition waits_for :: "nat \<Rightarrow> zad3 \<Rightarrow> nat \<Rightarrow> bool" where
  "waits_for p s k \<longleftrightarrow> k < z_count s \<and> z_parent s k = Some p \<and> \<not> z_reaped s k"

text \<open>\<open>fork\<close> in round \<open>i\<close>: the new process is about to call \<open>execl\<close>.\<close>

definition fork_process :: "nat \<Rightarrow> nat \<Rightarrow> zad3 \<Rightarrow> zad3" where
  "fork_process p i s = s\<lparr>z_count := Suc (z_count s), z_pc := (z_pc s)(z_count s := In_Main (Z_Exec i)),
     z_parent := (z_parent s)(z_count s := Some p), z_reaped := (z_reaped s)(z_count s := False)\<rparr>"

definition zad3_main_next :: "zad3_cfg \<Rightarrow> nat \<Rightarrow> call \<Rightarrow> main_pc \<Rightarrow> zad3 \<Rightarrow> zad3 option" where
  "zad3_main_next c p r l s = (case l of
     Z_Fork i \<Rightarrow>
       if i < c_n c
       then Some (goto p (In_Main (Z_Fork (Suc i))) (if r = Succeeds then fork_process p i s else s))
       else Some (goto p (In_Main (Z_Wait 0)) s)
   | Z_Exec i \<Rightarrow>
       if r = Succeeds
       then Some (goto p (In_Child A_Open) (s\<lparr>z_out := z_out s @ (if c_tty c then usage_text (c_kid_usage c) else [])\<rparr>))
       else Some (goto p (In_Main (Z_Fork (Suc i))) s)
   | Z_Wait j \<Rightarrow>
       if j < c_n c
       then (case r of
           Reaps k \<Rightarrow>
             if waits_for p s k \<and> has_ended (z_pc s k)
             then Some (goto p (In_Main (Z_Wait (Suc j))) (s\<lparr>z_reaped := (z_reaped s)(k := True)\<rparr>)) else None
         | _ \<Rightarrow>
             if list_ex (waits_for p s) [0..<z_count s] then None
             else Some (goto p (In_Main (Z_Wait (Suc j))) s))
       else Some (goto p (In_Main Z_Print) s)
   | Z_Print \<Rightarrow>
       Some (goto p (In_Main Z_Done)
         (s\<lparr>z_out := z_out s @ (if c_tty c then [] else usage_text (c_usage c)) @ [Z_Rodzic p]\<rparr>))
   | Z_Done \<Rightarrow> None)"

section \<open>\<open>child.c\<close>\<close>

text \<open>The text of a line fits the buffer of \<open>snprintf\<close>, so the length written is the line's.\<close>

definition potomek_text :: "nat \<Rightarrow> string" where
  "potomek_text pid = ''Potomek ('' @ show_nat pid @ '')\<newline>''"

lemma potomek_text_fits:
  assumes "pid \<le> 2147483647"
  shows "c_snprintf 32 (potomek_text pid) = (potomek_text pid @ [NUL], int (length (potomek_text pid)))"
proof (rule c_snprintf_fits)
  show "NUL \<notin> set (potomek_text pid)" by (auto simp: potomek_text_def)
  show "length (potomek_text pid) < 32"
    using show_nat_length_int [of pid] assms by (simp add: potomek_text_def)
qed

text \<open>
  What \<open>fwrite\<close> and \<open>fflush\<close> bring into the file: the line, a part of it, or nothing.  What
  could not be written is dropped with the buffer, and the results are not tested.
\<close>

definition written :: "call \<Rightarrow> string \<Rightarrow> string" where
  "written r l = (case r of Succeeds \<Rightarrow> l | Wrote k \<Rightarrow> take k l | _ \<Rightarrow> [])"

text \<open>The return from \<open>main\<close> writes the buffer of standard output.\<close>

definition leave_child :: "zad3_cfg \<Rightarrow> nat \<Rightarrow> int \<Rightarrow> zad3 \<Rightarrow> zad3" where
  "leave_child c p status s = goto p (In_Child (A_Exit status))
     (s\<lparr>z_out := z_out s @ (if c_tty c then [] else usage_text (c_kid_usage c))\<rparr>)"

definition zad3_child_next :: "zad3_cfg \<Rightarrow> nat \<Rightarrow> call \<Rightarrow> app_pc \<Rightarrow> zad3 \<Rightarrow> zad3 option" where
  "zad3_child_next c p r l s = (case l of
     A_Open \<Rightarrow>
       if r = Succeeds
       then Some (goto p (In_Child A_Lock) (s\<lparr>z_file := Some (case z_file s of None \<Rightarrow> [] | Some f \<Rightarrow> f)\<rparr>))
       else Some (leave_child c p 1 s)
   | A_Lock \<Rightarrow>
       if r \<noteq> Succeeds then Some (leave_child c p 1 s)
       else if z_lock s = None then Some (goto p (In_Child (A_Write 0)) (s\<lparr>z_lock := Some p\<rparr>))
       else None
   | A_Write j \<Rightarrow>
       if j < c_m c
       then Some (goto p (In_Child (A_Write (Suc j)))
         (s\<lparr>z_file := map_option (\<lambda>f. f @ written r (potomek_text (c_pid c p))) (z_file s)\<rparr>))
       else Some (goto p (In_Child A_Unlock) s)
   | A_Unlock \<Rightarrow>
       Some (if r = Succeeds then goto p (In_Child A_Close) (s\<lparr>z_lock := None\<rparr>) else leave_child c p 1 (s\<lparr>z_lock := None\<rparr>))
   | A_Close \<Rightarrow> Some (leave_child c p 0 s)
   | A_Exit _ \<Rightarrow> None)"

section \<open>The system\<close>

text \<open>Only \<open>wait\<close> returns a child, and only a write can be cut short.\<close>

definition can_return :: "zad3_pc \<Rightarrow> call \<Rightarrow> bool" where
  "can_return l r \<longleftrightarrow> (case r of
     Reaps _ \<Rightarrow> (case l of In_Main (Z_Wait _) \<Rightarrow> True | _ \<Rightarrow> False)
   | Wrote _ \<Rightarrow> (case l of In_Child (A_Write _) \<Rightarrow> True | _ \<Rightarrow> False)
   | _ \<Rightarrow> True)"

text \<open>\<open>(p, r)\<close>: process \<open>p\<close> executes its next statement, whose call, if it has one, ends with \<open>r\<close>.\<close>

definition zad3_next :: "zad3_cfg \<Rightarrow> nat \<times> call \<Rightarrow> zad3 \<Rightarrow> zad3 option" where
  "zad3_next c a s = (case a of (p, r) \<Rightarrow>
     if \<not> can_return (z_pc s p) r then None
     else (case z_pc s p of
         No_Process \<Rightarrow> None
       | In_Main l \<Rightarrow> zad3_main_next c p r l s
       | In_Child l \<Rightarrow> zad3_child_next c p r l s))"

lemma zad3_nextD:
  assumes "zad3_next c (p, r) s = Some t"
  shows "z_pc s p \<noteq> No_Process" "z_pc s p = In_Main m \<Longrightarrow> zad3_main_next c p r m s = Some t"
    "z_pc s p = In_Child a \<Longrightarrow> zad3_child_next c p r a s = Some t \<and> (\<forall>k. r \<noteq> Reaps k)"
    "z_pc s p = In_Main m \<Longrightarrow> r \<noteq> Wrote k" "z_pc s p = In_Main m \<Longrightarrow> r = Reaps k \<Longrightarrow> \<exists>j. m = Z_Wait j"
  using assms by (auto simp: zad3_next_def can_return_def split: if_splits call.splits main_pc.splits)

definition zad3_start :: "zad3_cfg \<Rightarrow> string option \<Rightarrow> zad3" where
  "zad3_start c content = \<lparr>z_count = 1, z_pc = (\<lambda>p. if p = 0 then In_Main (Z_Fork 0) else No_Process),
     z_parent = (\<lambda>_. None), z_reaped = (\<lambda>_. False), z_file = content, z_lock = None,
     z_out = (if c_tty c then usage_text (c_usage c) else [])\<rparr>"

text \<open>\<open>main.c\<close> from its arguments: it ends with a status, or the loop starts.\<close>

definition zad3_main ::
  "bool \<Rightarrow> bool \<Rightarrow> bool \<Rightarrow> (nat \<Rightarrow> nat) \<Rightarrow> string list \<Rightarrow> string option
     \<Rightarrow> ((int \<times> zline list \<times> string option) + (zad3_cfg \<times> zad3)) c_result" where
  "zad3_main tty fork_ok exec_ok pid argv content =
     (if length argv \<noteq> 3 then Defined (Inl (1, [Z_Usage], content))
      else (let (n, valid_n) = count_arg (argv ! 1); (m, valid_m) = count_arg (argv ! 2);
                c = \<lparr>c_tty = tty, c_n = nat n, c_m = nat m, c_usage = (\<not> (valid_n \<and> valid_m)), c_kid_usage = (\<not> valid_m),
                     c_pid = pid\<rparr>
            in case remove_first fork_ok exec_ok content of
                 Undefined \<Rightarrow> Undefined
               | Defined (Some status, content') \<Rightarrow>
                   Defined (Inl (status, usage_text (c_usage c) @ [Z_Not_Removed], content'))
               | Defined (None, content') \<Rightarrow> Defined (Inr (c, zad3_start c content'))))"

text \<open>Without a file from an earlier run nothing is started.\<close>

lemma zad3_needs_file:
  assumes "length argv = 3"
  shows "\<exists>out. zad3_main tty True True pid argv None = Defined (Inl (1, out, None))"
  using assms by (auto simp: zad3_main_def remove_first_def rm_status_def Let_def split: prod.splits)

section \<open>Processes, their children, and who waits for whom\<close>

text \<open>The children process \<open>p\<close> has not waited for, and how many of them the code allows at \<open>l\<close>.\<close>

definition kids :: "nat \<Rightarrow> zad3 \<Rightarrow> nat" where
  "kids p s = card {k. waits_for p s k}"

definition may_have :: "zad3_cfg \<Rightarrow> zad3_pc \<Rightarrow> nat" where
  "may_have c l = (case l of In_Main (Z_Fork i) \<Rightarrow> i | In_Main (Z_Wait j) \<Rightarrow> c_n c - j | _ \<Rightarrow> 0)"

definition in_range :: "zad3_cfg \<Rightarrow> zad3_pc \<Rightarrow> bool" where
  "in_range c l \<longleftrightarrow> (case l of In_Main (Z_Fork i) \<Rightarrow> i \<le> c_n c | In_Main (Z_Exec i) \<Rightarrow> i < c_n c | _ \<Rightarrow> True)"

definition tree_inv :: "zad3_cfg \<Rightarrow> zad3 \<Rightarrow> bool" where
  "tree_inv c s \<longleftrightarrow> (\<forall>p. z_pc s p = No_Process \<longleftrightarrow> z_count s \<le> p)
     \<and> (\<forall>q p. z_parent s q = Some p \<longrightarrow> p < q \<and> q < z_count s)
     \<and> (\<forall>q. z_reaped s q \<longrightarrow> has_ended (z_pc s q))
     \<and> (\<forall>p. in_range c (z_pc s p) \<and> kids p s \<le> may_have c (z_pc s p))"

lemma finite_kids [simp]: "finite {k. waits_for p s k}"
  by (rule finite_subset [of _ "{..<z_count s}"]) (auto simp: waits_for_def)

lemma goto_simps [simp]:
  "z_count (goto p l s) = z_count s" "z_parent (goto p l s) = z_parent s" "z_reaped (goto p l s) = z_reaped s"
  "z_file (goto p l s) = z_file s" "z_lock (goto p l s) = z_lock s" "z_out (goto p l s) = z_out s"
  "z_pc (goto p l s) = (z_pc s)(p := l)"
  by (simp_all add: goto_def)

lemma leave_child_simps [simp]:
  "z_count (leave_child c p st s) = z_count s" "z_parent (leave_child c p st s) = z_parent s" "z_reaped (leave_child c p st s) = z_reaped s"
  "z_file (leave_child c p st s) = z_file s" "z_lock (leave_child c p st s) = z_lock s"
  "z_pc (leave_child c p st s) = (z_pc s)(p := In_Child (A_Exit st))"
  by (simp_all add: leave_child_def)

text \<open>A step forks, reaps a child, or moves one process and leaves the others as they are.\<close>

lemma zad3_cases:
  assumes step: "zad3_next c (p, r) s = Some t" and inv: "tree_inv c s"
  obtains (Fork) i where "z_pc s p = In_Main (Z_Fork i)" "i < c_n c" "r = Succeeds"
      "t = goto p (In_Main (Z_Fork (Suc i))) (fork_process p i s)"
    | (Reap) j k where "z_pc s p = In_Main (Z_Wait j)" "j < c_n c" "waits_for p s k" "has_ended (z_pc s k)"
      "t = goto p (In_Main (Z_Wait (Suc j))) (s\<lparr>z_reaped := (z_reaped s)(k := True)\<rparr>)"
    | (Local) l where "z_count t = z_count s" "z_parent t = z_parent s" "z_reaped t = z_reaped s" "z_pc t = (z_pc s)(p := l)"
      "z_pc s p \<noteq> No_Process" "\<not> has_ended (z_pc s p)" "l \<noteq> No_Process" "in_range c l" "kids p s \<le> may_have c l"
proof (cases "z_pc s p")
  case No_Process
  with zad3_nextD(1) [OF step] show thesis ..
next
  case (In_Main m)
  then have m: "zad3_main_next c p r m s = Some t" by (rule zad3_nextD(2) [OF step])
  have k: "in_range c (In_Main m)" "kids p s \<le> may_have c (In_Main m)"
    using inv unfolding In_Main [symmetric] by (simp_all add: tree_inv_def)
  have none: "kids p s = 0" if "\<not> list_ex (waits_for p s) [0..<z_count s]"
    using that by (auto simp: kids_def list_ex_iff waits_for_def)
  show thesis
  proof (cases m)
    case (Z_Fork i)
    show thesis
    proof (cases "i < c_n c \<and> r = Succeeds")
      case True
      with m Z_Fork In_Main that(1) show thesis by (simp add: zad3_main_next_def)
    next
      case False
      with m Z_Fork k In_Main show thesis
        by (intro that(3) [of "z_pc t p"]) (auto simp: zad3_main_next_def in_range_def may_have_def has_ended_def split: if_splits)
    qed
  next
    case (Z_Exec i)
    with m k In_Main show thesis
      by (cases "r = Succeeds"; intro that(3) [of "z_pc t p"]) (auto simp: zad3_main_next_def in_range_def may_have_def has_ended_def)
  next
    case (Z_Wait j)
    show thesis
    proof (cases "j < c_n c \<and> (\<exists>k. r = Reaps k)")
      case True
      with m Z_Wait In_Main that(2) show thesis by (auto simp: zad3_main_next_def split: if_splits)
    next
      case False
      with m Z_Wait k In_Main none show thesis
        by (intro that(3) [of "z_pc t p"]) (auto simp: zad3_main_next_def in_range_def may_have_def has_ended_def split: if_splits call.splits)
    qed
  next
    case Z_Print
    with m k In_Main show thesis
      by (intro that(3) [of "z_pc t p"]) (auto simp: zad3_main_next_def in_range_def may_have_def has_ended_def)
  qed (use m in \<open>simp add: zad3_main_next_def\<close>)
next
  case (In_Child l)
  then have l: "zad3_child_next c p r l s = Some t" using zad3_nextD(3) [OF step] by blast
  have "kids p s = 0" using inv In_Child unfolding tree_inv_def may_have_def by (metis le_zero_eq zad3_pc.simps(11))
  with l In_Child show thesis
    by (cases l; intro that(3) [of "z_pc t p"]) (auto simp: zad3_child_next_def in_range_def has_ended_def split: if_splits)
qed

lemma tree_invD:
  assumes "tree_inv c s"
  shows "z_pc s p = No_Process \<longleftrightarrow> z_count s \<le> p" "z_parent s q = Some p \<Longrightarrow> p < q \<and> q < z_count s"
    "z_reaped s q \<Longrightarrow> has_ended (z_pc s q)" "in_range c (z_pc s p)" "kids p s \<le> may_have c (z_pc s p)"
  using assms by (simp_all add: tree_inv_def)

lemma tree_inv_start: "tree_inv c (zad3_start c content)"
  by (simp add: tree_inv_def zad3_start_def kids_def waits_for_def in_range_def may_have_def)

lemma kids_same: "z_count t = z_count s \<Longrightarrow> z_parent t = z_parent s \<Longrightarrow> z_reaped t = z_reaped s \<Longrightarrow> kids q t = kids q s"
  by (simp add: kids_def waits_for_def)

lemma kids_goto [simp]: "kids q (goto p l s) = kids q s"
  by (rule kids_same) simp_all

lemma kids_fork:
  assumes "\<And>q p. z_parent s q = Some p \<Longrightarrow> q < z_count s"
  shows "kids q (fork_process p i s) = kids q s + one_if (q = p)"
proof -
  have "{k. waits_for q (fork_process p i s) k} = {k. waits_for q s k} \<union> (if q = p then {z_count s} else {})"
    by (auto simp: waits_for_def fork_process_def less_Suc_eq)
  moreover have "z_count s \<notin> {k. waits_for q s k}" by (simp add: waits_for_def)
  ultimately show ?thesis by (cases "q = p") (simp_all add: kids_def)
qed

lemma kids_reap:
  assumes "waits_for p s k"
  shows "kids q (s\<lparr>z_reaped := (z_reaped s)(k := True)\<rparr>) = kids q s - one_if (q = p)"
proof -
  have "{k'. waits_for q (s\<lparr>z_reaped := (z_reaped s)(k := True)\<rparr>) k'} = {k'. waits_for q s k'} - (if q = p then {k} else {})"
    using assms by (auto simp: waits_for_def)
  with assms show ?thesis by (simp add: kids_def)
qed

lemma tree_inv_step:
  assumes step: "zad3_next c (p, r) s = Some t" and inv: "tree_inv c s"
  shows "tree_inv c t"
proof -
  note i = tree_invD [OF inv]
  from step inv show ?thesis
  proof (cases rule: zad3_cases)
    case (Fork j)
    have p: "p < z_count s" "\<not> has_ended (z_pc s p)" using Fork(1) i(1) [of p] by (auto simp: has_ended_def)
    have k: "kids q t = kids q s + one_if (q = p)" for q
      using kids_fork [of s q p j] i(2) Fork(4) by simp
    show ?thesis unfolding tree_inv_def k
    proof (intro conjI allI)
      fix q
      show "z_pc t q = No_Process \<longleftrightarrow> z_count t \<le> q" using i(1) [of q] p by (auto simp: Fork(4) fork_process_def)
      show "z_reaped t q \<longrightarrow> has_ended (z_pc t q)" using i(3) [of q] p by (auto simp: Fork(4) fork_process_def)
      show "in_range c (z_pc t q)" using i(4) [of q] Fork(2) by (simp add: Fork(4) fork_process_def in_range_def)
      have "kids (z_count s) s = 0" using i(2) by (fastforce simp: kids_def waits_for_def)
      then show "kids q s + one_if (q = p) \<le> may_have c (z_pc t q)"
        using i(5) [of q] Fork(1) p by (cases "q = p") (simp_all add: Fork(4) fork_process_def may_have_def)
      fix p' show "z_parent t q = Some p' \<longrightarrow> p' < q \<and> q < z_count t"
        using i(2) [of q p'] p by (auto simp: Fork(4) fork_process_def)
    qed
  next
    case (Reap j k)
    have p: "p < z_count s" "\<not> has_ended (z_pc s p)" using Reap(1) i(1) [of p] by (auto simp: has_ended_def)
    have k: "kids q t = kids q s - one_if (q = p)" for q
      using kids_reap [OF Reap(3), of q] Reap(5) by simp
    show ?thesis unfolding tree_inv_def k
    proof (intro conjI allI)
      fix q
      show "z_pc t q = No_Process \<longleftrightarrow> z_count t \<le> q" using i(1) [of q] p by (simp add: Reap(5))
      show "z_reaped t q \<longrightarrow> has_ended (z_pc t q)" using i(3) [of q] p Reap(4) by (auto simp: Reap(5))
      show "in_range c (z_pc t q)" using i(4) [of q] by (simp add: Reap(5) in_range_def)
      show "kids q s - one_if (q = p) \<le> may_have c (z_pc t q)"
        using i(5) [of q] Reap(1) by (cases "q = p") (auto simp: Reap(5) may_have_def)
      fix p' show "z_parent t q = Some p' \<longrightarrow> p' < q \<and> q < z_count t"
        using i(2) [of q p'] by (simp add: Reap(5))
    qed
  next
    case (Local l)
    with i kids_same [of t s] show ?thesis by (auto simp: tree_inv_def)
  qed
qed

text \<open>A process that has printed its last line has no child that still runs.\<close>

lemma done_children:
  assumes inv: "tree_inv c s" and d: "z_pc s p = In_Main Z_Done" and q: "z_parent s q = Some p"
  shows "has_ended (z_pc s q)"
proof -
  have "kids p s = 0" using tree_invD(5) [OF inv, of p] d by (simp add: may_have_def)
  then have "\<not> waits_for p s q" by (simp add: kids_def)
  with tree_invD(2) [OF inv q] q have "z_reaped s q" by (simp add: waits_for_def)
  with tree_invD(3) [OF inv] show ?thesis .
qed

text \<open>The line of \<open>main\<close> is printed once by every process that comes to its end there.\<close>

lemma rodzic_step:
  assumes step: "zad3_next c (p, r) s = Some t" and inv: "\<forall>q. count_list (z_out s) (Z_Rodzic q) = one_if (z_pc s q = In_Main Z_Done)"
    and tree: "tree_inv c s"
  shows "\<forall>q. count_list (z_out t) (Z_Rodzic q) = one_if (z_pc t q = In_Main Z_Done)"
proof (cases "z_pc s p")
  case (In_Main m)
  then have m: "zad3_main_next c p r m s = Some t" by (rule zad3_nextD(2) [OF step])
  have new: "z_pc s (z_count s) = No_Process" using tree_invD(1) [OF tree] by simp
  show ?thesis
    using m inv In_Main new by (cases m) (auto simp: zad3_main_next_def usage_text_def fork_process_def split: if_splits call.splits)
next
  case (In_Child l)
  then have "zad3_child_next c p r l s = Some t" using zad3_nextD(3) [OF step] by blast
  then show ?thesis
    using inv In_Child by (cases l) (auto simp: zad3_child_next_def leave_child_def usage_text_def split: if_splits)
qed (use zad3_nextD(1) [OF step] in simp)

section \<open>The system ends\<close>

primrec loop_left :: "zad3_cfg \<Rightarrow> nat \<Rightarrow> nat" where
  "loop_left c 0 = c_n c + 3"
| "loop_left c (Suc r) = 2 * loop_left c r + c_m c + 7"

definition pc_left :: "zad3_cfg \<Rightarrow> zad3_pc \<Rightarrow> nat" where
  "pc_left c l = (case l of
     No_Process \<Rightarrow> 0
   | In_Main m \<Rightarrow> (case m of
        Z_Fork i \<Rightarrow> loop_left c (c_n c - i) | Z_Exec i \<Rightarrow> c_m c + 6 + loop_left c (c_n c - Suc i)
      | Z_Wait j \<Rightarrow> c_n c - j + 2 | Z_Print \<Rightarrow> 1 | Z_Done \<Rightarrow> 0)
   | In_Child a \<Rightarrow> (case a of
        A_Open \<Rightarrow> c_m c + 5 | A_Lock \<Rightarrow> c_m c + 4 | A_Write j \<Rightarrow> c_m c - j + 3 | A_Unlock \<Rightarrow> 2 | A_Close \<Rightarrow> 1 | A_Exit _ \<Rightarrow> 0))"

definition zad3_rank :: "zad3_cfg \<Rightarrow> zad3 \<Rightarrow> nat" where
  "zad3_rank c s = (\<Sum>p<z_count s. pc_left c (z_pc s p))"

lemma loop_left_bound: "loop_left c r \<le> 2 ^ r * (c_n c + c_m c + 10)"
proof -
  have "loop_left c r + c_m c + 7 = 2 ^ r * (c_n c + c_m c + 10)" by (induction r) (simp_all add: algebra_simps)
  then show ?thesis by linarith
qed

lemma rank_goto:
  assumes "p < z_count s"
  shows "zad3_rank c (goto p l s) + pc_left c (z_pc s p) = zad3_rank c s + pc_left c l"
proof -
  have "(\<Sum>q\<in>{..<z_count s} - {p}. pc_left c (((z_pc s)(p := l)) q)) = (\<Sum>q\<in>{..<z_count s} - {p}. pc_left c (z_pc s q))"
    by (intro sum.cong) auto
  with assms show ?thesis
    unfolding zad3_rank_def goto_simps by (simp add: sum.remove [of "{..<z_count s}" p])
qed

lemma rank_same: "z_count t = z_count s \<Longrightarrow> z_pc t = z_pc s \<Longrightarrow> zad3_rank c t = zad3_rank c s"
  by (simp add: zad3_rank_def)

text \<open>A step lowers the rank: what a process still has to do, with what its children will.\<close>

lemma local_less:
  assumes step: "zad3_next c (p, r) s = Some t" and inv: "tree_inv c s"
    and l: "z_pc t = (z_pc s)(p := l)" "z_count t = z_count s"
  shows "pc_left c l < pc_left c (z_pc s p)"
proof (cases "z_pc s p")
  case (In_Main m)
  then have m: "zad3_main_next c p r m s = Some t" by (rule zad3_nextD(2) [OF step])
  have r: "in_range c (In_Main m)" using tree_invD(4) [OF inv, of p] In_Main by simp
  have pc: "l = z_pc t p" using l(1) by simp
  show ?thesis
  proof (cases m)
    case (Z_Fork i)
    show ?thesis
    proof (cases "i < c_n c")
      case True
      then have "c_n c - i = Suc (c_n c - Suc i)" by (simp add: Suc_diff_Suc)
      moreover have "r \<noteq> Succeeds"
        using m Z_Fork True l(2) by (auto simp: zad3_main_next_def fork_process_def)
      ultimately show ?thesis using m Z_Fork True In_Main unfolding pc by (auto simp: zad3_main_next_def pc_left_def)
    next
      case False
      with m Z_Fork In_Main show ?thesis unfolding pc by (auto simp: zad3_main_next_def pc_left_def)
    qed
  qed (use m r In_Main in \<open>auto simp: pc zad3_main_next_def pc_left_def in_range_def split: if_splits call.splits\<close>)
next
  case (In_Child a)
  then have a: "zad3_child_next c p r a s = Some t" using zad3_nextD(3) [OF step] by blast
  have pc: "l = z_pc t p" using l(1) by simp
  show ?thesis
    using a In_Child unfolding pc by (cases a) (auto simp: zad3_child_next_def pc_left_def split: if_splits)
qed (use zad3_nextD(1) [OF step] in simp)

lemma zad3_rank_less:
  assumes step: "zad3_next c (p, r) s = Some t" and inv: "tree_inv c s"
  shows "zad3_rank c t < zad3_rank c s"
proof -
  have p: "p < z_count s"
    using zad3_nextD(1) [OF step] tree_invD(1) [OF inv, of p] by (simp add: not_le)
  from step inv show ?thesis
  proof (cases rule: zad3_cases)
    case (Fork i)
    let ?f = "fork_process p i s"
    have "zad3_rank c ?f = zad3_rank c s + pc_left c (In_Main (Z_Exec i))"
      by (simp add: zad3_rank_def fork_process_def)
    moreover have "z_pc ?f p = In_Main (Z_Fork i)" using p Fork(1) by (simp add: fork_process_def)
    moreover have "c_n c - i = Suc (c_n c - Suc i)" using Fork(2) by (simp add: Suc_diff_Suc)
    moreover have "p < z_count ?f" using p by (simp add: fork_process_def)
    ultimately show ?thesis
      using rank_goto [of p ?f c "In_Main (Z_Fork (Suc i))"] unfolding Fork(4) by (simp add: pc_left_def)
  next
    case (Reap j k)
    let ?r = "s\<lparr>z_reaped := (z_reaped s)(k := True)\<rparr>"
    have "zad3_rank c t + pc_left c (z_pc s p) = zad3_rank c s + pc_left c (In_Main (Z_Wait (Suc j)))"
      using rank_goto [of p ?r c "In_Main (Z_Wait (Suc j))"] p rank_same [of ?r s c] unfolding Reap(5) by simp
    with Reap(1,2) show ?thesis by (simp add: pc_left_def)
  next
    case (Local l)
    have "zad3_rank c t = zad3_rank c (goto p l s)" using Local by (intro rank_same) simp_all
    with rank_goto [OF p, of c l] local_less [OF step inv Local(4,1)] show ?thesis by linarith
  qed
qed

definition all_ended :: "zad3 \<Rightarrow> bool" where
  "all_ended s \<longleftrightarrow> (\<forall>p<z_count s. has_ended (z_pc s p))"

definition calls_fine :: "nat \<times> call \<Rightarrow> bool" where
  "calls_fine a \<longleftrightarrow> (case snd a of Succeeds \<Rightarrow> True | Reaps _ \<Rightarrow> True | _ \<Rightarrow> False)"

text \<open>The lock is free, or the process that has it is writing or about to unlock.\<close>

definition in_lock :: "zad3_pc \<Rightarrow> bool" where
  "in_lock l \<longleftrightarrow> (case l of In_Child (A_Write _) \<Rightarrow> True | In_Child A_Unlock \<Rightarrow> True | _ \<Rightarrow> False)"

text \<open>
  Where no call that succeeds is possible, all processes have ended: of those that have not,
  the one created last waits neither for a child nor for the lock.
\<close>

lemma zad3_stuck:
  assumes inv: "tree_inv c s" and lock: "\<forall>p. z_lock s = Some p \<longrightarrow> in_lock (z_pc s p)"
    and none: "\<And>a. calls_fine a \<Longrightarrow> zad3_next c a s = None"
  shows "all_ended s"
proof (rule ccontr)
  have ok: "zad3_next c (p, Succeeds) s = None" "zad3_next c (p, Reaps k) s = None" for p k
    using none [of "(p, Succeeds)"] none [of "(p, Reaps k)"] by (simp_all add: calls_fine_def)
  have free: "z_lock s = None"
  proof (cases "z_lock s")
    case (Some d)
    with lock ok(1) [of d] show ?thesis
      by (auto simp: in_lock_def zad3_next_def can_return_def zad3_child_next_def split: zad3_pc.splits app_pc.splits if_splits)
  qed
  let ?A = "{p. p < z_count s \<and> \<not> has_ended (z_pc s p)}"
  assume "\<not> all_ended s"
  then have "?A \<noteq> {}" by (auto simp: all_ended_def)
  then have max: "Max ?A \<in> ?A" "\<And>q. q \<in> ?A \<Longrightarrow> q \<le> Max ?A" by (rule Max_in [rotated], simp) (rule Max_ge, simp)
  define p where "p = Max ?A"
  have p: "p < z_count s" "\<not> has_ended (z_pc s p)" using max(1) by (simp_all add: p_def)
  have later: "has_ended (z_pc s q)" if "p < q" "q < z_count s" for q using max(2) [of q] that by (fastforce simp: p_def)
  show False
  proof (cases "z_pc s p")
    case No_Process
    with p(1) tree_invD(1) [OF inv, of p] show False by simp
  next
    case (In_Main m)
    show False
    proof (cases m)
      case (Z_Wait j)
      show False
      proof (cases "\<exists>k. waits_for p s k")
        case True
        then obtain k where k: "waits_for p s k" ..
        then have "has_ended (z_pc s k)" using later [of k] tree_invD(2) [OF inv, of k p] by (auto simp: waits_for_def)
        with k In_Main Z_Wait ok(2) [of p k] show False by (simp add: zad3_next_def can_return_def zad3_main_next_def split: if_splits)
      next
        case False
        with In_Main Z_Wait ok(1) [of p] show False by (auto simp: zad3_next_def can_return_def zad3_main_next_def list_ex_iff split: if_splits)
      qed
    qed (use In_Main p(2) ok(1) [of p] in \<open>auto simp: zad3_next_def can_return_def zad3_main_next_def has_ended_def split: if_splits\<close>)
  next
    case (In_Child a)
    with p(2) ok(1) [of p] free show False
      by (cases a) (auto simp: zad3_next_def can_return_def zad3_child_next_def has_ended_def split: if_splits)
  qed
qed

section \<open>The file\<close>

text \<open>What matters here of where a process is; a process that has not become \<open>child.out\<close> has not opened the file.\<close>

definition app_at :: "zad3 \<Rightarrow> nat \<Rightarrow> app_pc" where
  "app_at s p = (case z_pc s p of In_Child a \<Rightarrow> a | _ \<Rightarrow> A_Open)"

definition has_lock :: "app_pc \<Rightarrow> bool" where
  "has_lock a = (case a of A_Write _ \<Rightarrow> True | A_Unlock \<Rightarrow> True | _ \<Rightarrow> False)"

definition in_block :: "nat \<Rightarrow> app_pc \<Rightarrow> nat" where
  "in_block m a = (case a of A_Write j \<Rightarrow> j | A_Unlock \<Rightarrow> m | _ \<Rightarrow> 0)"

text \<open>
  \<open>t\<close> is what process \<open>p\<close> writes with \<open>j\<close> writes: beginnings of its line, and if no call fails
  (\<open>full\<close>) the whole line each time.
\<close>

definition pieces :: "zad3_cfg \<Rightarrow> bool \<Rightarrow> nat \<Rightarrow> nat \<Rightarrow> string \<Rightarrow> bool" where
  "pieces c full p j t \<longleftrightarrow> (\<exists>ls. length ls = j \<and> t = concat ls \<and>
     (\<forall>l\<in>set ls. prefix l (potomek_text (c_pid c p)) \<and> (full \<longrightarrow> l = potomek_text (c_pid c p))))"

lemma pieces_0 [simp]: "pieces c full p 0 t \<longleftrightarrow> t = []"
  by (auto simp: pieces_def)

lemma pieces_Suc:
  assumes "pieces c full p j t" "prefix l (potomek_text (c_pid c p))" "full \<longrightarrow> l = potomek_text (c_pid c p)"
  shows "pieces c full p (Suc j) (t @ l)"
proof -
  obtain ls where "length ls = j" "t = concat ls"
    "\<forall>l\<in>set ls. prefix l (potomek_text (c_pid c p)) \<and> (full \<longrightarrow> l = potomek_text (c_pid c p))"
    using assms(1) by (auto simp: pieces_def)
  with assms(2,3) show ?thesis unfolding pieces_def by (intro exI [of _ "ls @ [l]"]) auto
qed

lemma pieces_full: "pieces c True p j t \<longleftrightarrow> t = concat (replicate j (potomek_text (c_pid c p)))"
proof
  assume "pieces c True p j t"
  then obtain ls where "length ls = j" "t = concat ls" "\<forall>l\<in>set ls. l = potomek_text (c_pid c p)"
    by (auto simp: pieces_def)
  then show "t = concat (replicate j (potomek_text (c_pid c p)))" by (metis replicate_eqI)
next
  assume "t = concat (replicate j (potomek_text (c_pid c p)))"
  then show "pieces c True p j t"
    unfolding pieces_def by (intro exI [of _ "replicate j (potomek_text (c_pid c p))"]) auto
qed

lemma prefix_written: "prefix (written r l) l"
  by (auto simp: written_def take_is_prefix split: call.split)

text \<open>The closed blocks of the file, each with its process, and what the process with the lock has written.\<close>

definition file_inv :: "zad3_cfg \<Rightarrow> bool \<Rightarrow> zad3 \<Rightarrow> (nat \<times> string) list \<Rightarrow> string \<Rightarrow> bool" where
  "file_inv c full s bs cur \<longleftrightarrow> distinct (map fst bs)
     \<and> (\<forall>(p, t)\<in>set bs. app_at s p \<in> {A_Close, A_Exit 0, A_Exit 1} \<and> pieces c full p (c_m c) t)
     \<and> (\<forall>p. app_at s p \<in> {A_Close, A_Exit 0} \<longrightarrow> p \<in> fst ` set bs)
     \<and> (\<forall>p. has_lock (app_at s p) \<longleftrightarrow> z_lock s = Some p)
     \<and> (\<forall>p. in_block (c_m c) (app_at s p) \<le> c_m c)
     \<and> (case z_lock s of None \<Rightarrow> cur = [] | Some p \<Rightarrow> pieces c full p (in_block (c_m c) (app_at s p)) cur)
     \<and> (case z_file s of None \<Rightarrow> bs = [] \<and> z_lock s = None \<and> (\<forall>p. app_at s p \<in> {A_Open, A_Exit 1})
        | Some f \<Rightarrow> f = concat (map snd bs) @ cur)"

lemma app_at_simps [simp]:
  "app_at (s\<lparr>z_file := f\<rparr>) = app_at s" "app_at (s\<lparr>z_lock := l\<rparr>) = app_at s" "app_at (s\<lparr>z_out := out\<rparr>) = app_at s"
  by (simp_all add: app_at_def fun_eq_iff)

lemma app_at_goto [simp]: "app_at (goto p l s) = (app_at s)(p := (case l of In_Child a \<Rightarrow> a | _ \<Rightarrow> A_Open))"
  by (simp add: app_at_def fun_eq_iff)

lemma app_at_leave [simp]: "app_at (leave_child c p st s) = (app_at s)(p := A_Exit st)"
  by (simp add: app_at_def fun_eq_iff)

lemma file_inv_same:
  "app_at t = app_at s \<Longrightarrow> z_lock t = z_lock s \<Longrightarrow> z_file t = z_file s \<Longrightarrow> file_inv c full t bs cur = file_inv c full s bs cur"
  by (simp add: file_inv_def split: option.split)

lemma file_invD:
  assumes "file_inv c full s bs cur"
  shows "distinct (map fst bs)"
    "(p, t) \<in> set bs \<Longrightarrow> app_at s p \<in> {A_Close, A_Exit 0, A_Exit 1}" "(p, t) \<in> set bs \<Longrightarrow> pieces c full p (c_m c) t"
    "app_at s p \<in> {A_Close, A_Exit 0} \<Longrightarrow> p \<in> fst ` set bs"
    "has_lock (app_at s p) \<longleftrightarrow> z_lock s = Some p" "in_block (c_m c) (app_at s p) \<le> c_m c"
    "z_lock s = None \<Longrightarrow> cur = []" "z_lock s = Some p \<Longrightarrow> pieces c full p (in_block (c_m c) (app_at s p)) cur"
    "z_file s = None \<Longrightarrow> bs = [] \<and> z_lock s = None \<and> app_at s p \<in> {A_Open, A_Exit 1}"
    "z_file s = Some f \<Longrightarrow> f = concat (map snd bs) @ cur"
  using assms by (auto simp: file_inv_def)

lemma file_invI:
  assumes "distinct (map fst bs)" "\<And>p t. (p, t) \<in> set bs \<Longrightarrow> app_at s p \<in> {A_Close, A_Exit 0, A_Exit 1} \<and> pieces c full p (c_m c) t"
    "\<And>p. app_at s p \<in> {A_Close, A_Exit 0} \<Longrightarrow> p \<in> fst ` set bs"
    "\<And>p. has_lock (app_at s p) \<longleftrightarrow> z_lock s = Some p" "\<And>p. in_block (c_m c) (app_at s p) \<le> c_m c"
    "z_lock s = None \<Longrightarrow> cur = []" "\<And>p. z_lock s = Some p \<Longrightarrow> pieces c full p (in_block (c_m c) (app_at s p)) cur"
    "\<And>p. z_file s = None \<Longrightarrow> bs = [] \<and> z_lock s = None \<and> app_at s p \<in> {A_Open, A_Exit 1}"
    "\<And>f. z_file s = Some f \<Longrightarrow> f = concat (map snd bs) @ cur"
  shows "file_inv c full s bs cur"
  using assms by (auto simp: file_inv_def split: option.split)

lemma lock_simps [simp]:
  "\<not> has_lock A_Open" "\<not> has_lock A_Lock" "\<not> has_lock A_Close" "\<not> has_lock (A_Exit st)" "has_lock (A_Write j)" "has_lock A_Unlock"
  "in_block m A_Open = 0" "in_block m A_Lock = 0" "in_block m A_Close = 0" "in_block m (A_Exit st) = 0"
  "in_block m (A_Write j) = j" "in_block m A_Unlock = m"
  by (simp_all add: has_lock_def in_block_def)

text \<open>A process that neither has nor takes the lock moves.\<close>

lemma file_inv_move:
  assumes inv: "file_inv c full s bs cur" and t: "app_at t = (app_at s)(p := a)" "z_lock t = z_lock s"
    and l: "\<not> has_lock (app_at s p)" "\<not> has_lock a"
    and m: "app_at s p \<in> {A_Close, A_Exit 0, A_Exit 1} \<Longrightarrow> a \<in> {A_Close, A_Exit 0, A_Exit 1}"
      "a \<in> {A_Close, A_Exit 0} \<Longrightarrow> app_at s p = A_Close"
    and f: "z_file t = z_file s \<and> (z_file s = None \<longrightarrow> a \<in> {A_Open, A_Exit 1}) \<or> z_file s = None \<and> z_file t = Some []"
  shows "file_inv c full t bs cur"
proof -
  note i = file_invD [OF inv]
  have b: "in_block (c_m c) a = 0" using l(2) by (cases a) simp_all
  have np: "z_lock s \<noteq> Some p" using i(5) [of p] l(1) by simp
  show ?thesis
  proof (rule file_invI)
    show "app_at t q \<in> {A_Close, A_Exit 0, A_Exit 1} \<and> pieces c full q (c_m c) x" if "(q, x) \<in> set bs" for q x
      using i(2,3) [OF that] m(1) by (cases "q = p") (simp_all add: t)
    show "q \<in> fst ` set bs" if "app_at t q \<in> {A_Close, A_Exit 0}" for q
      using i(4) [of q] that m(2) by (cases "q = p") (simp_all add: t)
    show "has_lock (app_at t q) \<longleftrightarrow> z_lock t = Some q" for q using i(5) [of q] l(2) np by (simp add: t)
    show "in_block (c_m c) (app_at t q) \<le> c_m c" for q using i(6) [of q] b by (simp add: t)
    show "pieces c full q (in_block (c_m c) (app_at t q)) cur" if "z_lock t = Some q" for q
      using i(8) [of q] that np by (auto simp: t)
    show "bs = [] \<and> z_lock t = None \<and> app_at t q \<in> {A_Open, A_Exit 1}" if "z_file t = None" for q
      using i(9) [of q] that f by (auto simp: t)
    show "g = concat (map snd bs) @ cur" if "z_file t = Some g" for g
      using i(7,9,10) that f by auto
  qed (use i t in auto)
qed

lemma file_inv_start: "file_inv c full (zad3_start c None) [] []"
  by (simp add: file_inv_def zad3_start_def app_at_def has_lock_def in_block_def)

lemma main_keeps_file:
  assumes "zad3_main_next c p r m s = Some t" "z_pc s p = In_Main m" "z_pc s (z_count s) = No_Process"
  shows "app_at t = app_at s \<and> z_lock t = z_lock s \<and> z_file t = z_file s"
  using assms
  by (cases m) (auto simp: zad3_main_next_def app_at_def fork_process_def fun_eq_iff split: if_splits call.splits)

lemma child_file_inv:
  assumes step: "zad3_child_next c p r a s = Some t" and a: "app_at s p = a" and inv: "file_inv c full s bs cur"
    and fine: "full \<longrightarrow> calls_fine (p, r) \<and> (\<forall>k. r \<noteq> Reaps k)"
  shows "\<exists>bs cur. file_inv c full t bs cur"
proof -
  note i = file_invD [OF inv]
  show ?thesis
  proof (cases a)
    case A_Open
    then have "file_inv c full t bs cur"
      using step a by (intro file_inv_move [OF inv, of t p "app_at t p"]) (auto simp: zad3_child_next_def split: if_splits option.splits)
    then show ?thesis by blast
  next
    case A_Lock
    then have f: "z_file s \<noteq> None" using i(9) [of p] a by auto
    show ?thesis
    proof (cases "r = Succeeds")
      case True
      with step A_Lock have l: "z_lock s = None" "t = goto p (In_Child (A_Write 0)) (s\<lparr>z_lock := Some p\<rparr>)"
        by (auto simp: zad3_child_next_def split: if_splits)
      have "file_inv c full t bs []"
      proof (rule file_invI)
        show "app_at t q \<in> {A_Close, A_Exit 0, A_Exit 1} \<and> pieces c full q (c_m c) x" if "(q, x) \<in> set bs" for q x
          using i(2,3) [OF that] a A_Lock by (cases "q = p") (simp_all add: l(2))
      qed (use i l a A_Lock f in \<open>auto simp: l(2) split: if_splits\<close>)
      then show ?thesis by blast
    next
      case False
      with A_Lock step a f have "file_inv c full t bs cur"
        by (intro file_inv_move [OF inv, of t p "A_Exit 1"]) (auto simp: zad3_child_next_def split: if_splits)
      then show ?thesis by blast
    qed
  next
    case (A_Write j)
    then have l: "z_lock s = Some p" "j \<le> c_m c" using i(5,6) [of p] a by auto
    obtain f where f: "z_file s = Some f" using i(9) [of p] a A_Write by (cases "z_file s") auto
    have cur: "pieces c full p j cur" using i(8) [OF l(1)] a A_Write by simp
    have np: "x \<notin> set bs" if "fst x = p" for x using i(2) [of p "snd x"] a A_Write that by (cases x) auto
    define w where "w = (if j < c_m c then written r (potomek_text (c_pid c p)) else [])"
    have t: "app_at t = (app_at s)(p := if j < c_m c then A_Write (Suc j) else A_Unlock)" "z_lock t = Some p" "z_file t = Some (f @ w)"
      using step A_Write l f by (auto simp: zad3_child_next_def w_def split: if_splits)
    have "full \<longrightarrow> written r (potomek_text (c_pid c p)) = potomek_text (c_pid c p)"
      using fine by (auto simp: calls_fine_def written_def split: call.splits)
    then have "pieces c full p (in_block (c_m c) (app_at t p)) (cur @ w)"
      using pieces_Suc [OF cur prefix_written] cur l(2) by (auto simp: t(1) w_def)
    then have "file_inv c full t bs (cur @ w)"
      using i np l by (intro file_invI) (fastforce simp: t f split: if_splits)+
    then show ?thesis by blast
  next
    case A_Unlock
    then have l: "z_lock s = Some p" using i(5) [of p] a by auto
    obtain f where f: "z_file s = Some f" using i(9) [of p] a A_Unlock by (cases "z_file s") auto
    have cur: "pieces c full p (c_m c) cur" using i(8) [OF l(1)] a A_Unlock by simp
    have np: "p \<notin> fst ` set bs" using i(2) [of p] a A_Unlock by fastforce
    have t: "app_at t = (app_at s)(p := if r = Succeeds then A_Close else A_Exit 1)" "z_lock t = None" "z_file t = Some f"
      using step A_Unlock f by (auto simp: zad3_child_next_def)
    have "file_inv c full t (bs @ [(p, cur)]) []"
      using i np l cur by (intro file_invI) (fastforce simp: t f split: if_splits)+
    then show ?thesis by blast
  next
    case A_Close
    then have "z_file s \<noteq> None" using i(9) [of p] a by auto
    with A_Close step a have "file_inv c full t bs cur"
      by (intro file_inv_move [OF inv, of t p "A_Exit 0"]) (auto simp: zad3_child_next_def)
    then show ?thesis by blast
  qed (use step in \<open>simp add: zad3_child_next_def\<close>)
qed

lemma file_inv_step:
  assumes step: "zad3_next c (p, r) s = Some t" and tree: "tree_inv c s" and inv: "file_inv c full s bs cur"
    and fine: "full \<longrightarrow> calls_fine (p, r)"
  shows "\<exists>bs cur. file_inv c full t bs cur"
proof (cases "z_pc s p")
  case (In_Main m)
  have "app_at t = app_at s \<and> z_lock t = z_lock s \<and> z_file t = z_file s"
    by (rule main_keeps_file [OF zad3_nextD(2) [OF step In_Main] In_Main]) (simp add: tree_invD(1) [OF tree])
  with inv show ?thesis using file_inv_same [of t s c full bs cur] by blast
next
  case (In_Child a)
  then show ?thesis
    using zad3_nextD(3) [OF step In_Child] fine by (intro child_file_inv [OF _ _ inv]) (auto simp: app_at_def)
qed (use zad3_nextD(1) [OF step] in simp)

lemma file_lock: "file_inv c full s bs cur \<Longrightarrow> \<forall>p. z_lock s = Some p \<longrightarrow> in_lock (z_pc s p)"
  using file_invD(5) [of c full s bs cur]
  by (fastforce simp: in_lock_def has_lock_def app_at_def split: zad3_pc.splits app_pc.splits)

section \<open>Runs in which no call fails\<close>

definition fine_at :: "zad3_cfg \<Rightarrow> nat \<Rightarrow> zad3_pc \<Rightarrow> bool" where
  "fine_at c p l \<longleftrightarrow> (case l of
     No_Process \<Rightarrow> True
   | In_Main (Z_Exec _) \<Rightarrow> p \<noteq> 0
   | In_Main _ \<Rightarrow> p = 0
   | In_Child (A_Exit st) \<Rightarrow> p \<noteq> 0 \<and> st = 0
   | In_Child _ \<Rightarrow> p \<noteq> 0)"

text \<open>Only the first process forks, and every process it forks becomes \<open>child.out\<close>.\<close>

definition fine_inv :: "zad3_cfg \<Rightarrow> zad3 \<Rightarrow> bool" where
  "fine_inv c s \<longleftrightarrow> (\<forall>p. fine_at c p (z_pc s p)) \<and>
     z_count s = Suc (case z_pc s 0 of In_Main (Z_Fork i) \<Rightarrow> i | _ \<Rightarrow> c_n c)"

lemma fine_inv_step:
  assumes step: "zad3_next c (p, r) s = Some t" and tree: "tree_inv c s" and inv: "fine_inv c s" and fine: "calls_fine (p, r)"
  shows "fine_inv c t"
proof (cases "z_pc s p")
  case (In_Main m)
  note m = zad3_nextD(2) [OF step In_Main]
  have r: "r = Succeeds \<or> (\<exists>k j. r = Reaps k \<and> m = Z_Wait j)"
    using fine zad3_nextD(5) [OF step In_Main] by (auto simp: calls_fine_def split: call.splits)
  have n: "z_pc s (z_count s) = No_Process" "in_range c (In_Main m)"
    using tree_invD(1,4) [OF tree] In_Main by (simp, metis)
  have "fine_at c p (z_pc s p)" "0 < z_count s" using inv by (simp_all add: fine_inv_def)
  then have f: "fine_at c p (In_Main m)" "0 < z_count s" using In_Main by simp_all
  show ?thesis
  proof (cases m)
    case (Z_Fork i)
    then have "p = 0" "z_pc s 0 = In_Main (Z_Fork i)" "i \<le> c_n c" using f n In_Main by (auto simp: fine_at_def in_range_def)
    with m r Z_Fork inv f(2) show ?thesis
      by (auto simp: zad3_main_next_def fine_inv_def fork_process_def fine_at_def split: if_splits)
  next
    case (Z_Exec i)
    then have "p \<noteq> 0" using f by (simp add: fine_at_def)
    with m r Z_Exec inv show ?thesis by (auto simp: zad3_main_next_def fine_inv_def fine_at_def)
  next
    case (Z_Wait j)
    then have "p = 0" "z_pc s 0 = In_Main (Z_Wait j)" using f In_Main by (auto simp: fine_at_def)
    with m Z_Wait inv show ?thesis by (auto simp: zad3_main_next_def fine_inv_def fine_at_def split: if_splits call.splits)
  next
    case Z_Print
    then have "p = 0" "z_pc s 0 = In_Main Z_Print" using f In_Main by (auto simp: fine_at_def)
    with m Z_Print inv show ?thesis by (auto simp: zad3_main_next_def fine_inv_def fine_at_def)
  qed (use m in \<open>simp add: zad3_main_next_def\<close>)
next
  case (In_Child a)
  have c: "zad3_child_next c p r a s = Some t" "r = Succeeds"
    using zad3_nextD(3) [OF step In_Child] fine by (auto simp: calls_fine_def split: call.splits)
  have "fine_at c p (In_Child a)" using inv unfolding In_Child [symmetric] by (simp add: fine_inv_def)
  then have "p \<noteq> 0" by (simp add: fine_at_def split: app_pc.splits)
  with c inv show ?thesis by (cases a) (auto simp: zad3_child_next_def fine_inv_def fine_at_def split: if_splits)
qed (use zad3_nextD(1) [OF step] in simp)

section \<open>The whole program\<close>

definition zad3_ok :: "zad3_cfg \<Rightarrow> zad3 \<Rightarrow> bool" where
  "zad3_ok c s \<longleftrightarrow> tree_inv c s \<and> (\<exists>bs cur. file_inv c False s bs cur) \<and>
     (\<forall>p. count_list (z_out s) (Z_Rodzic p) = one_if (z_pc s p = In_Main Z_Done))"

lemma zad3_ok_step:
  assumes step: "zad3_next c a s = Some t" and ok: "zad3_ok c s"
  shows "zad3_ok c t" and "zad3_rank c t < zad3_rank c s"
proof -
  obtain p r where a: "a = (p, r)" by (cases a)
  obtain bs cur where i: "tree_inv c s" "file_inv c False s bs cur"
    "\<forall>p. count_list (z_out s) (Z_Rodzic p) = one_if (z_pc s p = In_Main Z_Done)"
    using ok by (auto simp: zad3_ok_def)
  note st = step [unfolded a]
  show "zad3_ok c t" using tree_inv_step [OF st i(1)] file_inv_step [OF st i(1,2)] rodzic_step [OF st i(3,1)]
    by (auto simp: zad3_ok_def)
  show "zad3_rank c t < zad3_rank c s" by (rule zad3_rank_less [OF st i(1)])
qed

lemma zad3_ok_stuck: "zad3_ok c s \<Longrightarrow> (\<And>a. calls_fine a \<Longrightarrow> zad3_next c a s = None) \<Longrightarrow> all_ended s"
  using zad3_stuck file_lock by (auto simp: zad3_ok_def)

interpretation family: ending_machine "zad3_next c" "zad3_ok c" "zad3_rank c" all_ended for c
proof unfold_locales
  fix s t a assume "zad3_ok c s" "zad3_next c a s = Some t"
  then show "zad3_ok c t" "zad3_rank c t < zad3_rank c s" using zad3_ok_step by blast+
qed (use zad3_ok_stuck in blast)

lemma zad3_ok_start: "zad3_ok c (zad3_start c None)"
proof -
  have "\<forall>p. count_list (z_out (zad3_start c None)) (Z_Rodzic p) = one_if (z_pc (zad3_start c None) p = In_Main Z_Done)"
    by (simp add: zad3_start_def usage_text_def)
  then show ?thesis unfolding zad3_ok_def using tree_inv_start file_inv_start by blast
qed

text \<open>At the end nobody has the lock, and the file is made of closed blocks.\<close>

lemma ended_blocks:
  assumes f: "file_inv c full s bs cur" and e: "all_ended s" and tree: "tree_inv c s"
  shows "case z_file s of None \<Rightarrow> bs = [] | Some f \<Rightarrow> f = concat (map snd bs)"
    and "(p, t) \<in> set bs \<Longrightarrow> p < z_count s"
    and "{p. z_pc s p = In_Child (A_Exit 0)} \<subseteq> fst ` set bs"
proof -
  note i = file_invD [OF f]
  have over: "z_pc s p = No_Process \<or> has_ended (z_pc s p)" for p
    using e tree_invD(1) [OF tree, of p] by (auto simp: all_ended_def not_le)
  have "\<not> has_lock (app_at s p)" for p
    using over [of p] by (auto simp: app_at_def has_ended_def split: zad3_pc.splits main_pc.splits app_pc.splits)
  then have "z_lock s = None" using i(5) by (cases "z_lock s") auto
  with i(7,9,10) show "case z_file s of None \<Rightarrow> bs = [] | Some f \<Rightarrow> f = concat (map snd bs)"
    by (auto split: option.split)
  show "p < z_count s" if "(p, t) \<in> set bs"
  proof -
    have "z_pc s p \<noteq> No_Process" using i(2) [OF that] by (auto simp: app_at_def)
    then show ?thesis using tree_invD(1) [OF tree, of p] by simp
  qed
  show "{p. z_pc s p = In_Child (A_Exit 0)} \<subseteq> fst ` set bs" using i(4) by (auto simp: app_at_def)
qed

text \<open>What the file is made of: blocks of different processes, which have each process that ended normally.\<close>

definition made_of :: "zad3 \<Rightarrow> (nat \<times> string) list \<Rightarrow> bool" where
  "made_of s bs \<longleftrightarrow> distinct (map fst bs) \<and> fst ` set bs \<subseteq> {..<z_count s} \<and>
     {p. z_pc s p = In_Child (A_Exit 0)} \<subseteq> fst ` set bs \<and>
     (case z_file s of None \<Rightarrow> bs = [] | Some f \<Rightarrow> f = concat (map snd bs))"

lemma made_of_ended:
  assumes "file_inv c full s bs cur" "all_ended s" "tree_inv c s"
  shows "made_of s bs" and "\<forall>(p, t) \<in> set bs. pieces c full p (c_m c) t"
  using ended_blocks [OF assms] file_invD(1,3) [OF assms(1)] by (auto simp: made_of_def)

lemma fine_run:
  assumes run: "run_acts (zad3_next c) as (zad3_start c None) = Some s" and fine: "\<forall>a \<in> set as. calls_fine a"
  shows "tree_inv c s \<and> fine_inv c s \<and> (\<exists>bs cur. file_inv c True s bs cur)"
  using run
proof (induction rule: run_acts_induct)
  case start
  have "fine_inv c (zad3_start c None)" by (simp add: fine_inv_def fine_at_def zad3_start_def)
  then show ?case using tree_inv_start file_inv_start by blast
next
  case (step a u v)
  obtain p r where a: "a = (p, r)" by (cases a)
  have f: "calls_fine (p, r)" using fine step.hyps a by simp
  note st = \<open>zad3_next c a u = Some v\<close> [unfolded a]
  from step.IH f show ?case using tree_inv_step [OF st] fine_inv_step [OF st] file_inv_step [OF st, where full = True] by blast
qed

text \<open>A run without a failure that has come to its end.\<close>

lemma fine_end:
  assumes run: "run_acts (zad3_next c) as (zad3_start c None) = Some s" and fine: "\<forall>a \<in> set as. calls_fine a"
    and over: "all_ended s"
  obtains bs where "z_count s = Suc (c_n c)" "z_pc s 0 = In_Main Z_Done" "\<forall>p \<in> {1..c_n c}. z_pc s p = In_Child (A_Exit 0)"
    "made_of s bs" "fst ` set bs = {1..c_n c}" "\<forall>(p, t) \<in> set bs. t = concat (replicate (c_m c) (potomek_text (c_pid c p)))"
proof -
  obtain bs cur where i: "tree_inv c s" "fine_inv c s" "file_inv c True s bs cur" using fine_run [OF run fine] by blast
  have e: "has_ended (z_pc s p)" "fine_at c p (z_pc s p)" if "p < z_count s" for p
    using over i(2) that by (simp_all add: all_ended_def fine_inv_def)
  have "0 < z_count s" using i(2) by (simp add: fine_inv_def)
  then have main: "z_pc s 0 = In_Main Z_Done"
    using e [of 0] by (auto simp: has_ended_def fine_at_def split: zad3_pc.splits main_pc.splits app_pc.splits)
  then have n: "z_count s = Suc (c_n c)" using i(2) by (simp add: fine_inv_def)
  have kid: "z_pc s p = In_Child (A_Exit 0)" if "p \<in> {1..c_n c}" for p
    using e [of p] that n by (auto simp: has_ended_def fine_at_def split: zad3_pc.splits main_pc.splits app_pc.splits)
  note m = made_of_ended [OF i(3) over i(1)]
  have "app_at s 0 = A_Open" using main by (simp add: app_at_def)
  then have "(0, t) \<notin> set bs" for t using file_invD(2) [OF i(3), of 0 t] by auto
  then have "0 \<notin> fst ` set bs" by auto
  moreover have "fst ` set bs \<subseteq> {..<Suc (c_n c)}" "{p. z_pc s p = In_Child (A_Exit 0)} \<subseteq> fst ` set bs"
    using m(1) n by (simp_all add: made_of_def)
  ultimately have "fst ` set bs \<subseteq> {1..c_n c}" by (force simp: less_Suc_eq_le Suc_le_eq intro: gr0I)
  moreover have "{1..c_n c} \<subseteq> fst ` set bs" using kid \<open>{p. z_pc s p = In_Child (A_Exit 0)} \<subseteq> fst ` set bs\<close> by blast
  ultimately have "fst ` set bs = {1..c_n c}" ..
  with that [of bs] main n kid m show thesis by (simp add: pieces_full case_prod_unfold)
qed


lemma ended_no_step:
  assumes "zad3_ok c s" "all_ended s"
  shows "zad3_next c a s = None"
proof -
  obtain p r where a: "a = (p, r)" by (cases a)
  have "z_pc s p = No_Process \<or> has_ended (z_pc s p)"
    using assms tree_invD(1) [of c s p] by (auto simp: zad3_ok_def all_ended_def not_le)
  then show ?thesis
    by (auto simp: a zad3_next_def has_ended_def zad3_main_next_def zad3_child_next_def split: zad3_pc.splits main_pc.splits app_pc.splits)
qed

text \<open>Two children; the second gets the lock first.\<close>

definition two_writers :: "(nat \<times> call) list" where
  "two_writers = replicate 3 (0, Succeeds) @ [(1, Succeeds), (2, Succeeds), (1, Succeeds)] @
     replicate 7 (2, Succeeds) @ replicate 6 (1, Succeeds) @ [(0, Reaps 1), (0, Reaps 2), (0, Succeeds), (0, Succeeds)]"

definition two_cfg :: zad3_cfg where
  "two_cfg = \<lparr>c_tty = True, c_n = 2, c_m = 2, c_usage = False, c_kid_usage = False, c_pid = (\<lambda>p. 100 + p)\<rparr>"

lemma two_writers_result:
  "case run_acts (zad3_next two_cfg) two_writers (zad3_start two_cfg None) of None \<Rightarrow> False
   | Some s \<Rightarrow> z_count s = 3 \<and> list_all (\<lambda>p. has_ended (z_pc s p)) [0..<3] \<and>
       z_file s = Some (concat (map potomek_text [102, 102, 101, 101]))"
  by code_simp


end
