(* ===== verification/Lab2.thy ===== *)
theory Lab2
  imports CLib
begin

text \<open>
  lab2: the programs that count to twenty and send themselves SIGUSR1.  Signals are
  modelled as POSIX describes them for one process: a disposition per signal, a set of
  blocked and a set of pending signals; a blocked signal becomes pending, unblocking
  delivers it before the call returns.  zad1 is one process; in zad2 and zad3 the parent
  sends the mode with SIGUSR2 and the child waits for it.
\<close>

section \<open>Signals of one process\<close>

datatype signo = SIGUSR1 | SIGUSR2

primrec signo_number :: "signo \<Rightarrow> nat" where
  "signo_number SIGUSR1 = 10"
| "signo_number SIGUSR2 = 12"

datatype disposition = SigDfl | SigIgn | SigCustom | SigUsr2

datatype status = Running | KilledBy signo | Exited nat

datatype event = Count nat | Sending | Unblocking | Handled "char list" | Complete | Improper | Usage | Perror

record sigproc =
  disp :: "signo \<Rightarrow> disposition"
  blocked :: "signo set"
  pending :: "signo set"
  received_mode :: int
  stat :: status
  out :: "event list"

text \<open>The message with its two last stars replaced by the digits of the signal number.\<close>

definition handler_msg :: "nat \<Rightarrow> char list" where
  "handler_msg n =
     (let msg = ''Wywo'' @ [CHR 0xC5, CHR 0x82] @ ''ano handler dla sygna'' @ [CHR 0xC5, CHR 0x82] @ ''u **'' @ [CHR 0x0A];
          len = length msg
      in msg[len - 2 := char_of (48 + n mod 10), len - 3 := char_of (48 + n div 10)])"

definition emit :: "event \<Rightarrow> sigproc \<Rightarrow> sigproc" where
  "emit e s = s\<lparr>out := out s @ [e]\<rparr>"

text \<open>
  Delivery: the default action of both signals ends the process.  \<open>v\<close> is the value sent
  with the signal; \<open>usr2_handler\<close> stores it, \<open>custom_handler\<close> writes its message.
\<close>

definition deliver :: "signo \<Rightarrow> int \<Rightarrow> sigproc \<Rightarrow> sigproc" where
  "deliver k v s = (case disp s k of
     SigDfl \<Rightarrow> s\<lparr>stat := KilledBy k\<rparr>
   | SigIgn \<Rightarrow> s
   | SigCustom \<Rightarrow> emit (Handled (handler_msg (signo_number k))) s
   | SigUsr2 \<Rightarrow> s\<lparr>received_mode := v\<rparr>)"

definition send_signal :: "signo \<Rightarrow> int \<Rightarrow> sigproc \<Rightarrow> sigproc" where
  "send_signal k v s = (if k \<in> blocked s then s\<lparr>pending := insert k (pending s)\<rparr> else deliver k v s)"

datatype sig_call = CSigaction signo | CBlock | CUnblock | CPending | CDlopen | CDlsym

definition exit_failure :: "sigproc \<Rightarrow> sigproc" where
  "exit_failure s = emit Perror s\<lparr>stat := Exited 1\<rparr>"

definition set_action :: "(sig_call \<Rightarrow> bool) \<Rightarrow> disposition \<Rightarrow> signo \<Rightarrow> sigproc \<Rightarrow> sigproc" where
  "set_action refused d k s =
     (if refused (CSigaction k) then exit_failure s
      else s\<lparr>disp := (disp s)(k := d), pending := (if d = SigIgn then pending s - {k} else pending s)\<rparr>)"

definition sig_default where "sig_default refused = set_action refused SigDfl"
definition sig_ignore where "sig_ignore refused = set_action refused SigIgn"
definition sig_handle where "sig_handle refused = set_action refused SigCustom"
definition initialize_usr2_handling where "initialize_usr2_handling refused = set_action refused SigUsr2 SIGUSR2"

definition sig_mask :: "(sig_call \<Rightarrow> bool) \<Rightarrow> signo \<Rightarrow> sigproc \<Rightarrow> sigproc" where
  "sig_mask refused k s = (if refused CBlock then exit_failure s else s\<lparr>blocked := insert k (blocked s)\<rparr>)"

definition sig_unblock :: "(sig_call \<Rightarrow> bool) \<Rightarrow> signo \<Rightarrow> sigproc \<Rightarrow> sigproc" where
  "sig_unblock refused k s =
     (if refused CUnblock then exit_failure s
      else (let s' = s\<lparr>blocked := blocked s - {k}\<rparr>
            in if k \<in> pending s then deliver k 0 (s'\<lparr>pending := pending s - {k}\<rparr>) else s'))"

section \<open>The program\<close>

text \<open>\<open>parse_input\<close>: the letter of the mode, or \<open>None\<close> when the program exits with the usage.\<close>

definition parse_input :: "string list \<Rightarrow> char option" where
  "parse_input argv =
     (if length argv \<noteq> 2 then None
      else if c_strcmp_eq (argv ! 1) ''default'' then Some CHR ''d''
      else if c_strcmp_eq (argv ! 1) ''mask'' then Some CHR ''m''
      else if c_strcmp_eq (argv ! 1) ''ignore'' then Some CHR ''i''
      else if c_strcmp_eq (argv ! 1) ''handle'' then Some CHR ''h''
      else None)"

definition mode_setup :: "(sig_call \<Rightarrow> bool) \<Rightarrow> char \<Rightarrow> sigproc \<Rightarrow> sigproc" where
  "mode_setup refused mode s =
     (if mode = CHR ''d'' then sig_default refused SIGUSR1 s
      else if mode = CHR ''m'' then sig_mask refused SIGUSR1 s
      else if mode = CHR ''i'' then sig_ignore refused SIGUSR1 s
      else if mode = CHR ''h'' then sig_handle refused SIGUSR1 s
      else emit Improper s)"

text \<open>zad3 with USE_DYNAMIC: the function is looked up in the library at run time.\<close>

definition mode_setup_dynamic :: "(sig_call \<Rightarrow> bool) \<Rightarrow> char \<Rightarrow> sigproc \<Rightarrow> sigproc" where
  "mode_setup_dynamic refused mode s =
     (case (if mode = CHR ''d'' then Some sig_default else if mode = CHR ''m'' then Some sig_mask
            else if mode = CHR ''i'' then Some sig_ignore else if mode = CHR ''h'' then Some sig_handle else None) of
        None \<Rightarrow> emit Improper s\<lparr>stat := Exited 1\<rparr>
      | Some handler_func \<Rightarrow>
          if refused CDlopen then exit_failure s
          else if refused CDlsym then exit_failure s
          else handler_func refused SIGUSR1 s)"

text \<open>The loop from \<open>i\<close> to 20; a process that has ended executes nothing more.\<close>

definition count_body :: "(sig_call \<Rightarrow> bool) \<Rightarrow> nat \<Rightarrow> sigproc \<Rightarrow> sigproc" where
  "count_body refused i s =
     (let s = emit (Count i) s in
      if i = 5 \<or> i = 15 then send_signal SIGUSR1 0 (emit Sending s)
      else if i = 10 then
        (if refused CPending then exit_failure s
         else if SIGUSR1 \<in> pending s then sig_unblock refused SIGUSR1 (emit Unblocking s) else s)
      else s)"

function count_loop :: "(sig_call \<Rightarrow> bool) \<Rightarrow> nat \<Rightarrow> sigproc \<Rightarrow> sigproc" where
  "count_loop refused i s =
     (if stat s \<noteq> Running then s
      else if i \<le> 20 then count_loop refused (i + 1) (count_body refused i s)
      else emit Complete s\<lparr>stat := Exited 0\<rparr>)"
  by pat_completeness auto
termination by (relation "measure (\<lambda>(r, i, s). 21 - i)") auto

declare count_loop.simps [simp del]

definition zad1_main :: "(sig_call \<Rightarrow> bool) \<Rightarrow> string list \<Rightarrow> sigproc \<Rightarrow> sigproc" where
  "zad1_main refused argv s = (case parse_input argv of
     None \<Rightarrow> emit Usage s\<lparr>stat := Exited 1\<rparr>
   | Some mode \<Rightarrow> count_loop refused 1 (mode_setup refused mode s))"

section \<open>The child of zad2 and zad3\<close>

datatype child_pc = WInit | WTest | WCallPause | WPaused | WSetup | WDone

text \<open>
  \<open>Step\<close>: the next statement; the count that follows the set-up is one step, since only
  the mode matters to it.  \<open>Usr2 v\<close>: the parent's \<open>sigqueue\<close> arrives.
\<close>

datatype child_input = Step | Usr2 int

record child =
  c_proc :: sigproc
  w_pc :: child_pc

definition mode_char :: "int \<Rightarrow> char" where
  "mode_char v = char_of (nat (v mod 256))"

definition child_step :: "(sig_call \<Rightarrow> bool) \<Rightarrow> ((sig_call \<Rightarrow> bool) \<Rightarrow> char \<Rightarrow> sigproc \<Rightarrow> sigproc) \<Rightarrow>
    child_input \<Rightarrow> child \<Rightarrow> child option" where
  "child_step refused prep x c =
     (if stat (c_proc c) \<noteq> Running then None
      else case x of
        Usr2 v \<Rightarrow> (let p = send_signal SIGUSR2 v (c_proc c)
                   in Some (c\<lparr>c_proc := p, w_pc := (if w_pc c = WPaused then WTest else w_pc c)\<rparr>))
      | Step \<Rightarrow> (case w_pc c of
          WInit \<Rightarrow> Some (c\<lparr>c_proc := initialize_usr2_handling refused (c_proc c), w_pc := WTest\<rparr>)
        | WTest \<Rightarrow> Some (c\<lparr>w_pc := if received_mode (c_proc c) = 0 then WCallPause else WSetup\<rparr>)
        | WCallPause \<Rightarrow> Some (c\<lparr>w_pc := WPaused\<rparr>)
        | WPaused \<Rightarrow> None
        | WSetup \<Rightarrow> Some (c\<lparr>c_proc := count_loop refused 1
                           (prep refused (mode_char (received_mode (c_proc c))) (c_proc c)), w_pc := WDone\<rparr>)
        | WDone \<Rightarrow> None))"

text \<open>
  The three programs: zad2 and statically linked zad3 have the same text, zad3 with
  USE_DYNAMIC finds the function of the mode in the library.
\<close>

definition zad2_child where "zad2_child refused = child_step refused mode_setup"
definition zad3_child_static where "zad3_child_static refused = child_step refused mode_setup"
definition zad3_child_dynamic where "zad3_child_dynamic refused = child_step refused mode_setup_dynamic"

abbreviation child_run :: "(child_input \<Rightarrow> child \<Rightarrow> child option) \<Rightarrow> child_input list \<Rightarrow> child \<Rightarrow> child option" where
  "child_run \<equiv> run_acts"

text \<open>A process after \<open>exec\<close>: default actions, nothing blocked or pending.\<close>

definition fresh_proc :: sigproc where
  "fresh_proc = \<lparr>disp = (\<lambda>_. SigDfl), blocked = {}, pending = {}, received_mode = 0, stat = Running, out = []\<rparr>"

definition child_init :: child where
  "child_init = \<lparr>c_proc = fresh_proc, w_pc = WInit\<rparr>"

text \<open>The parent of zad2 and zad3: it queues the letter of the mode to the child and waits for it.\<close>

datatype par_call = RFork | RSigqueue

datatype parent_event = PUsage | PForkFailed | PSleep | PQueue int | PKillChild | PWait | PExit nat

definition parent_main :: "(par_call \<Rightarrow> bool) \<Rightarrow> string list \<Rightarrow> parent_event list" where
  "parent_main refused argv = (case parse_input argv of
     None \<Rightarrow> [PUsage, PExit 1]
   | Some mode \<Rightarrow>
       if refused RFork then [PForkFailed, PExit 1]
       else PSleep # (if refused RSigqueue then [PKillChild, PExit 1]
                      else [PQueue (int (of_char mode)), PWait, PExit 0]))"

text \<open>
  \<open>zad3/main.c\<close> starts the program at \<open>CHILD_PATH\<close>, which the build may set.  What the
  new process becomes: that program, or an exit with a failure when \<open>execl\<close> returns.
\<close>

definition CHILD_PATH :: string where "CHILD_PATH = ''./child.out''"

definition zad3_forked :: "bool \<Rightarrow> string \<Rightarrow> nat + string" where
  "zad3_forked exec_ok path = (if exec_ok then Inr path else Inl 1)"

definition zad3_parse_input :: "string list \<Rightarrow> char option" where
  "zad3_parse_input argv =
     (if length argv \<noteq> 2 then None
      else map_of [(''default'', CHR ''d''), (''mask'', CHR ''m''), (''ignore'', CHR ''i''), (''handle'', CHR ''h'')]
             (cstr (argv ! 1)))"

definition zad3_parent :: "(par_call \<Rightarrow> bool) \<Rightarrow> string list \<Rightarrow> parent_event list" where
  "zad3_parent refused argv = (case zad3_parse_input argv of
     None \<Rightarrow> [PUsage, PExit 1]
   | Some mode \<Rightarrow>
       (let value = int (of_char mode)
        in if refused RFork then [PForkFailed, PExit 1]
           else if refused RSigqueue then [PSleep, PKillChild, PExit 1]
           else [PSleep, PQueue value, PWait, PExit 0]))"

lemma zad3_parse_input_same: "zad3_parse_input argv = parse_input argv"
  by (simp add: zad3_parse_input_def parse_input_def c_strcmp_eq_def cstr_def)

lemma zad3_parent_same: "zad3_parent refused argv = parent_main refused argv"
  by (simp add: zad3_parent_def parent_main_def zad3_parse_input_same Let_def split: option.split)

section \<open>What each mode does\<close>

text \<open>What the programs are expected to print and how they end, for each mode.\<close>

definition expected :: "char \<Rightarrow> event list \<times> status" where
  "expected mode =
     (let five = map Count [1..<6] @ [Sending]; ten = map Count [6..<11];
          rest = map Count [11..<16] @ [Sending]; tail = map Count [16..<21] @ [Complete];
          hd = [Handled (handler_msg 10)]
      in if mode = CHR ''d'' then (five, KilledBy SIGUSR1)
         else if mode = CHR ''m'' then (five @ ten @ [Unblocking], KilledBy SIGUSR1)
         else if mode = CHR ''i'' then (five @ ten @ rest @ tail, Exited 0)
         else (five @ hd @ ten @ rest @ hd @ tail, Exited 0))"

definition none_refused :: "sig_call \<Rightarrow> bool" where "none_refused = (\<lambda>_. False)"

lemmas program_defs = count_body_def send_signal_def deliver_def sig_unblock_def emit_def Let_def

lemma none_refused [simp]: "none_refused c = False"
  by (simp add: none_refused_def)

text \<open>Iterations without a signal.\<close>

lemma count_loop_plain:
  "stat s = Running \<Longrightarrow> i \<le> j \<Longrightarrow> j \<le> 21 \<Longrightarrow> (\<forall>k. i \<le> k \<and> k < j \<longrightarrow> k \<noteq> 5 \<and> k \<noteq> 10 \<and> k \<noteq> 15) \<Longrightarrow>
   count_loop r i s = count_loop r j (s\<lparr>out := out s @ map Count [i..<j]\<rparr>)"
proof (induction "j - i" arbitrary: i s)
  case 0
  then show ?case by simp
next
  case (Suc n)
  then have i: "i < j" by simp
  have b: "count_body r i s = s\<lparr>out := out s @ [Count i]\<rparr>"
    using Suc.prems i by (simp add: count_body_def emit_def Let_def)
  have "count_loop r i s = count_loop r (i + 1) (s\<lparr>out := out s @ [Count i]\<rparr>)"
    using Suc.prems i b by (subst count_loop.simps) simp
  also have "\<dots> = count_loop r j (s\<lparr>out := (out s @ [Count i]) @ map Count [i + 1..<j]\<rparr>)"
    using Suc.hyps(1) [of "i + 1" "s\<lparr>out := out s @ [Count i]\<rparr>"] Suc.hyps(2) Suc.prems i by simp
  also have "(out s @ [Count i]) @ map Count [i + 1..<j] = out s @ map Count [i..<j]"
    using i by (simp add: upt_conv_Cons)
  finally show ?case .
qed

lemma count_loop_ended: "stat s \<noteq> Running \<Longrightarrow> count_loop r i s = s"
  by (subst count_loop.simps) simp

lemma count_loop_step: "stat s = Running \<Longrightarrow> i \<le> 20 \<Longrightarrow> count_loop r i s = count_loop r (i + 1) (count_body r i s)"
  by (subst count_loop.simps) simp

lemma count_loop_end: "stat s = Running \<Longrightarrow> count_loop r 21 s = emit Complete s\<lparr>stat := Exited 0\<rparr>"
  by (subst count_loop.simps) simp

lemma count_loop_seg:
  assumes "stat s = Running" "i \<le> j" "j \<le> 20" "\<forall>k. i \<le> k \<and> k < j \<longrightarrow> k \<noteq> 5 \<and> k \<noteq> 10 \<and> k \<noteq> 15"
  shows "count_loop r i s = count_loop r (j + 1) (count_body r j (s\<lparr>out := out s @ map Count [i..<j]\<rparr>))"
proof -
  have "count_loop r i s = count_loop r j (s\<lparr>out := out s @ map Count [i..<j]\<rparr>)"
    by (rule count_loop_plain) (use assms in simp_all)
  also have "\<dots> = count_loop r (j + 1) (count_body r j (s\<lparr>out := out s @ map Count [i..<j]\<rparr>))"
    by (rule count_loop_step) (use assms in simp_all)
  finally show ?thesis .
qed

text \<open>The whole count of a process that starts it running with SIGUSR1 neither pending nor blocked.\<close>

definition after_five :: "sigproc \<Rightarrow> sigproc" where
  "after_five s = count_body none_refused 5 (s\<lparr>out := out s @ map Count [1..<5]\<rparr>)"

definition after_ten :: "sigproc \<Rightarrow> sigproc" where
  "after_ten s = count_body none_refused 10 (s\<lparr>out := out s @ map Count [6..<10]\<rparr>)"

definition after_fifteen :: "sigproc \<Rightarrow> sigproc" where
  "after_fifteen s = count_body none_refused 15 (s\<lparr>out := out s @ map Count [11..<15]\<rparr>)"

lemma count_loop_1:
  assumes "stat s = Running"
  shows "count_loop none_refused 1 s = count_loop none_refused 6 (after_five s)"
proof -
  have "\<forall>k::nat. 1 \<le> k \<and> k < 5 \<longrightarrow> k \<noteq> 5 \<and> k \<noteq> 10 \<and> k \<noteq> 15" by auto
  from count_loop_seg [OF assms _ _ this, of none_refused] show ?thesis
    unfolding after_five_def by (simp only: one_le_numeral numeral_le_iff semiring_norm simp_thms)
qed

lemma count_loop_6:
  assumes "stat s = Running"
  shows "count_loop none_refused 6 s = count_loop none_refused 11 (after_ten s)"
proof -
  have "\<forall>k::nat. 6 \<le> k \<and> k < 10 \<longrightarrow> k \<noteq> 5 \<and> k \<noteq> 10 \<and> k \<noteq> 15" by auto
  from count_loop_seg [OF assms _ _ this, of none_refused] show ?thesis
    unfolding after_ten_def by (simp only: numeral_le_iff semiring_norm simp_thms)
qed

lemma count_loop_11:
  assumes "stat s = Running"
  shows "count_loop none_refused 11 s = count_loop none_refused 16 (after_fifteen s)"
proof -
  have "\<forall>k::nat. 11 \<le> k \<and> k < 15 \<longrightarrow> k \<noteq> 5 \<and> k \<noteq> 10 \<and> k \<noteq> 15" by auto
  from count_loop_seg [OF assms _ _ this, of none_refused] show ?thesis
    unfolding after_fifteen_def by (simp only: numeral_le_iff semiring_norm simp_thms)
qed

lemma count_loop_16:
  assumes "stat s = Running"
  shows "count_loop none_refused 16 s = s\<lparr>out := out s @ map Count [16..<21] @ [Complete], stat := Exited 0\<rparr>"
proof -
  have "count_loop none_refused 16 s = count_loop none_refused 21 (s\<lparr>out := out s @ map Count [16..<21]\<rparr>)"
    by (rule count_loop_plain) (use assms in auto)
  also have "\<dots> = emit Complete (s\<lparr>out := out s @ map Count [16..<21]\<rparr>)\<lparr>stat := Exited 0\<rparr>"
    by (rule count_loop_end) (use assms in simp)
  finally show ?thesis by (simp only: emit_def) simp
qed

lemmas count_loops = count_loop_1 count_loop_6 count_loop_11 count_loop_16 count_loop_ended

definition ready :: "sigproc \<Rightarrow> bool" where
  "ready s \<longleftrightarrow> stat s = Running \<and> out s = [] \<and> disp s SIGUSR1 = SigDfl \<and>
     SIGUSR1 \<notin> blocked s \<and> SIGUSR1 \<notin> pending s"

lemma parse_input_modes: "parse_input argv = Some m \<Longrightarrow> m \<in> {CHR ''d'', CHR ''m'', CHR ''i'', CHR ''h''}"
  by (auto simp: parse_input_def split: if_splits)

lemma mode_outcome:
  assumes "ready s" "m \<in> {CHR ''d'', CHR ''m'', CHR ''i'', CHR ''h''}"
  shows "(let t = count_loop none_refused 1 (mode_setup none_refused m s) in (out t, stat t)) = expected m"
proof -
  have u: "map Count [1..<5] @ [Count 5] = map Count [1..<6]" "map Count [6..<10] @ [Count 10] = map Count [6..<11]"
    "map Count [11..<15] @ [Count 15] = map Count [11..<16]" by (simp_all add: upt_rec)
  note d = mode_setup_def sig_default_def sig_mask_def sig_ignore_def sig_handle_def set_action_def
    after_five_def after_ten_def after_fifteen_def program_defs expected_def ready_def
  consider "m = CHR ''d''" | "m = CHR ''m''" | "m = CHR ''i''" | "m = CHR ''h''" using assms(2) by auto
  then show ?thesis
  proof cases
    case 1
    with assms(1) show ?thesis by (simp add: d count_loops u [symmetric] del: One_nat_def)
  next
    case 2
    with assms(1) show ?thesis by (simp add: d count_loops u [symmetric] del: One_nat_def)
  next
    case 3
    with assms(1) show ?thesis by (simp add: d count_loops u [symmetric] del: One_nat_def)
  next
    case 4
    with assms(1) show ?thesis by (simp add: d count_loops u [symmetric] del: One_nat_def)
  qed
qed

lemma mode_setup_dynamic_same:
  "m \<in> {CHR ''d'', CHR ''m'', CHR ''i'', CHR ''h''} \<Longrightarrow>
   mode_setup_dynamic none_refused m s = mode_setup none_refused m s"
  by (auto simp: mode_setup_dynamic_def mode_setup_def)

section \<open>The child's invariant\<close>

text \<open>
  What a child can be when every SIGUSR2 it gets carries \<open>v\<close>: untouched, waiting with
  mode 0 or \<open>v\<close>, setting up with \<open>v\<close>, done with the outcome of the mode, or ended early.
\<close>

definition waiting_proc :: "int \<Rightarrow> sigproc" where
  "waiting_proc m = fresh_proc\<lparr>disp := (disp fresh_proc)(SIGUSR2 := SigUsr2), received_mode := m\<rparr>"

definition child_inv :: "int \<Rightarrow> char \<Rightarrow> child \<Rightarrow> bool" where
  "child_inv v m c \<longleftrightarrow> (case w_pc c of
     WInit \<Rightarrow> c_proc c = fresh_proc \<or> stat (c_proc c) \<noteq> Running
   | WSetup \<Rightarrow> c_proc c = waiting_proc v
   | WDone \<Rightarrow> (out (c_proc c), stat (c_proc c)) = expected m
   | _ \<Rightarrow> c_proc c = waiting_proc 0 \<or> c_proc c = waiting_proc v)"

lemma waiting_ready: "ready (waiting_proc v)"
  by (simp add: ready_def waiting_proc_def fresh_proc_def)

lemma usr2_waiting: "send_signal SIGUSR2 v (waiting_proc m) = waiting_proc v"
  by (simp add: send_signal_def deliver_def waiting_proc_def fresh_proc_def)

lemma waiting_running [simp]: "stat (waiting_proc m) = Running" "received_mode (waiting_proc m) = m"
  by (simp_all add: waiting_proc_def fresh_proc_def)

lemma child_step_inv:
  assumes "child_step none_refused prep x c = Some c'" "child_inv v m c" "x \<in> {Step, Usr2 v}"
    and v: "v \<noteq> 0" "mode_char v = m" and m: "m \<in> {CHR ''d'', CHR ''m'', CHR ''i'', CHR ''h''}"
    and prep: "\<And>s. prep none_refused m s = mode_setup none_refused m s"
  shows "child_inv v m c'"
proof -
  have run: "stat (c_proc c) = Running" using assms(1) by (auto simp: child_step_def split: if_splits)
  have ended: "stat (snd_proc) \<noteq> Running" if "(o', stat snd_proc) = expected m" for o' snd_proc
    using that m by (auto simp: expected_def Let_def)
  show ?thesis
  proof (cases x)
    case (Usr2 w)
    then have c': "c' = c\<lparr>c_proc := send_signal SIGUSR2 v (c_proc c),
        w_pc := (if w_pc c = WPaused then WTest else w_pc c)\<rparr>"
      using assms(1,3) run by (auto simp: child_step_def Let_def)
    show ?thesis
    proof (cases "w_pc c")
      case WInit
      then have "c_proc c = fresh_proc" using assms(2) run by (auto simp: child_inv_def)
      then show ?thesis using WInit by (simp add: c' child_inv_def send_signal_def deliver_def fresh_proc_def)
    next
      case WDone
      then have "(out (c_proc c), stat (c_proc c)) = expected m" using assms(2) by (simp add: child_inv_def)
      from ended [OF this] run show ?thesis by simp
    qed (use assms(2) in \<open>auto simp: c' child_inv_def usr2_waiting\<close>)
  next
    case Step
    show ?thesis
    proof (cases "w_pc c")
      case WInit
      then have "c_proc c = fresh_proc" using assms(2) run by (auto simp: child_inv_def)
      then show ?thesis
        using assms(1) WInit Step
        by (auto simp: child_step_def child_inv_def initialize_usr2_handling_def set_action_def
            waiting_proc_def fresh_proc_def)
    next
      case WSetup
      then have "c_proc c = waiting_proc v" using assms(2) by (simp add: child_inv_def)
      then have "c_proc c' = count_loop none_refused 1 (mode_setup none_refused m (waiting_proc v))"
        and "w_pc c' = WDone"
        using assms(1) WSetup Step v(2) prep by (auto simp: child_step_def)
      with mode_outcome [OF waiting_ready m, of v] show ?thesis by (simp add: child_inv_def Let_def)
    next
      case WDone
      then have "(out (c_proc c), stat (c_proc c)) = expected m" using assms(2) by (simp add: child_inv_def)
      from ended [OF this] run show ?thesis by simp
    qed (use assms(1,2) Step run v(1) in \<open>auto simp: child_step_def child_inv_def split: if_splits\<close>)
  qed
qed

lemma child_run_inv:
  assumes "child_run (child_step none_refused prep) xs c = Some c'" "child_inv v m c" "set xs \<subseteq> {Step, Usr2 v}"
    and "v \<noteq> 0" "mode_char v = m" "m \<in> {CHR ''d'', CHR ''m'', CHR ''i'', CHR ''h''}"
    and "\<And>s. prep none_refused m s = mode_setup none_refused m s"
  shows "child_inv v m c'"
  using assms(1-3)
proof (induction xs arbitrary: c)
  case Nil
  then show ?case by simp
next
  case (Cons x xs)
  then obtain c1 where st: "child_step none_refused prep x c = Some c1"
    and r: "child_run (child_step none_refused prep) xs c1 = Some c'" by (auto split: option.splits simp del: none_refused)
  have "child_inv v m c1" by (rule child_step_inv [OF st Cons.prems(2) _ assms(4-7)]) (use Cons.prems(3) in auto)
  from Cons.IH [OF r this] Cons.prems(3) show ?case by simp
qed

section \<open>Properties\<close>

text \<open>
  C32. What zad1 does in each mode, to the last line of output: \<open>default\<close> ends at the first
  signal, \<open>mask\<close> counts to ten and ends when it unblocks the pending signal, \<open>ignore\<close>
  counts to twenty, \<open>handle\<close> counts to twenty and writes the handler's message twice.
\<close>

theorem lab2_mode_behaviour:
  assumes "ready s" "parse_input argv = Some m"
  shows "(out (zad1_main none_refused argv s), stat (zad1_main none_refused argv s)) = expected m"
  using mode_outcome [OF assms(1) parse_input_modes [OF assms(2)]] assms(2)
  by (simp add: zad1_main_def Let_def)

theorem lab2_mode_behaviour_witness:
  "out (zad1_main none_refused [''main.out'', ''mask''] fresh_proc) =
     map Count [1..<6] @ [Sending] @ map Count [6..<11] @ [Unblocking] \<and>
   stat (zad1_main none_refused [''main.out'', ''mask''] fresh_proc) = KilledBy SIGUSR1"
proof -
  have r: "ready fresh_proc" by (simp add: ready_def fresh_proc_def)
  have p: "parse_input [''main.out'', ''mask''] = Some CHR ''m''"
    by (simp add: parse_input_def c_strcmp_eq_def cstr_def)
  have e: "expected CHR ''m'' = (map Count [1..<6] @ [Sending] @ map Count [6..<11] @ [Unblocking], KilledBy SIGUSR1)"
    unfolding expected_def Let_def by (simp only: append_assoc) simp
  from lab2_mode_behaviour [OF r p] e show ?thesis by (metis prod.inject)
qed

text \<open>
  The two-process programs agree with the one-process program: for every mode the
  command line accepts, however the parent's SIGUSR2 (repeated or not) interleaves with the
  child, a child that gets through its count has printed and ended exactly as zad1 does,
  in zad2, in zad3 linked statically and in zad3 with the library loaded at run time.
\<close>

theorem lab2_child_agrees:
  assumes "PQueue v \<in> set (parent_main refused argv)"
    and "prog \<in> {zad2_child, zad3_child_static, zad3_child_dynamic}"
    and "set xs \<subseteq> {Step, Usr2 v}" "child_run (prog none_refused) xs child_init = Some c" "w_pc c = WDone"
  shows "(out (c_proc c), stat (c_proc c)) =
    (out (zad1_main none_refused argv fresh_proc), stat (zad1_main none_refused argv fresh_proc))"
proof -
  obtain m where p: "parse_input argv = Some m" and v: "v = int (of_char m)"
    using assms(1) by (auto simp: parent_main_def split: option.splits if_splits)
  note m = parse_input_modes [OF p]
  have v0: "v \<noteq> 0" and mc: "mode_char v = m" using m unfolding v by (auto simp: mode_char_def)
  obtain prep where prog: "prog none_refused = child_step none_refused prep"
    and "prep = mode_setup \<or> prep = mode_setup_dynamic"
    using assms(2) by (auto simp: zad2_child_def zad3_child_static_def zad3_child_dynamic_def)
  then have "\<And>s. prep none_refused m s = mode_setup none_refused m s"
    using mode_setup_dynamic_same [OF m] by auto
  moreover have "child_inv v m child_init" by (simp add: child_inv_def child_init_def)
  ultimately have "child_inv v m c" using child_run_inv [OF assms(4) [unfolded prog] _ assms(3) v0 mc m] by blast
  then have "(out (c_proc c), stat (c_proc c)) = expected m" using assms(5) by (simp add: child_inv_def)
  moreover have "(out (zad1_main none_refused argv fresh_proc), stat (zad1_main none_refused argv fresh_proc)) = expected m"
    using mode_outcome [of fresh_proc m] m p by (simp add: zad1_main_def Let_def ready_def fresh_proc_def)
  ultimately show ?thesis by simp
qed

theorem lab2_child_agrees_witness:
  "\<exists>c. child_run (zad3_child_dynamic none_refused) [Step, Step, Step, Usr2 105, Step, Step] child_init = Some c \<and>
     (out (c_proc c), stat (c_proc c)) =
       (out (zad1_main none_refused [''main.out'', ''ignore''] fresh_proc),
        stat (zad1_main none_refused [''main.out'', ''ignore''] fresh_proc))"
proof -
  have p: "parse_input [''main.out'', ''ignore''] = Some CHR ''i''"
    by (simp add: parse_input_def c_strcmp_eq_def cstr_def)
  then have v: "PQueue 105 \<in> set (parent_main (\<lambda>_. False) [''main.out'', ''ignore''])"
    by (simp add: parent_main_def)
  obtain c where c: "child_run (zad3_child_dynamic none_refused) [Step, Step, Step, Usr2 105, Step, Step] child_init = Some c"
    and d: "w_pc c = WDone"
    by (simp add: zad2_child_def zad3_child_dynamic_def child_step_def child_init_def fresh_proc_def initialize_usr2_handling_def set_action_def
        send_signal_def deliver_def Let_def)
  have "set [Step, Step, Step, Usr2 105, Step, Step] \<subseteq> {Step, Usr2 105}" by simp
  moreover have "zad3_child_dynamic \<in> {zad2_child, zad3_child_static, zad3_child_dynamic}" by simp
  ultimately have "(out (c_proc c), stat (c_proc c)) =
       (out (zad1_main none_refused [''main.out'', ''ignore''] fresh_proc),
        stat (zad1_main none_refused [''main.out'', ''ignore''] fresh_proc))"
    using lab2_child_agrees [where prog = zad3_child_dynamic, OF v _ _ c d] by blast
  with c show ?thesis by blast
qed

text \<open>
  A lost wake-up: when SIGUSR2 arrives between the test of \<open>received_mode\<close> and
  \<open>pause\<close>, the child has its mode and waits for ever; it can execute no further statement.
\<close>

theorem lab2_lost_wakeup:
  "\<exists>c. child_run (zad2_child none_refused) [Step, Step, Usr2 100, Step] child_init = Some c \<and>
     received_mode (c_proc c) = 100 \<and> stat (c_proc c) = Running \<and> out (c_proc c) = [] \<and>
     zad2_child none_refused Step c = None"
  by (simp add: zad2_child_def zad3_child_dynamic_def child_step_def child_init_def fresh_proc_def initialize_usr2_handling_def set_action_def
      send_signal_def deliver_def Let_def)

text \<open>
  A signal that comes too early: SIGUSR2 before the child has installed its handler
  ends the child without any output.
\<close>

theorem lab2_early_signal:
  "\<exists>c. child_run (zad2_child none_refused) [Usr2 100] child_init = Some c \<and>
     stat (c_proc c) = KilledBy SIGUSR2 \<and> out (c_proc c) = []"
  by (simp add: zad2_child_def zad3_child_dynamic_def child_step_def child_init_def fresh_proc_def send_signal_def deliver_def Let_def)

text \<open>
  The static and the dynamic set-up of zad3 differ outside the four modes: with an
  improper mode the static one reports it and goes on to count, the dynamic one exits.
\<close>

theorem lab2_improper_mode:
  "stat (mode_setup none_refused CHR ''x'' fresh_proc) = Running \<and>
   stat (mode_setup_dynamic none_refused CHR ''x'' fresh_proc) = Exited 1 \<and>
   out (mode_setup none_refused CHR ''x'' fresh_proc) = out (mode_setup_dynamic none_refused CHR ''x'' fresh_proc)"
  by (simp add: mode_setup_def mode_setup_dynamic_def emit_def fresh_proc_def)

end
