(* ===== verification/Lab2System.thy ===== *)
theory Lab2System
  imports Lab2
begin

text \<open>
  \<open>lab2/zad2\<close> and \<open>lab2/zad3\<close> as systems: the parent (\<open>main.c\<close>) and its child
  (\<open>child.c\<close>, one of the three programs of Lab2) interleaved, from the arguments to the end of
  the parent.  The child starts as a copy of the parent, becomes the child program when
  \<open>execl\<close> succeeds, and receives the mode as the value of a queued SIGUSR2, at whatever point
  it is by then: the code gives it one second.
\<close>

section \<open>Parent and child\<close>

datatype parent_pc = Par_Fork | Par_Sleep | Par_Send | Par_Wait | Par_Done nat

text \<open>The child before \<open>execl\<close>, after it, and how a process without the program ends.\<close>

datatype offspring = No_Child | Forked | Image child | Exec_Failed | Killed_Early | Killed_By_Parent

record lab2_sys =
  sys_mode :: char
  sys_pc :: parent_pc
  sys_child :: offspring

datatype sys_act = Par bool | Chi bool

type_synonym child_prog_fun = "(sig_call \<Rightarrow> bool) \<Rightarrow> child_input \<Rightarrow> child \<Rightarrow> child option"

text \<open>SIGUSR2 with a value: before \<open>execl\<close> its action is the default one; a child that has ended ignores it.\<close>

definition receive_usr2 :: "(child_input \<Rightarrow> child \<Rightarrow> child option) \<Rightarrow> int \<Rightarrow> offspring \<Rightarrow> offspring" where
  "receive_usr2 prog v k = (case k of
     Forked \<Rightarrow> Killed_Early
   | Image c \<Rightarrow> Image (case prog (Usr2 v) c of Some c' \<Rightarrow> c' | None \<Rightarrow> c)
   | _ \<Rightarrow> k)"

definition child_ended :: "offspring \<Rightarrow> bool" where
  "child_ended k = (case k of
     No_Child \<Rightarrow> False | Forked \<Rightarrow> False | Image c \<Rightarrow> stat (c_proc c) \<noteq> Running
   | Exec_Failed \<Rightarrow> True | Killed_Early \<Rightarrow> True | Killed_By_Parent \<Rightarrow> True)"

text \<open>A statement of the parent; \<open>ok\<close>: the call that can fail succeeds.\<close>

definition sys_parent :: "(child_input \<Rightarrow> child \<Rightarrow> child option) \<Rightarrow> bool \<Rightarrow> lab2_sys \<Rightarrow> lab2_sys option" where
  "sys_parent prog ok s = (case sys_pc s of
     Par_Fork \<Rightarrow> Some (if ok then s\<lparr>sys_pc := Par_Sleep, sys_child := Forked\<rparr> else s\<lparr>sys_pc := Par_Done 1\<rparr>)
   | Par_Sleep \<Rightarrow> Some (s\<lparr>sys_pc := Par_Send\<rparr>)
   | Par_Send \<Rightarrow> Some
       (if ok then s\<lparr>sys_pc := Par_Wait, sys_child := receive_usr2 prog (int (of_char (sys_mode s))) (sys_child s)\<rparr>
        else s\<lparr>sys_pc := Par_Done 1,
               sys_child := (if child_ended (sys_child s) then sys_child s else Killed_By_Parent)\<rparr>)
   | Par_Wait \<Rightarrow> (if child_ended (sys_child s) then Some (s\<lparr>sys_pc := Par_Done 0\<rparr>) else None)
   | Par_Done _ \<Rightarrow> None)"

definition sys_offspring :: "(child_input \<Rightarrow> child \<Rightarrow> child option) \<Rightarrow> bool \<Rightarrow> lab2_sys \<Rightarrow> lab2_sys option" where
  "sys_offspring prog ok s = (case sys_child s of
     Forked \<Rightarrow> Some (s\<lparr>sys_child := (if ok then Image child_init else Exec_Failed)\<rparr>)
   | Image c \<Rightarrow> map_option (\<lambda>c'. s\<lparr>sys_child := Image c'\<rparr>) (prog Step c)
   | _ \<Rightarrow> None)"

definition sys_next :: "(child_input \<Rightarrow> child \<Rightarrow> child option) \<Rightarrow> sys_act \<Rightarrow> lab2_sys \<Rightarrow> lab2_sys option" where
  "sys_next prog a s = (case a of Par ok \<Rightarrow> sys_parent prog ok s | Chi ok \<Rightarrow> sys_offspring prog ok s)"

text \<open>\<open>parse_input\<close> ends the program with a usage message or gives the mode.\<close>

definition sys_start :: "string list \<Rightarrow> lab2_sys" where
  "sys_start argv = (case parse_input argv of
     None \<Rightarrow> \<lparr>sys_mode = NUL, sys_pc = Par_Done 1, sys_child = No_Child\<rparr>
   | Some m \<Rightarrow> \<lparr>sys_mode = m, sys_pc = Par_Fork, sys_child = No_Child\<rparr>)"

section \<open>The three pairs of programs\<close>

text \<open>\<open>r\<close> says which calls of the child are refused: each is made once, \<open>sigaction\<close> once for each signal.\<close>

datatype lab2_pair = Zad2 | Zad3_Static | Zad3_Dynamic

definition program :: "(sig_call \<Rightarrow> bool) \<Rightarrow> lab2_pair \<Rightarrow> child_input \<Rightarrow> child \<Rightarrow> child option" where
  "program r p = (case p of Zad2 \<Rightarrow> zad2_child r | Zad3_Static \<Rightarrow> zad3_child_static r
     | Zad3_Dynamic \<Rightarrow> zad3_child_dynamic r)"

text \<open>
  What a child that gets the mode prints and how it ends: as \<open>zad1\<close> does when the same calls
  are refused, unless it does not even get to the set-up of \<open>zad1\<close>.
\<close>

definition no_setup :: "(sig_call \<Rightarrow> bool) \<Rightarrow> lab2_pair \<Rightarrow> bool" where
  "no_setup r p \<longleftrightarrow> r (CSigaction SIGUSR2) \<or> (p = Zad3_Dynamic \<and> (r CDlopen \<or> r CDlsym))"

definition child_outcome :: "(sig_call \<Rightarrow> bool) \<Rightarrow> lab2_pair \<Rightarrow> string list \<Rightarrow> event list \<times> status" where
  "child_outcome r p argv = (if no_setup r p then ([Perror], Exited 1)
     else (out (zad1_main r argv fresh_proc), stat (zad1_main r argv fresh_proc)))"

definition child_result :: "(sig_call \<Rightarrow> bool) \<Rightarrow> lab2_pair \<Rightarrow> char \<Rightarrow> event list \<times> status" where
  "child_result r p m = (if no_setup r p then ([Perror], Exited 1)
     else (let t = count_loop r 1 (mode_setup r m fresh_proc) in (out t, stat t)))"

lemma child_outcome: "parse_input argv = Some m \<Longrightarrow> child_outcome r p argv = child_result r p m"
  by (simp add: child_outcome_def child_result_def zad1_main_def Let_def)

text \<open>The count does not look at the action of SIGUSR2 nor at the mode received.\<close>

definition alike :: "sigproc \<Rightarrow> sigproc \<Rightarrow> bool" where
  "alike s t \<longleftrightarrow> stat s = stat t \<and> out s = out t \<and> blocked s = blocked t \<and> pending s = pending t
     \<and> disp s SIGUSR1 = disp t SIGUSR1"

lemma count_body_alike:
  assumes "alike s t"
  shows "alike (count_body r i s) (count_body r i t)"
proof -
  have e: "alike (emit e x) (emit e y)" "alike (exit_failure x) (exit_failure y)" if "alike x y" for e x y
    using that by (simp_all add: alike_def emit_def exit_failure_def)
  have "alike (send_signal SIGUSR1 0 x) (send_signal SIGUSR1 0 y)" "alike (sig_unblock r SIGUSR1 x) (sig_unblock r SIGUSR1 y)"
    if "alike x y" for x y
    using that by (auto simp: alike_def send_signal_def sig_unblock_def deliver_def emit_def exit_failure_def Let_def
        split: disposition.split)
  moreover have "pending (emit e s) = pending (emit e t)" for e using assms by (simp add: alike_def emit_def)
  ultimately show ?thesis using assms e unfolding count_body_def Let_def by auto
qed

lemma count_loop_alike: "alike s t \<Longrightarrow> alike (count_loop r i s) (count_loop r i t)"
proof (induction r i s arbitrary: t rule: count_loop.induct)
  case (1 r i s)
  have st: "stat s = stat t" using 1(2) by (simp add: alike_def)
  show ?case
  proof (cases "stat s = Running \<and> i \<le> 20")
    case True
    with 1(1) [OF _ _ count_body_alike [OF 1(2)]] st show ?thesis by (simp add: count_loop_step)
  next
    case False
    with 1(2) st show ?thesis by (subst (1 2) count_loop.simps) (auto simp: alike_def emit_def)
  qed
qed

lemma count_loop_over: "stat (count_loop r i s) \<noteq> Running"
proof (induction r i s rule: count_loop.induct)
  case (1 r i s)
  then show ?case by (subst count_loop.simps) (simp add: emit_def)
qed

lemma child_result_ended: "snd (child_result r p m) \<noteq> Running"
  using count_loop_over by (simp add: child_result_def Let_def)

section \<open>What parent and child can be\<close>

text \<open>How a child ends: with its result, or killed by a signal that came before the handler.\<close>

definition done_as :: "(sig_call \<Rightarrow> bool) \<Rightarrow> lab2_pair \<Rightarrow> char \<Rightarrow> child \<Rightarrow> bool" where
  "done_as r p m c \<longleftrightarrow> (out (c_proc c), stat (c_proc c)) = child_result r p m"

definition no_handler :: child where
  "no_handler = \<lparr>c_proc = exit_failure fresh_proc, w_pc = WTest\<rparr>"

definition usr2_killed :: child where
  "usr2_killed = \<lparr>c_proc = fresh_proc\<lparr>stat := KilledBy SIGUSR2\<rparr>, w_pc = WInit\<rparr>"

text \<open>A child that has not been told the mode, and one that has.\<close>

definition not_told :: "(sig_call \<Rightarrow> bool) \<Rightarrow> offspring \<Rightarrow> bool" where
  "not_told r k = (case k of
     Forked \<Rightarrow> True | Exec_Failed \<Rightarrow> True
   | Image c \<Rightarrow> c = child_init \<or> (r (CSigaction SIGUSR2) \<and> c = no_handler)
       \<or> (\<not> r (CSigaction SIGUSR2) \<and> c_proc c = waiting_proc 0 \<and> w_pc c \<in> {WTest, WCallPause, WPaused})
   | _ \<Rightarrow> False)"

definition told :: "(sig_call \<Rightarrow> bool) \<Rightarrow> lab2_pair \<Rightarrow> char \<Rightarrow> offspring \<Rightarrow> bool" where
  "told r p m k = (case k of
     Exec_Failed \<Rightarrow> True | Killed_Early \<Rightarrow> True
   | Image c \<Rightarrow> c = usr2_killed \<or> done_as r p m c \<or> (\<not> r (CSigaction SIGUSR2)
       \<and> c_proc c = waiting_proc (int (of_char m)) \<and> w_pc c \<in> {WTest, WCallPause, WPaused, WSetup})
   | _ \<Rightarrow> False)"

text \<open>The parent has given up: the child could not be started, has ended without a handler, or is killed.\<close>

definition given_up :: "(sig_call \<Rightarrow> bool) \<Rightarrow> offspring \<Rightarrow> bool" where
  "given_up r k \<longleftrightarrow> k \<in> {No_Child, Exec_Failed, Killed_By_Parent} \<or> (r (CSigaction SIGUSR2) \<and> k = Image no_handler)"

definition sys_ok :: "(sig_call \<Rightarrow> bool) \<Rightarrow> lab2_pair \<Rightarrow> char \<Rightarrow> lab2_sys \<Rightarrow> bool" where
  "sys_ok r p m s \<longleftrightarrow> sys_mode s = m \<and> (case sys_pc s of
     Par_Fork \<Rightarrow> sys_child s = No_Child
   | Par_Sleep \<Rightarrow> not_told r (sys_child s)
   | Par_Send \<Rightarrow> not_told r (sys_child s)
   | Par_Wait \<Rightarrow> told r p m (sys_child s)
   | Par_Done st \<Rightarrow> (st = 0 \<and> told r p m (sys_child s) \<and> child_ended (sys_child s))
        \<or> (st = 1 \<and> given_up r (sys_child s)))"

text \<open>The wake-up is lost when the child is about to call \<open>pause\<close> after it has seen mode 0.\<close>

definition lost_wakeup :: "char \<Rightarrow> lab2_sys \<Rightarrow> bool" where
  "lost_wakeup m s \<longleftrightarrow> sys_pc s = Par_Wait \<and>
     sys_child s = Image \<lparr>c_proc = waiting_proc (int (of_char m)), w_pc = WPaused\<rparr>"

definition sys_over :: "char \<Rightarrow> lab2_sys \<Rightarrow> bool" where
  "sys_over m s \<longleftrightarrow> lost_wakeup m s \<or> (\<exists>st. sys_pc s = Par_Done st)"

definition child_left :: "offspring \<Rightarrow> nat" where
  "child_left k = (case k of
     Forked \<Rightarrow> 6
   | Image c \<Rightarrow> if stat (c_proc c) \<noteq> Running then 0 else
       (case w_pc c of WInit \<Rightarrow> 5 | WTest \<Rightarrow> 4 | WCallPause \<Rightarrow> 3 | WPaused \<Rightarrow> 2 | WSetup \<Rightarrow> 1 | WDone \<Rightarrow> 0)
   | _ \<Rightarrow> 0)"

definition sys_rank :: "lab2_sys \<Rightarrow> nat" where
  "sys_rank s = child_left (sys_child s)
     + (case sys_pc s of Par_Fork \<Rightarrow> 12 | Par_Sleep \<Rightarrow> 5 | Par_Send \<Rightarrow> 4 | Par_Wait \<Rightarrow> 1 | Par_Done _ \<Rightarrow> 0)"

lemma done_ended: "done_as r p m c \<Longrightarrow> stat (c_proc c) \<noteq> Running"
  using child_result_ended [of r p m] by (metis done_as_def snd_conv)

lemma no_handler [simp]:
  "stat (c_proc no_handler) = Exited 1" "out (c_proc no_handler) = [Perror]" "w_pc no_handler = WTest"
  by (simp_all add: no_handler_def exit_failure_def emit_def fresh_proc_def)

lemma no_handler_done: "r (CSigaction SIGUSR2) \<Longrightarrow> done_as r p m no_handler"
  by (simp add: done_as_def child_result_def no_setup_def)

text \<open>What the programs do from the states they can be in here.\<close>

definition prep_of :: "lab2_pair \<Rightarrow> (sig_call \<Rightarrow> bool) \<Rightarrow> char \<Rightarrow> sigproc \<Rightarrow> sigproc" where
  "prep_of p = (if p = Zad3_Dynamic then mode_setup_dynamic else mode_setup)"

lemma program_prep: "program r p = child_step r (prep_of p)"
  by (cases p) (simp_all add: program_def zad2_child_def zad3_child_static_def zad3_child_dynamic_def prep_of_def)

lemma mode_value:
  assumes "m \<in> {CHR ''d'', CHR ''m'', CHR ''i'', CHR ''h''}"
  shows "int (of_char m) \<noteq> 0" "mode_char (int (of_char m)) = m"
  using assms by (auto simp: mode_char_def)

lemma program_init: "program r p Step child_init = Some
    (if r (CSigaction SIGUSR2) then no_handler else \<lparr>c_proc = waiting_proc 0, w_pc = WTest\<rparr>)"
  by (simp add: program_prep child_step_def child_init_def fresh_proc_def initialize_usr2_handling_def set_action_def
      waiting_proc_def no_handler_def)

lemma program_usr2:
  shows "program r p (Usr2 v) child_init = Some usr2_killed"
    "c_proc c = waiting_proc u \<Longrightarrow> program r p (Usr2 v) c =
       Some (c\<lparr>c_proc := waiting_proc v, w_pc := (if w_pc c = WPaused then WTest else w_pc c)\<rparr>)"
  by (simp_all add: program_prep child_step_def child_init_def usr2_killed_def send_signal_def deliver_def fresh_proc_def
      usr2_waiting [unfolded send_signal_def deliver_def])
    (simp add: waiting_proc_def fresh_proc_def)

text \<open>The next statement of a child that waits with the mode \<open>u\<close> it has seen.\<close>

lemma program_waiting:
  assumes "c_proc c = waiting_proc u"
  shows "w_pc c = WTest \<Longrightarrow> program r p Step c = Some (c\<lparr>w_pc := if u = 0 then WCallPause else WSetup\<rparr>)"
    "w_pc c = WCallPause \<Longrightarrow> program r p Step c = Some (c\<lparr>w_pc := WPaused\<rparr>)"
    "w_pc c = WPaused \<Longrightarrow> program r p Step c = None"
  using assms by (simp_all add: program_prep child_step_def)

lemma mode_setup_alike: "alike s t \<Longrightarrow> alike (mode_setup r m s) (mode_setup r m t)"
  by (simp add: alike_def mode_setup_def sig_default_def sig_mask_def sig_ignore_def sig_handle_def set_action_def
      exit_failure_def emit_def)

lemma prep_result:
  assumes m: "m \<in> {CHR ''d'', CHR ''m'', CHR ''i'', CHR ''h''}" and "\<not> r (CSigaction SIGUSR2)"
    and t: "t = count_loop r 1 (prep_of p r m (waiting_proc v))"
  shows "(out t, stat t) = child_result r p m"
proof -
  have a: "alike (waiting_proc v) fresh_proc" by (simp add: alike_def waiting_proc_def)
  have p: "prep_of p r m s = (if no_setup r p then exit_failure s else mode_setup r m s)" for s
    using m assms(2) by (auto simp: prep_of_def no_setup_def mode_setup_dynamic_def mode_setup_def)
  show ?thesis
  proof (cases "no_setup r p")
    case True
    then show ?thesis
      by (simp add: t p count_loop_ended child_result_def exit_failure_def emit_def waiting_proc_def fresh_proc_def)
  next
    case False
    with count_loop_alike [OF mode_setup_alike [OF a], of r 1 r m] show ?thesis
      by (simp add: t p child_result_def Let_def alike_def)
  qed
qed

lemma program_setup:
  assumes "c_proc c = waiting_proc (int (of_char m))" "w_pc c = WSetup" "\<not> r (CSigaction SIGUSR2)"
    and m: "m \<in> {CHR ''d'', CHR ''m'', CHR ''i'', CHR ''h''}"
  shows "\<exists>c'. program r p Step c = Some c' \<and> done_as r p m c'"
  using prep_result [where r = r and p = p and v = "int (of_char m)", OF m assms(3) refl] assms(1,2) mode_value(2) [OF m]
  by (simp add: program_prep child_step_def done_as_def)

lemma program_ended: "stat (c_proc c) \<noteq> Running \<Longrightarrow> program r p x c = None"
  by (simp add: program_prep child_step_def)

lemma program_running: "program r p x c = Some c' \<Longrightarrow> stat (c_proc c) = Running"
  using program_ended by fastforce

section \<open>The system ends\<close>

lemma waiting_proc_inject [simp]: "waiting_proc u = waiting_proc v \<longleftrightarrow> u = v"
  by (metis waiting_running(2))

lemma offspring_step:
  assumes step: "sys_offspring (program r p) ok s = Some t"
    and m: "m \<in> {CHR ''d'', CHR ''m'', CHR ''i'', CHR ''h''}" and k: "not_told r (sys_child s) \<or> told r p m (sys_child s)"
  shows "child_left (sys_child t) < child_left (sys_child s)
    \<and> (not_told r (sys_child s) \<longrightarrow> not_told r (sys_child t)) \<and> (told r p m (sys_child s) \<longrightarrow> told r p m (sys_child t))
    \<and> sys_pc t = sys_pc s \<and> sys_mode t = sys_mode s"
proof (cases "sys_child s")
  case Forked
  then show ?thesis using step
    by (auto simp: sys_offspring_def not_told_def told_def child_left_def child_init_def)
next
  case (Image c)
  then obtain c' where c': "program r p Step c = Some c'" "t = s\<lparr>sys_child := Image c'\<rparr>"
    using step by (auto simp: sys_offspring_def)
  then have run: "stat (c_proc c) = Running" using program_running by blast
  have nd: "\<not> done_as r p m c" "c \<noteq> usr2_killed" "c \<noteq> no_handler"
    using run done_ended [of r p m c] by (auto simp: usr2_killed_def)
  consider (init) "c = child_init" | (wait) u where "c_proc c = waiting_proc u" "w_pc c \<in> {WTest, WCallPause, WPaused}"
      "u = 0 \<or> u = int (of_char m)" "\<not> r (CSigaction SIGUSR2)"
    | (ready) "c_proc c = waiting_proc (int (of_char m))" "w_pc c = WSetup" "\<not> r (CSigaction SIGUSR2)"
    using k nd Image by (auto simp: not_told_def told_def)
  then show ?thesis
  proof cases
    case init
    then have "\<not> told r p m (sys_child s)" using nd Image by (auto simp: told_def child_init_def)
    moreover have "c' = (if r (CSigaction SIGUSR2) then no_handler else \<lparr>c_proc = waiting_proc 0, w_pc = WTest\<rparr>)"
      using c'(1) init by (simp add: program_init split: if_splits)
    moreover have "child_left (Image c) = 5" using init by (simp add: child_left_def child_init_def fresh_proc_def)
    ultimately show ?thesis using c'(2) Image by (auto simp: not_told_def child_left_def)
  next
    case wait
    then show ?thesis using c' program_waiting [OF wait(1), of r p] Image nd mode_value(1) [OF m]
      by (auto simp: not_told_def told_def child_left_def child_init_def)
  next
    case ready
    with program_setup [where r = r and p = p, OF ready m] c' done_ended [of r p m c'] Image nd show ?thesis
      by (auto simp: not_told_def told_def child_left_def child_init_def)
  qed
qed (use step in \<open>simp_all add: sys_offspring_def\<close>)

lemma receive_told:
  assumes "not_told r k"
  shows "told r p m (receive_usr2 (program r p) (int (of_char m)) k)"
    "child_left (receive_usr2 (program r p) (int (of_char m)) k) \<le> child_left k + 2"
  using assms program_usr2 [where r = r and p = p] program_ended [of no_handler] no_handler_done [of r p m]
  by (auto simp: not_told_def told_def receive_usr2_def child_left_def usr2_killed_def child_init_def split: offspring.splits)

lemma told_stuck:
  assumes "m \<in> {CHR ''d'', CHR ''m'', CHR ''i'', CHR ''h''}" "told r p m (sys_child s)"
    "\<And>ok. sys_offspring (program r p) ok s = None"
  shows "child_ended (sys_child s) \<or>
    sys_child s = Image \<lparr>c_proc = waiting_proc (int (of_char m)), w_pc = WPaused\<rparr>"
proof (cases "sys_child s")
  case (Image c)
  then have none: "program r p Step c = None" using assms(3) by (simp add: sys_offspring_def)
  show ?thesis
  proof (cases "stat (c_proc c) = Running")
    case True
    then have "c_proc c = waiting_proc (int (of_char m))" "w_pc c \<in> {WTest, WCallPause, WPaused, WSetup}"
      "\<not> r (CSigaction SIGUSR2)"
      using assms(2) Image done_ended [of r p m c] by (auto simp: told_def usr2_killed_def)
    with none program_waiting [of c _ r p] program_setup [where r = r and p = p, OF _ _ _ assms(1), of c] show ?thesis
      using Image by (cases c) auto
  qed (use Image in \<open>simp add: child_ended_def\<close>)
qed (use assms(2) in \<open>simp_all add: told_def child_ended_def\<close>)

lemma not_told_ended:
  "not_told r k \<Longrightarrow> child_ended k \<Longrightarrow> given_up r k"
  by (cases k) (auto simp: not_told_def child_ended_def given_up_def child_init_def fresh_proc_def)

lemma sys_step_ok:
  assumes ok: "sys_ok r p m s" "m \<in> {CHR ''d'', CHR ''m'', CHR ''i'', CHR ''h''}" and step: "sys_next (program r p) a s = Some t"
  shows "sys_ok r p m t \<and> sys_rank t < sys_rank s"
proof (cases a)
  case (Par b)
  with step have st: "sys_parent (program r p) b s = Some t" by (simp add: sys_next_def)
  show ?thesis
  proof (cases "sys_pc s")
    case Par_Send
    then have "not_told r (sys_child s)" "sys_mode s = m" using ok(1) by (simp_all add: sys_ok_def)
    note k = this receive_told [OF this(1), of p m]
    show ?thesis
    proof (cases b)
      case True
      with st Par_Send k(2) have "t = s\<lparr>sys_pc := Par_Wait,
          sys_child := receive_usr2 (program r p) (int (of_char m)) (sys_child s)\<rparr>" by (simp add: sys_parent_def)
      with k Par_Send show ?thesis by (simp add: sys_ok_def sys_rank_def)
    next
      case False
      with st Par_Send k(2) not_told_ended [OF k(1)] show ?thesis
        by (auto simp: sys_parent_def sys_ok_def sys_rank_def child_left_def given_up_def)
    qed
  qed (use st ok(1) in \<open>auto simp: sys_parent_def sys_ok_def sys_rank_def not_told_def child_left_def given_up_def split: if_splits\<close>)
next
  case (Chi b)
  with step have st: "sys_offspring (program r p) b s = Some t" by (simp add: sys_next_def)
  have "\<not> child_ended (sys_child s)"
    using st by (auto dest: program_running simp: sys_offspring_def child_ended_def split: offspring.splits)
  moreover from this have "\<not> given_up r (sys_child s)" using st by (auto simp: sys_offspring_def given_up_def child_ended_def)
  ultimately have "not_told r (sys_child s) \<or> told r p m (sys_child s)" using ok(1) st
    by (auto simp: sys_ok_def sys_offspring_def split: parent_pc.splits)
  from offspring_step [OF st ok(2) this] ok(1) \<open>\<not> given_up r _\<close> \<open>\<not> child_ended _\<close> st show ?thesis
    by (auto simp: sys_ok_def sys_rank_def sys_offspring_def split: parent_pc.splits)
qed

lemma sys_stuck:
  assumes ok: "sys_ok r p m s" "m \<in> {CHR ''d'', CHR ''m'', CHR ''i'', CHR ''h''}" and none: "\<And>a. sys_next (program r p) a s = None"
  shows "sys_over m s"
proof (cases "sys_pc s")
  case Par_Wait
  have "\<not> child_ended (sys_child s)" using none [of "Par True"] Par_Wait by (auto simp: sys_next_def sys_parent_def split: if_splits)
  moreover have "sys_offspring (program r p) b s = None" for b
    using none [of "Chi b"] by (simp add: sys_next_def)
  ultimately show ?thesis using told_stuck [OF ok(2)] ok(1) Par_Wait
    by (auto simp: sys_ok_def sys_over_def lost_wakeup_def)
qed (use none [of "Par True"] in \<open>simp_all add: sys_next_def sys_parent_def sys_over_def\<close>)

definition sys_good :: "(sig_call \<Rightarrow> bool) \<Rightarrow> lab2_pair \<Rightarrow> char \<Rightarrow> lab2_sys \<Rightarrow> bool" where
  "sys_good r p m s \<longleftrightarrow> sys_ok r p m s \<and> m \<in> {CHR ''d'', CHR ''m'', CHR ''i'', CHR ''h''}"

interpretation sys: ending_machine "sys_next (program r p)" "sys_good r p m" sys_rank "sys_over m" for r p m
proof unfold_locales
  fix s t a assume "sys_good r p m s" and step: "sys_next (program r p) a s = Some t"
  then have ok: "sys_ok r p m s" "m \<in> {CHR ''d'', CHR ''m'', CHR ''i'', CHR ''h''}" by (simp_all only: sys_good_def)
  from sys_step_ok [OF ok step] ok(2) show "sys_good r p m t" "sys_rank t < sys_rank s" by (simp_all only: sys_good_def)
next
  fix s assume "sys_good r p m s" and none: "\<And>a. sys_next (program r p) a s = None"
  then have ok: "sys_ok r p m s" "m \<in> {CHR ''d'', CHR ''m'', CHR ''i'', CHR ''h''}" by (simp_all only: sys_good_def)
  from sys_stuck [OF ok none] show "sys_over m s" .
qed

lemma sys_start_good:
  "parse_input argv = Some m \<Longrightarrow> sys_good r p m (sys_start argv) \<and> sys_rank (sys_start argv) = 12"
  using parse_input_modes [of argv m] by (simp add: sys_good_def sys_start_def sys_ok_def sys_rank_def child_left_def)

section \<open>Properties\<close>

text \<open>
  C7. All that parent and child can come to: for every mode the command line accepts, each of
  the three pairs of programs, every interleaving, every failure of \<open>fork\<close>, \<open>execl\<close> and
  \<open>sigqueue\<close>, and whichever calls of the child are refused (\<open>refused\<close>), a run has at most 12
  steps, and when nothing more can happen either the parent has reported an error, with a child
  that was not started, that it killed, or that had no handler; or it has waited for a child
  that could not be started, that was killed by a signal sent too early, or that has printed
  and ended exactly as \<open>zad1\<close> does in this mode with the same calls refused (with an error
  message and status 1 where it does not get to the set-up of \<open>zad1\<close>: \<open>no_setup\<close>); or both wait
  for ever because the signal came between the test of \<open>received_mode\<close> and \<open>pause\<close>.
\<close>

theorem lab2_system_outcomes:
  assumes "parse_input argv = Some m" "run_acts (sys_next (program refused p)) as (sys_start argv) = Some s"
  shows "length as \<le> 12 \<and> ((\<forall>a. sys_next (program refused p) a s = None) \<longrightarrow>
      (sys_pc s = Par_Done 1 \<and> (sys_child s \<in> {No_Child, Exec_Failed, Killed_By_Parent} \<or>
         (refused (CSigaction SIGUSR2) \<and> sys_child s = Image no_handler)))
    \<or> (sys_pc s = Par_Done 0 \<and> sys_child s \<in> {Exec_Failed, Killed_Early, Image usr2_killed})
    \<or> (sys_pc s = Par_Done 0 \<and> (\<exists>c. sys_child s = Image c \<and>
         (out (c_proc c), stat (c_proc c)) = child_outcome refused p argv))
    \<or> lost_wakeup m s)"
proof (intro conjI impI)
  note good = sys_start_good [OF assms(1), of refused p]
  show "length as \<le> 12" using sys.run_length [OF assms(2)] good by fastforce
  assume none: "\<forall>a. sys_next (program refused p) a s = None"
  have ok: "sys_good refused p m s" using sys.run_ok [OF assms(2)] good by blast
  have "sys_over m s" by (rule sys.stuck_over [OF ok]) (use none in blast)
  then consider "lost_wakeup m s" | st where "sys_pc s = Par_Done st" by (auto simp: sys_over_def)
  then show "(sys_pc s = Par_Done 1 \<and> (sys_child s \<in> {No_Child, Exec_Failed, Killed_By_Parent} \<or>
         (refused (CSigaction SIGUSR2) \<and> sys_child s = Image no_handler)))
    \<or> (sys_pc s = Par_Done 0 \<and> sys_child s \<in> {Exec_Failed, Killed_Early, Image usr2_killed})
    \<or> (sys_pc s = Par_Done 0 \<and> (\<exists>c. sys_child s = Image c \<and>
         (out (c_proc c), stat (c_proc c)) = child_outcome refused p argv))
    \<or> lost_wakeup m s"
  proof cases
    case 2
    with ok have "(st = 0 \<and> told refused p m (sys_child s) \<and> child_ended (sys_child s)) \<or> (st = 1 \<and> given_up refused (sys_child s))"
      by (simp add: sys_good_def sys_ok_def)
    then show ?thesis
    proof (elim disjE)
      assume "st = 0 \<and> told refused p m (sys_child s) \<and> child_ended (sys_child s)"
      with 2 show ?thesis unfolding child_outcome [OF assms(1)]
        by (cases "sys_child s") (auto simp: told_def child_ended_def done_as_def)
    qed (use 2 in \<open>simp add: given_up_def\<close>)
  qed simp
qed

text \<open>A run in which the child is in \<open>pause\<close> when the signal is sent, and one in which it is not yet.\<close>

definition orderly :: "sys_act list" where
  "orderly = [Par True, Chi True, Chi True, Chi True, Chi True, Par True, Par True, Chi True, Chi True, Par True]"

definition hasty :: "sys_act list" where
  "hasty = [Par True, Par True, Chi True, Chi True, Chi True, Par True, Chi True]"

lemma ended_stuck:
  assumes "sys_pc s = Par_Done st" "sys_child s = Image c" "stat (c_proc c) \<noteq> Running"
  shows "sys_next (program r p) a s = None"
  using program_ended [of c] assms
  by (cases a) (simp_all add: sys_next_def sys_parent_def sys_offspring_def)

theorem lab2_system_outcomes_witness:
  "\<exists>s c. run_acts (sys_next (program none_refused Zad2)) orderly (sys_start [''main.out'', ''ignore'']) = Some s
     \<and> sys_pc s = Par_Done 0 \<and> sys_child s = Image c \<and> stat (c_proc c) = Exited 0
     \<and> out (c_proc c) = out (zad1_main none_refused [''main.out'', ''ignore''] fresh_proc)"
proof -
  have p: "parse_input [''main.out'', ''ignore''] = Some CHR ''i''"
    by (simp add: parse_input_def c_strcmp_eq_def cstr_def)
  have "case run_acts (sys_next (program none_refused Zad2)) orderly (sys_start [''main.out'', ''ignore'']) of None \<Rightarrow> False
      | Some s \<Rightarrow> sys_pc s = Par_Done 0 \<and> (case sys_child s of Image c \<Rightarrow> stat (c_proc c) = Exited 0 | _ \<Rightarrow> False)"
    by code_simp
  then obtain s c where s: "run_acts (sys_next (program none_refused Zad2)) orderly (sys_start [''main.out'', ''ignore'']) = Some s"
    "sys_pc s = Par_Done 0" "sys_child s = Image c" "stat (c_proc c) = Exited 0"
    by (auto split: option.splits offspring.splits)
  have "\<forall>a. sys_next (program none_refused Zad2) a s = None" using ended_stuck [OF s(2,3)] s(4) by simp
  with lab2_system_outcomes [OF p s(1)] s show ?thesis by (auto simp: usr2_killed_def lost_wakeup_def child_outcome_def no_setup_def)
qed

text \<open>The bad order exists: the parent sends while the child is between its test and \<open>pause\<close>.\<close>

lemma hasty_loses_wakeup:
  "\<exists>s. run_acts (sys_next (program none_refused Zad2)) hasty (sys_start [''main.out'', ''ignore'']) = Some s
     \<and> lost_wakeup CHR ''i'' s \<and> (\<forall>a. sys_next (program none_refused Zad2) a s = None)"
proof -
  have p: "parse_input [''main.out'', ''ignore''] = Some CHR ''i''"
    by (simp add: parse_input_def c_strcmp_eq_def cstr_def)
  note defs = sys_start_def p hasty_def sys_next_def sys_parent_def sys_offspring_def program_def zad2_child_def
    child_step_def child_init_def fresh_proc_def initialize_usr2_handling_def set_action_def receive_usr2_def
    send_signal_def deliver_def
  have w: "\<lparr>disp = (\<lambda>_. SigDfl)(SIGUSR2 := SigUsr2), blocked = {}, pending = {}, received_mode = 105, stat = Running,
      out = []\<rparr> = waiting_proc 105" by (simp add: waiting_proc_def fresh_proc_def)
  have "run_acts (sys_next (program none_refused Zad2)) hasty (sys_start [''main.out'', ''ignore'']) =
     Some \<lparr>sys_mode = CHR ''i'', sys_pc = Par_Wait, sys_child = Image \<lparr>c_proc = waiting_proc 105, w_pc = WPaused\<rparr>\<rparr>"
    by (simp add: defs w [symmetric])
  moreover have "sys_next (program none_refused Zad2) a \<lparr>sys_mode = CHR ''i'', sys_pc = Par_Wait,
      sys_child = Image \<lparr>c_proc = waiting_proc 105, w_pc = WPaused\<rparr>\<rparr> = None" for a
    by (cases a) (simp_all add: sys_next_def sys_parent_def sys_offspring_def child_ended_def program_def zad2_child_def child_step_def)
  ultimately show ?thesis by (simp add: lost_wakeup_def)
qed

text \<open>The child has the mode and is on its way to the end.\<close>

definition arriving :: "(sig_call \<Rightarrow> bool) \<Rightarrow> lab2_pair \<Rightarrow> char \<Rightarrow> lab2_sys \<Rightarrow> bool" where
  "arriving r p m s \<longleftrightarrow> sys_pc s \<in> {Par_Wait, Par_Done 0} \<and> \<not> r (CSigaction SIGUSR2)
     \<and> (\<exists>c. sys_child s = Image c \<and> (done_as r p m c \<or>
          (c_proc c = waiting_proc (int (of_char m)) \<and> w_pc c \<in> {WTest, WSetup})))"

lemma arriving_step:
  assumes arr: "arriving r p m s" and m: "m \<in> {CHR ''d'', CHR ''m'', CHR ''i'', CHR ''h''}"
    and step: "sys_next (program r p) a s = Some t"
  shows "arriving r p m t"
proof -
  obtain c where c: "sys_child s = Image c" "done_as r p m c \<or>
      (c_proc c = waiting_proc (int (of_char m)) \<and> w_pc c \<in> {WTest, WSetup})" "sys_pc s \<in> {Par_Wait, Par_Done 0}"
      "\<not> r (CSigaction SIGUSR2)"
    using arr by (auto simp: arriving_def)
  show ?thesis
  proof (cases a)
    case (Par b)
    with step c show ?thesis by (auto simp: arriving_def sys_next_def sys_parent_def split: if_splits)
  next
    case (Chi b)
    then obtain c' where c': "program r p Step c = Some c'" "t = s\<lparr>sys_child := Image c'\<rparr>"
      using step c(1) by (auto simp: sys_next_def sys_offspring_def)
    then have "\<not> done_as r p m c" using done_ended program_running by blast
    with c program_waiting(1) [of c _ r p] program_setup [where r = r and p = p, OF _ _ c(4) m, of c] mode_value(1) [OF m] c'
    show ?thesis by (auto simp: arriving_def)
  qed
qed

lemma arriving_stuck:
  assumes arr: "arriving r p m s" and m: "m \<in> {CHR ''d'', CHR ''m'', CHR ''i'', CHR ''h''}"
    and none: "\<And>a. sys_next (program r p) a s = None"
  shows "sys_pc s = Par_Done 0 \<and> (\<exists>c. sys_child s = Image c \<and> done_as r p m c)"
proof -
  obtain c where c: "sys_child s = Image c" "done_as r p m c \<or>
      (c_proc c = waiting_proc (int (of_char m)) \<and> w_pc c \<in> {WTest, WSetup})" "sys_pc s \<in> {Par_Wait, Par_Done 0}"
      "\<not> r (CSigaction SIGUSR2)"
    using arr by (auto simp: arriving_def)
  have "program r p Step c = None" using none [of "Chi True"] c(1) by (simp add: sys_next_def sys_offspring_def)
  with c(2) program_waiting(1) [of c _ r p] program_setup [where r = r and p = p, OF _ _ c(4) m, of c] have d: "done_as r p m c" by auto
  with none [of "Par True"] c(1,3) done_ended [OF d] show ?thesis
    by (auto simp: sys_next_def sys_parent_def child_ended_def)
qed

text \<open>
  C33. What \<open>sleep(1)\<close> is for: when the child is in \<open>pause\<close> at the time the parent sends the mode
  and \<open>sigqueue\<close> works, every continuation that cannot go on has the parent's normal
  exit and a child that has printed and ended as \<open>zad1\<close> does when the same calls are refused
  (or, in the variant with \<open>dlopen\<close>, with an error when the library cannot be used).
\<close>

theorem lab2_mode_arrives:
  assumes "parse_input argv = Some m" "run_acts (sys_next (program refused p)) as (sys_start argv) = Some s"
    and "sys_pc s = Par_Send" "sys_child s = Image c" "w_pc c = WPaused"
    and "sys_next (program refused p) (Par True) s = Some u" "run_acts (sys_next (program refused p)) bs u = Some t"
    and "\<And>a. sys_next (program refused p) a t = None"
  shows "sys_pc t = Par_Done 0 \<and> (\<exists>c. sys_child t = Image c \<and> (out (c_proc c), stat (c_proc c)) =
        (if p = Zad3_Dynamic \<and> (refused CDlopen \<or> refused CDlsym) then ([Perror], Exited 1)
         else (out (zad1_main refused argv fresh_proc), stat (zad1_main refused argv fresh_proc))))"
proof -
  have good: "sys_good refused p m s" using sys.run_ok [OF assms(2)] sys_start_good [OF assms(1)] by blast
  then have m: "m \<in> {CHR ''d'', CHR ''m'', CHR ''i'', CHR ''h''}" "sys_mode s = m"
    by (simp_all only: sys_good_def sys_ok_def)
  have "not_told refused (sys_child s)" using good assms(3) by (simp add: sys_good_def sys_ok_def)
  then have c: "c_proc c = waiting_proc 0" "\<not> refused (CSigaction SIGUSR2)"
    using assms(4,5) by (auto simp: not_told_def child_init_def)
  then have "arriving refused p m u"
    using assms(3-6) m(2) program_usr2(2) [of c 0 refused p "int (of_char m)"]
    by (auto simp: arriving_def sys_next_def sys_parent_def receive_usr2_def)
  with assms(7) have "arriving refused p m t" by (induction rule: run_acts_induct) (simp, rule arriving_step [OF _ m(1)])
  from arriving_stuck [OF this m(1) assms(8)] child_outcome [OF assms(1), of refused p] c(2) show ?thesis
    by (auto simp: done_as_def child_outcome_def no_setup_def)
qed

theorem lab2_mode_arrives_witness:
  "\<exists>s t c. run_acts (sys_next (program none_refused Zad3_Dynamic)) (take 6 orderly) (sys_start [''main.out'', ''handle'']) = Some s
     \<and> run_acts (sys_next (program none_refused Zad3_Dynamic)) (drop 6 orderly) s = Some t \<and> sys_pc t = Par_Done 0
     \<and> sys_child t = Image c
     \<and> out (c_proc c) = out (zad1_main none_refused [''main.out'', ''handle''] fresh_proc)"
proof -
  let ?p = "program none_refused Zad3_Dynamic" and ?argv = "[''main.out'', ''handle'']"
  have p: "parse_input ?argv = Some CHR ''h''" by (simp add: parse_input_def c_strcmp_eq_def cstr_def)
  have "case run_acts (sys_next ?p) (take 6 orderly) (sys_start ?argv) of None \<Rightarrow> False
      | Some s \<Rightarrow> sys_pc s = Par_Send \<and> (case sys_child s of Image c \<Rightarrow> w_pc c = WPaused | _ \<Rightarrow> False) \<and>
          (case sys_next ?p (Par True) s of None \<Rightarrow> False | Some u \<Rightarrow>
            (case run_acts (sys_next ?p) (drop 7 orderly) u of None \<Rightarrow> False | Some t \<Rightarrow>
              sys_pc t = Par_Done 0 \<and> (case sys_child t of Image c \<Rightarrow> stat (c_proc c) = Exited 0 | _ \<Rightarrow> False)))"
    by code_simp
  then obtain s c u t d where s: "run_acts (sys_next ?p) (take 6 orderly) (sys_start ?argv) = Some s"
    "sys_pc s = Par_Send" "sys_child s = Image c" "w_pc c = WPaused" "sys_next ?p (Par True) s = Some u"
    "run_acts (sys_next ?p) (drop 7 orderly) u = Some t" and t: "sys_pc t = Par_Done 0" "sys_child t = Image d"
    "stat (c_proc d) = Exited 0"
    by (auto split: option.splits offspring.splits)
  have "sys_next ?p a t = None" for a using ended_stuck [OF t(1,2)] t(3) by simp
  from lab2_mode_arrives [OF p s this] t(2)
  have "out (c_proc d) = out (zad1_main none_refused ?argv fresh_proc)" by auto
  moreover have "run_acts (sys_next ?p) (drop 6 orderly) s = Some t"
    using s(5,6) by (simp add: orderly_def)
  ultimately show ?thesis using s(1) t(1,2) by blast
qed

section \<open>Output into a file\<close>

text \<open>
  \<open>printf\<close> keeps its lines in the buffer of the process until it exits, and a signal that
  ends it drops them; the handler's message is written at once.
\<close>

definition unbuffered :: "event \<Rightarrow> bool" where
  "unbuffered e \<longleftrightarrow> (case e of Handled _ \<Rightarrow> True | _ \<Rightarrow> False)"

definition file_output :: "event list \<times> status \<Rightarrow> event list" where
  "file_output r = (case r of (es, st) \<Rightarrow>
     filter unbuffered es @ (case st of Exited _ \<Rightarrow> filter (\<lambda>e. \<not> unbuffered e) es | _ \<Rightarrow> []))"

text \<open>
  Into a file, the modes \<open>default\<close> and \<open>mask\<close> leave nothing, and in the mode \<open>handle\<close> both
  messages of the handler come before the first number.
\<close>

lemma redirected_modes:
  assumes "ready s" "parse_input argv = Some m"
  defines "r \<equiv> zad1_main none_refused argv s"
  shows "m \<in> {CHR ''d'', CHR ''m''} \<Longrightarrow> file_output (out r, stat r) = []"
    "m = CHR ''h'' \<Longrightarrow> take 3 (file_output (out r, stat r)) = [Handled (handler_msg 10), Handled (handler_msg 10), Count 1]"
proof -
  have "(out r, stat r) = expected m"
    using mode_outcome [OF assms(1) parse_input_modes [OF assms(2)]] assms(2) by (simp add: r_def zad1_main_def Let_def)
  then show "m \<in> {CHR ''d'', CHR ''m''} \<Longrightarrow> file_output (out r, stat r) = []"
    "m = CHR ''h'' \<Longrightarrow> take 3 (file_output (out r, stat r)) = [Handled (handler_msg 10), Handled (handler_msg 10), Count 1]"
    by (auto simp: expected_def file_output_def unbuffered_def Let_def upt_rec numeral_3_eq_3)
qed

end
