(* ===== verification/Lab3Integ.thy ===== *)
theory Lab3Integ
  imports DoubleOrder
begin

text \<open>
  \<open>lab3/zad1/integrator.c\<close>: the integrand and the rectangle method.  The loop of
  \<open>rectangular_integration\<close> adds \<open>dx\<close> to a double until it reaches \<open>end\<close>; nothing in the
  code makes sure that this moves the double, so the loop is a partial function whose
  value is \<open>None\<close> when it does not return.  The theory gives its trace, a condition under
  which it ends with a bound on its rounds, and the condition under which it never ends.
\<close>

section \<open>The code\<close>

definition function_c :: "rat \<Rightarrow> rat" where
  "function_c x = ddiv 4 (dadd (dmul x x) 1)"

text \<open>The loop \<open>while (x < end) { result += function(x) * dx; x += dx; }\<close>.\<close>

partial_function (option) integration_loop :: "rat \<Rightarrow> rat \<Rightarrow> rat \<Rightarrow> rat \<Rightarrow> rat option" where
  "integration_loop end dx x result =
     (if x < end
      then integration_loop end dx (dadd x dx) (dadd result (dmul (function_c x) dx))
      else Some result)"

definition rectangular_integration :: "rat \<Rightarrow> rat \<Rightarrow> rat \<Rightarrow> rat option" where
  "rectangular_integration start end dx = integration_loop end dx start 0"

declare integration_loop.simps [code]

lemma integration_loop_step:
  "x < end \<Longrightarrow> integration_loop end dx x r
     = integration_loop end dx (dadd x dx) (dadd r (dmul (function_c x) dx))"
  "\<not> x < end \<Longrightarrow> integration_loop end dx x r = Some r"
  by (simp_all add: integration_loop.simps [of "end" dx x r])

text \<open>What holds of every call that returns: shown for the last test and passed back over a round.\<close>

lemma integration_loop_returns [consumes 1, case_names stop round]:
  assumes ret: "integration_loop end dx x r = Some y"
    and stop: "\<And>x r. \<not> x < end \<Longrightarrow> P x r r"
    and round: "\<And>x r y. x < end \<Longrightarrow> P (dadd x dx) (dadd r (dmul (function_c x) dx)) y \<Longrightarrow> P x r y"
  shows "P x r y"
proof -
  let ?Q = "\<lambda>e d x r y. e = end \<longrightarrow> d = dx \<longrightarrow> P x r y"
  have "(case (((end, dx), x), r) of (a, r) \<Rightarrow> (case a of (b, x) \<Rightarrow> (case b of (e, d) \<Rightarrow> ?Q e d) x) r) y"
  proof (rule integration_loop.raw_induct [where P = ?Q and xa = "(((end, dx), x), r)"])
    fix loop :: "rat \<Rightarrow> rat \<Rightarrow> rat \<Rightarrow> rat \<Rightarrow> rat option" and e d x r y :: rat
    assume IH: "\<And>e d x r y. loop e d x r = Some y \<Longrightarrow> ?Q e d x r y"
      and eq: "(if x < e then loop e d (dadd x d) (dadd r (dmul (function_c x) d)) else Some r) = Some y"
    show "?Q e d x r y"
    proof (cases "x < e")
      case True
      with eq IH [of e d "dadd x d" "dadd r (dmul (function_c x) d)" y] round show ?thesis by simp
    next
      case False
      with eq stop show ?thesis by simp
    qed
  qed (use ret in simp)
  then show ?thesis by simp
qed

section \<open>The values of \<open>x\<close> and \<open>result\<close> after \<open>k\<close> rounds\<close>

primrec node :: "rat \<Rightarrow> rat \<Rightarrow> nat \<Rightarrow> rat" where
  "node start dx 0 = start"
| "node start dx (Suc k) = dadd (node start dx k) dx"

primrec partial_result :: "rat \<Rightarrow> rat \<Rightarrow> nat \<Rightarrow> rat" where
  "partial_result start dx 0 = 0"
| "partial_result start dx (Suc k) =
     dadd (partial_result start dx k) (dmul (function_c (node start dx k)) dx)"

lemma integration_loop_rounds:
  assumes "\<And>j. j < k \<Longrightarrow> node start dx j < end"
  shows "integration_loop end dx start 0
           = integration_loop end dx (node start dx k) (partial_result start dx k)"
  using assms by (induction k) (simp_all add: integration_loop_step)

lemma integration_ends:
  assumes "\<And>j. j < n \<Longrightarrow> node start dx j < end" "end \<le> node start dx n"
  shows "rectangular_integration start end dx = Some (partial_result start dx n)"
  using assms integration_loop_rounds [of n start dx "end"]
  by (simp add: rectangular_integration_def integration_loop_step)

text \<open>The first round at which the loop stops, if there is one.\<close>

lemma integration_least:
  assumes "end \<le> node start dx m"
  obtains n where "n \<le> m" "\<And>j. j < n \<Longrightarrow> node start dx j < end" "end \<le> node start dx n"
    "rectangular_integration start end dx = Some (partial_result start dx n)"
proof -
  define n where "n = (LEAST n. end \<le> node start dx n)"
  have "end \<le> node start dx n" unfolding n_def using assms by (rule LeastI)
  moreover have "node start dx j < end" if "j < n" for j
    using not_less_Least that unfolding n_def by fastforce
  moreover have "n \<le> m" unfolding n_def using assms by (rule Least_le)
  ultimately show thesis using that integration_ends by blast
qed

section \<open>Termination\<close>

text \<open>Every round moves \<open>x\<close> by at least \<open>step\<close> while it is below \<open>end\<close>.\<close>

definition moves :: "rat \<Rightarrow> rat \<Rightarrow> rat \<Rightarrow> rat \<Rightarrow> bool" where
  "moves start end dx step \<longleftrightarrow> 0 < step \<and> (\<forall>x. start \<le> x \<longrightarrow> x < end \<longrightarrow> x + step \<le> dadd x dx)"

lemma moves_node:
  assumes "moves start end dx step" "\<And>j. j < k \<Longrightarrow> node start dx j < end"
  shows "start + of_nat k * step \<le> node start dx k"
  using assms(2)
proof (induction k)
  case 0
  then show ?case by simp
next
  case (Suc k)
  have h: "start + of_nat k * step \<le> node start dx k" using Suc by simp
  have "0 \<le> of_nat k * step" using assms(1) by (simp add: moves_def)
  with h have "start \<le> node start dx k" by linarith
  then have "node start dx k + step \<le> node start dx (Suc k)"
    using assms(1) Suc.prems [of k] by (simp add: moves_def)
  with h show ?case by (simp add: algebra_simps)
qed

text \<open>The loop then ends, and \<open>n\<close> rounds have moved \<open>x\<close> by \<open>n - 1\<close> steps inside the interval.\<close>

lemma moves_ends:
  assumes m: "moves start end dx step" and "start < end"
  obtains n where "0 < n" "\<And>j. j < n \<Longrightarrow> node start dx j < end" "end \<le> node start dx n"
    "of_nat n * step < end - start + step"
    "rectangular_integration start end dx = Some (partial_result start dx n)"
proof -
  have step: "0 < step" using m by (simp add: moves_def)
  obtain k where k: "end - start < of_nat k * step"
    using ex_less_of_nat_mult [OF step] by blast
  have "\<exists>m. end \<le> node start dx m"
  proof (rule ccontr)
    assume "\<not> ?thesis"
    then have "node start dx j < end" for j by (simp add: not_le)
    with moves_node [OF m, of k] have "start + of_nat k * step < end" using le_less_trans by blast
    with k show False by simp
  qed
  then obtain M where "end \<le> node start dx M" ..
  then obtain n where n: "\<And>j. j < n \<Longrightarrow> node start dx j < end" "end \<le> node start dx n"
      "rectangular_integration start end dx = Some (partial_result start dx n)"
    by (rule integration_least) blast
  have pos: "0 < n" using n(2) assms(2) by (cases n) auto
  then obtain l where l: "n = Suc l" by (cases n) auto
  have "start + of_nat l * step \<le> node start dx l" using n(1) by (intro moves_node [OF m]) (simp add: l)
  with n(1) [of l] have "of_nat n * step < end - start + step" by (simp add: l algebra_simps)
  with n pos show thesis using that by blast
qed

text \<open>A step of \<open>2 ^ -51\<close> of the largest number in the interval is enough.\<close>

lemma moves_half:
  assumes "\<bar>start\<bar> \<le> B" "\<bar>end\<bar> \<le> B" "B / 2 ^ 51 \<le> dx" "0 < dx"
  shows "moves start end dx (dx / 2)"
  unfolding moves_def
proof (intro conjI allI impI)
  fix x
  assume "start \<le> x" "x < end"
  with assms have "\<bar>x + dx\<bar> \<le> B + dx" by simp
  with dadd_error [of x dx] have "\<bar>dadd x dx - (x + dx)\<bar> \<le> (B + dx) / 2 ^ 53" by simp
  moreover have "(B + dx) / 2 ^ 53 \<le> dx / 2" using assms by simp
  ultimately show "x + dx / 2 \<le> dadd x dx" by linarith
qed (use assms in simp)

text \<open>
  The loop returns when \<open>dx\<close> is large enough against the bound \<open>B\<close> of the interval for
  every addition to move \<open>x\<close>.
\<close>

theorem integration_terminates:
  assumes "start < end" "\<bar>start\<bar> \<le> B" "\<bar>end\<bar> \<le> B" "B / 2 ^ 51 \<le> dx" "0 < dx"
  shows "\<exists>n. 0 < n \<and> of_nat n * dx < 2 * (end - start) + dx
           \<and> (\<forall>j<n. node start dx j < end) \<and> end \<le> node start dx n
           \<and> rectangular_integration start end dx = Some (partial_result start dx n)"
proof -
  obtain n where n: "0 < n" "\<And>j. j < n \<Longrightarrow> node start dx j < end" "end \<le> node start dx n"
    "of_nat n * (dx / 2) < end - start + dx / 2"
    "rectangular_integration start end dx = Some (partial_result start dx n)"
    by (rule moves_ends [OF moves_half [OF assms(2-5)] assms(1)]) blast
  from n(4) have "of_nat n * dx < 2 * (end - start) + dx" by simp
  with n show ?thesis by blast
qed

section \<open>Non-termination\<close>

text \<open>A value that an addition of \<open>dx\<close> does not move up is never passed.\<close>

lemma integration_loop_passes:
  assumes ret: "integration_loop end dx x r = Some y" and s: "s < end" "dadd s dx \<le> s"
  shows "s < x"
  using ret
proof (induction rule: integration_loop_returns)
  case (stop x r)
  with s show ?case by simp
next
  case (round x r y)
  show ?case
  proof (rule ccontr)
    assume "\<not> s < x"
    then have "x + dx \<le> s + dx" by simp
    from fl_mono [OF this] s(2) have "dadd x dx \<le> s" by (simp add: dadd_def)
    with round.IH show False by simp
  qed
qed

theorem integration_hangs:
  assumes "start \<le> s" "s < end" "dadd s dx \<le> s"
  shows "rectangular_integration start end dx = None"
proof (cases "rectangular_integration start end dx")
  case (Some y)
  then have "s < start"
    using integration_loop_passes [of "end" dx start 0 y s] assms(2,3) by (simp add: rectangular_integration_def)
  with assms(1) show ?thesis by simp
qed simp

text \<open>A step that is not positive never ends, wherever the interval lies.\<close>

lemma integration_nonpositive_step:
  assumes "is_double start" "start < end" "dx \<le> 0"
  shows "rectangular_integration start end dx = None"
  using assms by (intro integration_hangs [of start start] dadd_le_self) simp_all

text \<open>An empty interval gives zero without a round.\<close>

lemma integration_empty: "end \<le> start \<Longrightarrow> rectangular_integration start end dx = Some 0"
  by (simp add: rectangular_integration_def integration_loop_step)

end
