(* ===== verification/Lab3Accuracy.thy ===== *)
theory Lab3Accuracy
  imports Lab3Integ
begin

text \<open>
  How far the rectangle method of \<open>lab3/zad1/integrator.c\<close> is from the integral it stands
  for.  The integrand is \<open>4 / (x ^ 2 + 1)\<close>, so the exact integral from \<open>a\<close> to \<open>b\<close> is
  \<open>4 * (arctan b - arctan a)\<close>.  The bound has two parts: the rectangles, the last of which
  may reach past \<open>b\<close>, and the roundings of every round.
\<close>

section \<open>Rounding of the integrand\<close>

definition exact_fun :: "rat \<Rightarrow> rat" where
  "exact_fun x = 4 / (x * x + 1)"

lemma exact_fun_bounds: "0 < exact_fun x" "exact_fun x \<le> 4"
proof -
  have one: "1 \<le> x * x + 1" using zero_le_square [of x] by simp
  have "0 < x * x + 1" using one by linarith
  moreover have "4 \<le> 4 * (x * x + 1)" using mult_left_mono [OF one, of 4] by simp
  ultimately show "0 < exact_fun x" "exact_fun x \<le> 4"
    unfolding exact_fun_def by (simp_all only: pos_divide_le_eq divide_pos_pos zero_less_numeral)
qed

lemma fl_rel:
  assumes "0 < x"
  shows "x * (1 - 1 / 2 ^ 53) \<le> fl x" "fl x \<le> x * (1 + 1 / 2 ^ 53)"
proof -
  have "\<bar>fl x - x\<bar> \<le> x * (1 / 2 ^ 53)" using fl_error [of x] assms by simp
  then show "x * (1 - 1 / 2 ^ 53) \<le> fl x" "fl x \<le> x * (1 + 1 / 2 ^ 53)"
    unfolding abs_le_iff right_diff_distrib distrib_left by linarith+
qed

lemma function_c_error: "\<bar>function_c x - exact_fun x\<bar> \<le> exact_fun x * (4 / 2 ^ 53)"
proof -
  define u :: rat where "u = 1 / 2 ^ 53"
  define D where "D = x * x + 1"
  define p q where "p = fl (x * x)" and "q = fl (p + 1)"
  have u: "0 < u" "u < 1" by (simp_all add: u_def)
  have D: "1 \<le> D" by (simp add: D_def)
  have p: "0 \<le> p" "D * (1 - u) \<le> p + 1" "p + 1 \<le> D * (1 + u)"
  proof -
    show "0 \<le> p" by (simp add: p_def fl_nonneg)
    have "\<bar>p - x * x\<bar> \<le> x * x * u" using fl_error [of "x * x"] by (simp add: p_def u_def)
    then show "D * (1 - u) \<le> p + 1" "p + 1 \<le> D * (1 + u)"
      using u by (auto simp: D_def algebra_simps abs_le_iff)
  qed
  have q: "(p + 1) * (1 - u) \<le> q" "q \<le> (p + 1) * (1 + u)"
    using fl_rel [of "p + 1"] p(1) by (simp_all add: q_def u_def)
  have lo: "D * (1 - u) * (1 - u) \<le> q"
    using mult_right_mono [OF p(2), of "1 - u"] q(1) u by linarith
  have hi: "q \<le> D * (1 + u) * (1 + u)"
    using mult_right_mono [OF p(3), of "1 + u"] q(2) u by linarith
  have q0: "0 < q"
  proof -
    have "0 < D * (1 - u) * (1 - u)" using D u by simp
    from this lo show ?thesis by (rule less_le_trans)
  qed
  have F: "function_c x = fl (4 / q)"
    by (simp add: function_c_def ddiv_def dadd_def dmul_def p_def q_def)
  have r: "4 / q * (1 - u) \<le> function_c x" "function_c x \<le> 4 / q * (1 + u)"
    using fl_rel [of "4 / q"] q0 unfolding F u_def by simp_all
  have g: "exact_fun x = 4 / D" by (simp add: exact_fun_def D_def)
  have "4 / D * (1 - 4 * u) \<le> 4 / q * (1 - u)"
  proof -
    have "(1 - 4 * u) * ((1 + u) * (1 + u)) \<le> 1 - u" by (simp add: u_def)
    then have "D * ((1 - 4 * u) * ((1 + u) * (1 + u))) \<le> D * (1 - u)" using D by (intro mult_left_mono) simp_all
    moreover have "(1 - 4 * u) * q \<le> (1 - 4 * u) * (D * (1 + u) * (1 + u))"
      using hi by (intro mult_left_mono) (simp_all add: u_def)
    ultimately have "(1 - 4 * u) * q \<le> D * (1 - u)" by (simp add: ac_simps)
    then show ?thesis using D q0 by (simp add: divide_le_eq le_divide_eq field_simps)
  qed
  moreover have "4 / q * (1 + u) \<le> 4 / D * (1 + 4 * u)"
  proof -
    have "1 + u \<le> (1 + 4 * u) * ((1 - u) * (1 - u))" by (simp add: u_def)
    then have "D * (1 + u) \<le> D * ((1 + 4 * u) * ((1 - u) * (1 - u)))" using D by (intro mult_left_mono) simp_all
    moreover have "(1 + 4 * u) * (D * (1 - u) * (1 - u)) \<le> (1 + 4 * u) * q"
      using lo by (intro mult_left_mono) (simp_all add: u_def)
    ultimately have "D * (1 + u) \<le> (1 + 4 * u) * q" by (simp add: ac_simps)
    then show ?thesis using D q0 by (simp add: divide_le_eq le_divide_eq field_simps)
  qed
  ultimately have "4 / D * (1 - 4 * u) \<le> function_c x" "function_c x \<le> 4 / D * (1 + 4 * u)"
    using r by linarith+
  then show ?thesis unfolding g by (simp add: abs_le_iff u_def algebra_simps)
qed

text \<open>The term added in one round.\<close>

lemma term_error:
  assumes "0 < dx"
  shows "\<bar>dmul (function_c x) dx - exact_fun x * dx\<bar> \<le> dx * (24 / 2 ^ 53)"
proof -
  define g where "g = exact_fun x"
  have g: "0 < g" "g \<le> 4" using exact_fun_bounds by (simp_all add: g_def)
  have f: "\<bar>function_c x - g\<bar> \<le> g * (4 / 2 ^ 53)" unfolding g_def by (rule function_c_error)
  have f16: "\<bar>function_c x - g\<bar> \<le> 16 / 2 ^ 53" using f g by simp
  moreover have "(16 / 2 ^ 53 :: rat) \<le> 1" by simp
  ultimately have f5: "\<bar>function_c x\<bar> \<le> 5" using g by linarith
  have "\<bar>dmul (function_c x) dx - function_c x * dx\<bar> \<le> \<bar>function_c x\<bar> * dx / 2 ^ 53"
    using fl_error [of "function_c x * dx"] assms by (simp add: dmul_def abs_mult)
  also have "\<dots> \<le> dx * (5 / 2 ^ 53)" using f5 assms by simp
  finally have 1: "\<bar>dmul (function_c x) dx - function_c x * dx\<bar> \<le> dx * (5 / 2 ^ 53)" .
  have "\<bar>function_c x * dx - g * dx\<bar> = \<bar>function_c x - g\<bar> * dx"
    using assms by (simp add: abs_mult flip: left_diff_distrib)
  also have "\<dots> \<le> 16 / 2 ^ 53 * dx" using f16 assms by (intro mult_right_mono) simp_all
  finally have 2: "\<bar>function_c x * dx - g * dx\<bar> \<le> dx * (16 / 2 ^ 53)" by simp
  have "dx * (5 / 2 ^ 53) + dx * (16 / 2 ^ 53) \<le> dx * (24 / 2 ^ 53)" using assms by simp
  with 1 2 show ?thesis unfolding g_def [symmetric] by linarith
qed

section \<open>The exact integral\<close>

definition exact_real :: "real \<Rightarrow> real" where
  "exact_real x = 4 / (x * x + 1)"

definition pi_between :: "real \<Rightarrow> real \<Rightarrow> real" where
  "pi_between a b = 4 * arctan b - 4 * arctan a"

lemma pi_between_0_1: "pi_between 0 1 = pi"
  by (simp add: pi_between_def arctan_one)

lemma pi_between_add: "pi_between a b + pi_between b c = pi_between a c"
  by (simp add: pi_between_def)

lemma of_rat_exact_fun: "real_of_rat (exact_fun x) = exact_real (of_rat x)"
  by (simp add: exact_fun_def exact_real_def of_rat_divide of_rat_add of_rat_mult)

lemma exact_real_bounds: "0 < exact_real x" "exact_real x \<le> 4"
proof -
  have one: "1 \<le> x * x + 1" using zero_le_square [of x] by simp
  have "0 < x * x + 1" using one by linarith
  moreover have "4 \<le> 4 * (x * x + 1)" using mult_left_mono [OF one, of 4] by simp
  ultimately show "0 < exact_real x" "exact_real x \<le> 4"
    unfolding exact_real_def by (simp_all only: pos_divide_le_eq divide_pos_pos zero_less_numeral)
qed

lemma exact_real_antimono:
  assumes "0 \<le> x" "x \<le> y"
  shows "exact_real y \<le> exact_real x"
proof -
  have "x * x \<le> y * y" using assms by (intro mult_mono) auto
  moreover have "0 < x * x + 1" "0 < y * y + 1" by (simp_all add: add_nonneg_pos)
  ultimately show ?thesis unfolding exact_real_def by (intro divide_left_mono mult_pos_pos) auto
qed

lemma pi_between_bounds:
  assumes "0 \<le> x" "x \<le> y"
  shows "exact_real y * (y - x) \<le> pi_between x y" "pi_between x y \<le> exact_real x * (y - x)"
proof -
  have "exact_real y * (y - x) \<le> pi_between x y \<and> pi_between x y \<le> exact_real x * (y - x)"
  proof (cases "x = y")
    case True
    then show ?thesis by (simp add: pi_between_def)
  next
    case False
    with assms have "x < y" by simp
    have "\<exists>z>x. z < y \<and> 4 * arctan y - 4 * arctan x = (y - x) * exact_real z"
    proof (rule MVT2 [OF \<open>x < y\<close>])
      fix z
      have "((\<lambda>x. 4 * arctan x) has_real_derivative 4 * inverse (1 + z\<^sup>2)) (at z)"
        by (intro DERIV_cmult DERIV_arctan)
      then show "((\<lambda>x. 4 * arctan x) has_real_derivative exact_real z) (at z)"
        by (simp add: exact_real_def divide_inverse power2_eq_square add.commute)
    qed
    then obtain z where z: "x < z" "z < y" "pi_between x y = (y - x) * exact_real z"
      unfolding pi_between_def by blast
    have "exact_real y \<le> exact_real z" "exact_real z \<le> exact_real x"
      using z assms by (intro exact_real_antimono; simp)+
    with \<open>x < y\<close> show ?thesis unfolding z(3) mult.commute [of "y - x"] by simp
  qed
  then show "exact_real y * (y - x) \<le> pi_between x y" "pi_between x y \<le> exact_real x * (y - x)"
    by blast+
qed

lemma pi_between_le:
  assumes "0 \<le> x" "x \<le> y"
  shows "0 \<le> pi_between x y" "pi_between x y \<le> 4 * (y - x)"
proof -
  have "0 \<le> exact_real y * (y - x)" "exact_real x * (y - x) \<le> 4 * (y - x)"
    using exact_real_bounds [of x] exact_real_bounds [of y] assms
    by (auto simp del: right_diff_distrib_numeral intro!: mult_right_mono)
  with pi_between_bounds [OF assms] show "0 \<le> pi_between x y" "pi_between x y \<le> 4 * (y - x)"
    by linarith+
qed

section \<open>The error of a run\<close>

lemma of_rat_abs: "real_of_rat \<bar>x\<bar> = \<bar>real_of_rat x\<bar>"
  by (simp add: abs_if of_rat_minus)

lemma real_dadd_error:
  "\<bar>real_of_rat (dadd x y) - (of_rat x + of_rat y)\<bar> \<le> \<bar>real_of_rat x + of_rat y\<bar> * (1 / 2 ^ 53)"
proof -
  have "real_of_rat \<bar>dadd x y - (x + y)\<bar> \<le> real_of_rat (\<bar>x + y\<bar> / 2 ^ 53)"
    using dadd_error [of x y] by (simp only: of_rat_less_eq)
  then show ?thesis
    by (simp add: of_rat_abs of_rat_diff of_rat_add of_rat_divide of_rat_power)
qed

lemma real_term_error:
  assumes "0 < dx"
  shows "\<bar>real_of_rat (dmul (function_c x) dx) - exact_real (of_rat x) * of_rat dx\<bar>
           \<le> of_rat dx * (24 / 2 ^ 53)"
proof -
  have "real_of_rat \<bar>dmul (function_c x) dx - exact_fun x * dx\<bar> \<le> real_of_rat (dx * (24 / 2 ^ 53))"
    using term_error [OF assms, of x] by (simp only: of_rat_less_eq)
  then show ?thesis
    by (simp add: of_rat_abs of_rat_diff of_rat_mult of_rat_divide of_rat_power of_rat_exact_fun)
qed

text \<open>
  From here on: an interval inside \<open>[0, 1]\<close>, as the children of \<open>lab3/zad1/main.c\<close> get
  one, and a step between \<open>2 ^ -40\<close> and 1.
\<close>

definition slice_ok :: "rat \<Rightarrow> rat \<Rightarrow> rat \<Rightarrow> bool" where
  "slice_ok start end dx \<longleftrightarrow> 0 \<le> start \<and> start < end \<and> end \<le> 1 \<and> 1 / 2 ^ 40 \<le> dx \<and> dx \<le> 1"

lemma slice_ok_real:
  assumes "slice_ok start end dx"
  shows "0 \<le> real_of_rat start" "real_of_rat start < real_of_rat end" "real_of_rat end \<le> 1"
    "1 / 2 ^ 40 \<le> real_of_rat dx" "real_of_rat dx \<le> 1" "0 < real_of_rat dx" "0 < dx"
proof -
  have "real_of_rat (1 / 2 ^ 40) \<le> real_of_rat dx"
    using assms by (simp only: slice_ok_def of_rat_less_eq)
  then show d: "1 / 2 ^ 40 \<le> real_of_rat dx" by (simp add: of_rat_divide of_rat_power)
  show "0 < real_of_rat dx" by (rule less_le_trans [OF _ d]) simp
  then show "0 < dx" by simp
qed (use assms in \<open>simp_all add: slice_ok_def of_rat_less\<close>)

lemma slice_moves:
  assumes "slice_ok start end dx"
  shows "moves start end dx (dx * (1 - 1 / 2 ^ 12))"
  unfolding moves_def
proof (intro conjI allI impI)
  have dx: "0 < dx" using slice_ok_real [OF assms] by blast
  then show "0 < dx * (1 - 1 / 2 ^ 12)" by simp
  fix x
  assume "start \<le> x" "x < end"
  with assms dx have "\<bar>x + dx\<bar> \<le> 1 + dx" by (simp add: slice_ok_def)
  with dadd_error [of x dx] have "\<bar>dadd x dx - (x + dx)\<bar> \<le> (1 + dx) / 2 ^ 53" by simp
  moreover have "(1 + dx) / 2 ^ 53 \<le> dx / 2 ^ 12" using assms by (simp add: slice_ok_def)
  moreover have "dx * (1 - 1 / 2 ^ 12) = dx - dx / 2 ^ 12" by (simp add: algebra_simps)
  ultimately show "x + dx * (1 - 1 / 2 ^ 12) \<le> dadd x dx" by linarith
qed

text \<open>One round: the two nodes, and what the round adds to the result.\<close>

lemma round_width:
  assumes "0 \<le> x" "x < end" "real_of_rat end \<le> 1" "0 < dx"
  shows "\<bar>real_of_rat (dadd x dx) - (of_rat x + of_rat dx)\<bar> \<le> (1 + of_rat dx) * (1 / 2 ^ 53)"
proof -
  have "0 \<le> real_of_rat x" "real_of_rat x < of_rat end" "0 < real_of_rat dx"
    using assms by (simp_all add: of_rat_less)
  then have "\<bar>real_of_rat x + of_rat dx\<bar> \<le> 1 + of_rat dx" using assms(3) by linarith
  then have "\<bar>real_of_rat x + of_rat dx\<bar> * (1 / 2 ^ 53) \<le> (1 + of_rat dx) * (1 / 2 ^ 53)"
    by (rule mult_right_mono) simp
  with real_dadd_error show ?thesis by (rule order_trans)
qed

lemma round_error:
  fixes x S dx :: rat
  defines "X \<equiv> real_of_rat x" and "X' \<equiv> real_of_rat (dadd x dx)" and "D \<equiv> real_of_rat dx"
    and "T \<equiv> real_of_rat (dmul (function_c x) dx)"
  assumes X: "0 \<le> X" "X \<le> X'" and D: "0 < D"
    and w: "\<bar>X' - (X + D)\<bar> \<le> (1 + D) * (1 / 2 ^ 53)"
    and S: "\<bar>real_of_rat S\<bar> \<le> 12"
  shows "\<bar>real_of_rat (dadd S (dmul (function_c x) dx)) - (of_rat S + pi_between X X')\<bar>
           \<le> (exact_real X - exact_real X') * (X' - X) + (16 + 33 * D) * (1 / 2 ^ 53)"
proof -
  define u :: real where "u = 1 / 2 ^ 53"
  define g where "g = exact_real X"
  have g: "0 < g" "g \<le> 4" using exact_real_bounds by (simp_all add: g_def)
  have u: "0 < u" by (simp add: u_def)
  have dx: "0 < dx" using D by (simp add: D_def)
  have t: "\<bar>T - g * D\<bar> \<le> D * (24 * u)"
    using real_term_error [OF dx, of x] by (simp add: T_def g_def X_def D_def u_def)
  have "g * D \<le> 4 * D" using g D by (intro mult_right_mono) simp_all
  moreover have "0 \<le> g * D" using g D by simp
  moreover have "D * (24 * u) \<le> D" using D by (simp add: u_def)
  ultimately have T5: "\<bar>T\<bar> \<le> 5 * D" using t by linarith
  have e1: "\<bar>real_of_rat (dadd S (dmul (function_c x) dx)) - (of_rat S + T)\<bar> \<le> (12 + 5 * D) * u"
  proof -
    have "\<bar>of_rat S + T\<bar> * u \<le> (12 + 5 * D) * u" using S T5 u by (intro mult_right_mono) linarith+
    with real_dadd_error [of S "dmul (function_c x) dx"] show ?thesis by (simp add: T_def u_def)
  qed
  have e2: "\<bar>g * D - g * (X' - X)\<bar> \<le> 4 * ((1 + D) * u)"
  proof -
    have "\<bar>g * D - g * (X' - X)\<bar> = g * \<bar>X' - (X + D)\<bar>"
    proof -
      have "g * D - g * (X' - X) = - (g * (X' - (X + D)))" by (simp add: algebra_simps)
      then show ?thesis using g by (simp add: abs_mult)
    qed
    also have "\<dots> \<le> 4 * ((1 + D) * u)" using g w D u by (intro mult_mono) (simp_all add: u_def)
    finally show ?thesis .
  qed
  have e3: "\<bar>g * (X' - X) - pi_between X X'\<bar> \<le> (g - exact_real X') * (X' - X)"
    using pi_between_bounds [OF X] by (simp add: g_def left_diff_distrib abs_le_iff)
  have "(12 + 5 * D) * u + D * (24 * u) + 4 * ((1 + D) * u) = (16 + 33 * D) * u" by (simp add: algebra_simps)
  with e1 e2 e3 t show ?thesis unfolding u_def [symmetric] g_def [symmetric] by linarith
qed

lemma run_error:
  assumes ok: "slice_ok start end dx" and inside: "\<And>j. j < n \<Longrightarrow> node start dx j < end"
  defines "X \<equiv> \<lambda>k. real_of_rat (node start dx k)" and "D \<equiv> real_of_rat dx"
  shows "0 \<le> X n \<and> \<bar>of_rat (partial_result start dx n) - pi_between (X 0) (X n)\<bar>
      \<le> (D + (1 + D) * (1 / 2 ^ 53)) * (exact_real (X 0) - exact_real (X n)) + of_nat n * ((16 + 33 * D) * (1 / 2 ^ 53))"
  using inside
proof (induction n)
  case 0
  then show ?case using slice_ok_real [OF ok] by (simp add: X_def pi_between_def)
next
  case (Suc n)
  define u :: real where "u = 1 / 2 ^ 53"
  define H where "H = D + (1 + D) * u"
  define g where "g = (\<lambda>k. exact_real (X k))"
  define S where "S = real_of_rat (partial_result start dx n)"
  have r: "0 < D" "D \<le> 1" "1 / 2 ^ 40 \<le> D" using slice_ok_real [OF ok] by (simp_all add: D_def)
  have nodes: "node start dx j < end" if "j \<le> n" for j using Suc.prems [of j] that by simp
  have IH: "0 \<le> X n" "\<bar>S - pi_between (X 0) (X n)\<bar> \<le> H * (g 0 - g n) + of_nat n * ((16 + 33 * D) * u)"
    using Suc.IH nodes by (simp_all add: S_def H_def u_def g_def)
  have Xn: "X n < 1" using nodes [of n] slice_ok_real [OF ok] by (simp add: X_def of_rat_less)
  have moved: "start + of_nat n * (dx * (1 - 1 / 2 ^ 12)) \<le> node start dx n"
    using nodes by (intro moves_node [OF slice_moves [OF ok]]) simp
  have dx: "0 < dx" "1 / 2 ^ 40 \<le> dx" "0 \<le> start" "end \<le> 1" using ok slice_ok_real [OF ok] by (simp_all add: slice_ok_def)
  have "0 \<le> of_nat n * (dx * (1 - 1 / 2 ^ 12))" using dx by simp
  with moved have "start \<le> node start dx n" by linarith
  then have X0: "0 \<le> X 0" "X 0 \<le> X n" using dx by (simp_all add: X_def of_rat_less_eq)
  have cnt: "of_nat n * u \<le> 1 / 2 ^ 12"
  proof -
    have "of_nat n * (1 / 2 ^ 40 * (1 - 1 / 2 ^ 12)) \<le> of_nat n * (dx * (1 - 1 / 2 ^ 12))"
      using dx by (intro mult_left_mono mult_right_mono) simp_all
    also have "\<dots> \<le> 1" using moved nodes [of n] dx by linarith
    finally have "of_nat n \<le> (2 ^ 41 :: rat)" by simp
    then have "n \<le> 2 ^ 41" by (metis of_nat_le_iff of_nat_numeral of_nat_power)
    then have "real n \<le> 2 ^ 41" by (metis of_nat_le_iff of_nat_numeral of_nat_power)
    then show ?thesis by (simp add: u_def)
  qed
  have drop: "0 \<le> g 0 - g n" "g 0 - g n \<le> 4"
    using exact_real_antimono [OF X0] exact_real_bounds [of "X 0"] exact_real_bounds [of "X n"]
    by (simp_all add: g_def)
  have H: "0 < H" "H \<le> 3 / 2"
  proof -
    have "0 < (1 + D) * u" "(1 + D) * u \<le> 2 * u" "2 * u \<le> 1 / 2" using r by (auto simp: u_def)
    then show "0 < H" "H \<le> 3 / 2" using r unfolding H_def by linarith+
  qed
  have S: "\<bar>S\<bar> \<le> 12"
  proof -
    have "of_nat n * ((16 + 33 * D) * u) = (16 + 33 * D) * (of_nat n * u)" by simp
    also have "\<dots> \<le> 49 * (1 / 2 ^ 12)" using cnt r by (intro mult_mono) (simp_all add: u_def)
    finally have "of_nat n * ((16 + 33 * D) * u) \<le> 49 * (1 / 2 ^ 12)" .
    moreover have "H * (g 0 - g n) \<le> 3 / 2 * 4" using H drop by (intro mult_mono) simp_all
    moreover have "(49 :: real) * (1 / 2 ^ 12) \<le> 1/2" by simp
    moreover have "0 \<le> pi_between (X 0) (X n)" by (rule pi_between_le(1) [OF X0])
    moreover have "pi_between (X 0) (X n) \<le> 4" using pi_between_le(2) [OF X0] X0 Xn by simp
    ultimately show ?thesis using IH(2) by linarith
  qed
  have w: "\<bar>X (Suc n) - (X n + D)\<bar> \<le> (1 + D) * u"
    using round_width [of "node start dx n" "end" dx] IH(1) nodes [of n] slice_ok_real [OF ok] dx
    by (simp add: X_def D_def u_def)
  have "(1 + D) * u \<le> D" using r by (simp add: u_def)
  then have step: "X n \<le> X (Suc n)" "X (Suc n) - X n \<le> H" using w by (auto simp: H_def abs_le_iff)
  have "0 \<le> g n - g (Suc n)" using exact_real_antimono [OF IH(1) step(1)] by (simp add: g_def)
  then have "(g n - g (Suc n)) * (X (Suc n) - X n) \<le> (g n - g (Suc n)) * H"
    using step(2) by (intro mult_left_mono)
  moreover have "\<bar>real_of_rat (partial_result start dx (Suc n)) - (S + pi_between (X n) (X (Suc n)))\<bar>
      \<le> (g n - g (Suc n)) * (X (Suc n) - X n) + (16 + 33 * D) * u"
    using round_error [of "node start dx n" dx "partial_result start dx n"] IH(1) step(1) r w S
    by (simp add: X_def D_def u_def g_def S_def)
  moreover have "pi_between (X 0) (X n) + pi_between (X n) (X (Suc n)) = pi_between (X 0) (X (Suc n))"
    by (rule pi_between_add)
  moreover have "H * (g 0 - g n) + (g n - g (Suc n)) * H = H * (g 0 - g (Suc n))" by (simp add: algebra_simps)
  moreover have "of_nat n * ((16 + 33 * D) * u) + (16 + 33 * D) * u = of_nat (Suc n) * ((16 + 33 * D) * u)"
    by (simp add: algebra_simps)
  ultimately have "\<bar>real_of_rat (partial_result start dx (Suc n)) - pi_between (X 0) (X (Suc n))\<bar>
      \<le> H * (g 0 - g (Suc n)) + of_nat (Suc n) * ((16 + 33 * D) * u)"
    using IH(2) by linarith
  moreover have "0 \<le> X (Suc n)" using IH(1) step(1) by linarith
  ultimately show ?case by (simp only: H_def g_def u_def)
qed

lemma slice_error:
  assumes ok: "slice_ok start end dx"
  shows "\<exists>r. rectangular_integration start end dx = Some r
    \<and> \<bar>real_of_rat r - pi_between (of_rat start) (of_rat end)\<bar>
        \<le> 9 * of_rat dx + (of_rat end - of_rat start) / (2 ^ 48 * of_rat dx)"
proof -
  define X where "X = (\<lambda>k. real_of_rat (node start dx k))"
  define D W where "D = real_of_rat dx" and "W = real_of_rat end - real_of_rat start"
  define u :: real where "u = 1 / 2 ^ 53"
  define H where "H = D + (1 + D) * u"
  have r: "0 < D" "D \<le> 1" "1 / 2 ^ 40 \<le> D" "0 < W" "0 \<le> X 0" "real_of_rat end \<le> 1"
    using slice_ok_real [OF ok] by (simp_all add: D_def W_def X_def)
  have W1: "W \<le> 1" unfolding W_def using slice_ok_real(1,3) [OF ok] by linarith
  have dx: "0 < dx" "start < end" using ok slice_ok_real [OF ok] by (simp_all add: slice_ok_def)
  obtain n where n: "0 < n" "\<And>j. j < n \<Longrightarrow> node start dx j < end" "end \<le> node start dx n"
    "of_nat n * (dx * (1 - 1 / 2 ^ 12)) < end - start + dx * (1 - 1 / 2 ^ 12)"
    and ret: "rectangular_integration start end dx = Some (partial_result start dx n)"
    by (rule moves_ends [OF slice_moves [OF ok] dx(2)]) blast
  obtain l where l: "n = Suc l" using n(1) by (cases n) auto
  have err: "\<bar>of_rat (partial_result start dx n) - pi_between (X 0) (X n)\<bar>
      \<le> H * (exact_real (X 0) - exact_real (X n)) + of_nat n * ((16 + 33 * D) * u)"
    using run_error [OF ok n(2)] by (simp add: X_def D_def u_def H_def)
  have Xl: "0 \<le> X l" "X l < real_of_rat end"
    using run_error [OF ok, of l] n(2) l by (simp_all add: X_def of_rat_less)
  have Hpos: "0 < H" unfolding H_def using r by (auto simp: u_def intro!: add_pos_pos)
  have "\<bar>X n - (X l + D)\<bar> \<le> (1 + D) * u"
    using round_width [of "node start dx l" "end" dx] Xl(1) n(2) [of l] r(6) dx(1) l
    by (simp add: X_def D_def u_def)
  then have "X n \<le> X l + H" by (simp add: H_def abs_le_iff)
  then have over: "real_of_rat end \<le> X n" "X n - real_of_rat end \<le> H"
    using n(3) Xl(2) by (simp_all add: X_def of_rat_less_eq)
  have e0: "0 \<le> real_of_rat end" using r dx Xl by linarith
  have last: "\<bar>pi_between (X 0) (X n) - pi_between (X 0) (of_rat end)\<bar> \<le> 4 * H"
    using pi_between_le [OF e0 over(1)] over(2) pi_between_add [of "X 0" "of_rat end" "X n"] by simp
  have "exact_real (X 0) - exact_real (X n) \<le> 4"
    using exact_real_bounds [of "X 0"] exact_real_bounds [of "X n"] by linarith
  then have rect: "H * (exact_real (X 0) - exact_real (X n)) \<le> H * 4" using Hpos by (intro mult_left_mono) simp_all
  have cnt: "of_nat n * D \<le> W * (1 + 1 / 2 ^ 11) + D"
  proof -
    have "real_of_rat (of_nat n * (dx * (1 - 1 / 2 ^ 12))) < real_of_rat (end - start + dx * (1 - 1 / 2 ^ 12))"
      using n(4) by (simp only: of_rat_less)
    then have "of_nat n * (D * (1 - 1 / 2 ^ 12)) < W + D * (1 - 1 / 2 ^ 12)"
      by (simp add: of_rat_mult of_rat_add of_rat_diff of_rat_divide of_rat_power D_def W_def)
    then have "of_nat n * D * (1 - 1 / 2 ^ 12) \<le> (W * (1 + 1 / 2 ^ 11) + D) * (1 - 1 / 2 ^ 12)"
      using r by (simp add: algebra_simps)
    then show ?thesis by (rule mult_right_le_imp_le) simp
  qed
  have "of_nat n * ((16 + 33 * D) * u) \<le> D / 2 + W / (2 ^ 48 * D)"
  proof -
    have "of_nat n * 16 * u * D = 16 * u * (of_nat n * D)" by simp
    also have "\<dots> \<le> 16 * u * (W * (1 + 1 / 2 ^ 11) + D)" using cnt by (intro mult_left_mono) (simp_all add: u_def)
    also have "\<dots> \<le> 32 * u * W + 16 * u * D" using r by (simp add: u_def)
    also have "\<dots> = (W / (2 ^ 48 * D) + 16 * u) * D" using r by (simp add: u_def distrib_right)
    finally have 16: "of_nat n * 16 * u \<le> W / (2 ^ 48 * D) + 16 * u" using r(1) by simp
    have "W * (1 + 1 / 2 ^ 11) + D \<le> 3" using W1 r by simp
    with cnt have "33 * u * (of_nat n * D) \<le> 33 * u * 3" by (intro mult_left_mono) (simp_all add: u_def)
    moreover have "33 * u * 3 + 16 * u \<le> D / 2" using r by (simp add: u_def)
    moreover have "of_nat n * ((16 + 33 * D) * u) = of_nat n * 16 * u + 33 * u * (of_nat n * D)"
      by (simp add: algebra_simps)
    ultimately show ?thesis using 16 by linarith
  qed
  moreover have "8 * H \<le> 8 * D + D / 2" using r by (simp add: H_def u_def)
  ultimately have "\<bar>of_rat (partial_result start dx n) - pi_between (X 0) (of_rat end)\<bar>
      \<le> 9 * D + W / (2 ^ 48 * D)"
    using err rect last by linarith
  then show ?thesis using ret by (simp add: X_def D_def W_def)
qed

text \<open>
  C40. What \<open>rectangular_integration\<close> computes, on an interval inside \<open>[0, 1]\<close> whose start is a
  double: for a step between \<open>2 ^ -40\<close> and 1 it returns, and the result differs from the
  exact integral of \<open>4 / (x * x + 1)\<close> by at most nine steps and the width of the interval over
  \<open>2 ^ 48\<close> steps, all rounding included; for a step that is zero or negative it never returns.
\<close>

theorem integration_accuracy:
  assumes "is_double start" "0 \<le> start" "start < end" "end \<le> 1"
  shows "(1 / 2 ^ 40 \<le> dx \<and> dx \<le> 1 \<longrightarrow>
      (\<exists>r. rectangular_integration start end dx = Some r \<and>
         \<bar>real_of_rat r - (4 * arctan (of_rat end) - 4 * arctan (of_rat start))\<bar>
           \<le> 9 * of_rat dx + (of_rat end - of_rat start) / (2 ^ 48 * of_rat dx))) \<and>
    (dx \<le> 0 \<longrightarrow> rectangular_integration start end dx = None)"
  using slice_error [of start "end" dx] integration_nonpositive_step [of start "end" dx] assms
  by (simp add: slice_ok_def pi_between_def)

theorem integration_accuracy_witness:
  "(\<exists>r. rectangular_integration 0 1 (1 / 1000) = Some r \<and> \<bar>real_of_rat r - pi\<bar> \<le> 1 / 100) \<and>
   rectangular_integration 0 1 (- 1) = None"
proof -
  have d: "is_double 0" by (simp add: is_double_def)
  obtain r where "rectangular_integration 0 1 (1 / 1000) = Some r"
    "\<bar>real_of_rat r - (4 * arctan 1 - 4 * arctan 0)\<bar> \<le> 9 * of_rat (1 / 1000) + 1 / (2 ^ 48 * of_rat (1 / 1000))"
    using integration_accuracy [OF d, of 1 "1 / 1000"] by auto
  then have "rectangular_integration 0 1 (1 / 1000) = Some r \<and> \<bar>real_of_rat r - pi\<bar> \<le> 1 / 100"
    by (simp add: arctan_one of_rat_divide)
  then show ?thesis using integration_accuracy [OF d, of 1 "- 1"] by auto
qed

end
