(* ===== verification/Lab3Pi.thy ===== *)
theory Lab3Pi
  imports CNum Lab3Accuracy
begin

text \<open>
  \<open>lab3/zad1/main.c\<close>: for every \<open>k\<close> up to \<open>n\<close> the program forks \<open>k\<close> children, each with a
  pipe of its own; child \<open>i\<close> integrates the \<open>i\<close>-th of \<open>k\<close> slices of \<open>[0, 1]\<close> and writes the
  double into its pipe, and the parent reads the pipes in order, adds up what it gets and
  prints the sum.  Parent and children run in any order; a pipe knows which processes hold
  its ends, since that decides whether \<open>read\<close> waits, returns end of file, and whether
  \<open>write\<close> kills the writer.  Process 0 is the parent, process \<open>i + 1\<close> is child \<open>i\<close>.
\<close>

section \<open>Arguments\<close>

datatype pi_args = Usage | Bad_dx | Bad_n | Run rat int

definition DEFAULT_DX :: rat where "DEFAULT_DX = fl (1 / 1000000000)"

definition pi_parse :: "string list \<Rightarrow> pi_args" where
  "pi_parse argv =
     (if length argv \<noteq> 3 then Usage
      else (let (dx, rest) = c_strtod (argv ! 1)
            in if not_a_number (argv ! 1) rest \<or> dx < 0 then Bad_dx
               else (let (n, rest) = c_strtol (argv ! 2)
                     in if not_a_number (argv ! 2) rest \<or> n \<le> 0 then Bad_n
                        else Run (if dx = 0 then DEFAULT_DX else dx) n)))"

section \<open>Slices\<close>

definition slice_width :: "nat \<Rightarrow> rat" where
  "slice_width k = ddiv 1 (of_nat k)"

definition slice_start :: "nat \<Rightarrow> nat \<Rightarrow> rat" where
  "slice_start k i = dmul (of_nat i) (slice_width k)"

definition slice_end :: "nat \<Rightarrow> nat \<Rightarrow> rat" where
  "slice_end k i = dmul (of_nat (i + 1)) (slice_width k)"

definition partial_sum :: "rat \<Rightarrow> nat \<Rightarrow> nat \<Rightarrow> rat option" where
  "partial_sum dx k i = rectangular_integration (slice_start k i) (slice_end k i) dx"

section \<open>Processes and pipes\<close>

record upipe =
  p_data :: "rat list"
  p_wr :: "nat set"
  p_rd :: "nat set"

datatype pi_pc = Round | Pipe | Fork | Close_Wr | Read | Close_Rd | Wait | Print | Done int

datatype slice_pc = Absent | C_Close_Rd | C_Close_Old nat | C_Compute | C_Write rat
  | C_Close_Wr | Exited bool | Reaped bool

record pi_state =
  pi_pc :: pi_pc
  pi_dx :: rat
  pi_n :: nat
  pi_k :: nat
  pi_i :: nat
  pi_total :: rat
  pi_pipe :: "nat \<Rightarrow> upipe"
  pi_child :: "nat \<Rightarrow> slice_pc"
  pi_out :: "(nat \<times> rat) list"
  pi_tty :: bool
  pi_buf :: "(nat \<times> rat) list"
  pi_kbuf :: "nat \<Rightarrow> (nat \<times> rat) list"
  pi_file :: "(nat \<times> rat) list"
  pi_lost :: bool

text \<open>
  \<open>pi_out\<close> has the lines of all calls of \<open>printf\<close>.  On a terminal each line is written at
  once (\<open>pi_file\<close>); otherwise lines stay in the buffer of the process until it exits, and
  \<open>fork\<close> copies the buffer.  The buffer is taken to be large enough for all lines (it has
  4096 bytes, a line about 90).  \<open>pi_lost\<close> notes that the write of a child failed.
\<close>

text \<open>Which process acts, and whether a call of it that can fail succeeds.\<close>

datatype pi_act = Parent bool | Reap nat | Child nat bool

definition close_wr :: "nat \<Rightarrow> nat \<Rightarrow> pi_state \<Rightarrow> pi_state" where
  "close_wr p j s = s\<lparr>pi_pipe := (pi_pipe s)(j := (pi_pipe s j)\<lparr>p_wr := p_wr (pi_pipe s j) - {p}\<rparr>)\<rparr>"

definition close_rd :: "nat \<Rightarrow> nat \<Rightarrow> pi_state \<Rightarrow> pi_state" where
  "close_rd p j s = s\<lparr>pi_pipe := (pi_pipe s)(j := (pi_pipe s j)\<lparr>p_rd := p_rd (pi_pipe s j) - {p}\<rparr>)\<rparr>"

text \<open>The end of a process closes every descriptor it has.\<close>

definition close_all :: "nat \<Rightarrow> pi_state \<Rightarrow> pi_state" where
  "close_all p s = s\<lparr>pi_pipe := (\<lambda>j. (pi_pipe s j)\<lparr>p_wr := p_wr (pi_pipe s j) - {p},
                                               p_rd := p_rd (pi_pipe s j) - {p}\<rparr>)\<rparr>"

definition set_child :: "nat \<Rightarrow> slice_pc \<Rightarrow> pi_state \<Rightarrow> pi_state" where
  "set_child i c s = s\<lparr>pi_child := (pi_child s)(i := c)\<rparr>"

text \<open>A child starts with a copy of the descriptors and of the buffer the parent has at the \<open>fork\<close>.\<close>

definition inherit :: "nat \<Rightarrow> nat \<Rightarrow> nat set \<Rightarrow> nat set" where
  "inherit p q A = (if p \<in> A then insert q A else A)"

definition fork_child :: "nat \<Rightarrow> pi_state \<Rightarrow> pi_state" where
  "fork_child i s = set_child i C_Close_Rd
     (s\<lparr>pi_kbuf := (pi_kbuf s)(i := pi_buf s), pi_pipe := (\<lambda>j. (pi_pipe s j)\<lparr>p_wr := inherit 0 (Suc i) (p_wr (pi_pipe s j)),
                                   p_rd := inherit 0 (Suc i) (p_rd (pi_pipe s j))\<rparr>)\<rparr>)"

definition die :: "int \<Rightarrow> pi_state \<Rightarrow> pi_state" where
  "die status s = close_all 0 (s\<lparr>pi_pc := Done status, pi_file := pi_file s @ pi_buf s, pi_buf := []\<rparr>)"

definition printf_line :: "nat \<times> rat \<Rightarrow> pi_state \<Rightarrow> pi_state" where
  "printf_line l s =
     (if pi_tty s then s\<lparr>pi_out := pi_out s @ [l], pi_file := pi_file s @ [l]\<rparr>
      else s\<lparr>pi_out := pi_out s @ [l], pi_buf := pi_buf s @ [l]\<rparr>)"

lemma printf_line_fields [simp]:
  "pi_pc (printf_line l s) = pi_pc s" "pi_dx (printf_line l s) = pi_dx s" "pi_n (printf_line l s) = pi_n s"
  "pi_k (printf_line l s) = pi_k s" "pi_i (printf_line l s) = pi_i s" "pi_total (printf_line l s) = pi_total s"
  "pi_pipe (printf_line l s) = pi_pipe s" "pi_child (printf_line l s) = pi_child s"
  "pi_kbuf (printf_line l s) = pi_kbuf s" "pi_lost (printf_line l s) = pi_lost s"
  "pi_tty (printf_line l s) = pi_tty s" "pi_out (printf_line l s) = pi_out s @ [l]"
  by (simp_all add: printf_line_def)

text \<open>\<open>exit\<close> in a child writes what its buffer has; a signal that kills it does not.\<close>

definition exit_child :: "nat \<Rightarrow> bool \<Rightarrow> pi_state \<Rightarrow> pi_state" where
  "exit_child i ok s = set_child i (Exited ok)
     ((close_all (Suc i) s)\<lparr>pi_file := pi_file s @ pi_kbuf s i\<rparr>)"

text \<open>A child of the current round that has exited and was not waited for, or any child.\<close>

definition unreaped :: "slice_pc \<Rightarrow> bool" where
  "unreaped c \<longleftrightarrow> (case c of Absent \<Rightarrow> False | Reaped _ \<Rightarrow> False | _ \<Rightarrow> True)"

definition parent_next :: "bool \<Rightarrow> pi_state \<Rightarrow> pi_state option" where
  "parent_next ok s =
     (let i = pi_i s; k = pi_k s in
      case pi_pc s of
        Round \<Rightarrow>
          if k \<le> pi_n s
          then Some (if ok then s\<lparr>pi_pc := Pipe, pi_i := 0, pi_child := (\<lambda>_. Absent)\<rparr> else die 1 s)
          else Some (die 0 s)
      | Pipe \<Rightarrow>
          if i < k
          then Some (if ok then s\<lparr>pi_pc := Fork,
                                  pi_pipe := (pi_pipe s)(i := \<lparr>p_data = [], p_wr = {0}, p_rd = {0}\<rparr>)\<rparr>
                     else die 1 s)
          else Some (s\<lparr>pi_pc := Read, pi_i := 0, pi_total := 0\<rparr>)
      | Fork \<Rightarrow> Some (if ok then (fork_child i s)\<lparr>pi_pc := Close_Wr\<rparr> else die 1 s)
      | Close_Wr \<Rightarrow> Some ((close_wr 0 i s)\<lparr>pi_pc := Pipe, pi_i := Suc i\<rparr>)
      | Read \<Rightarrow>
          if i < k
          then (case p_data (pi_pipe s i) of
                  v # vs \<Rightarrow> Some (s\<lparr>pi_pc := Close_Rd, pi_total := dadd (pi_total s) v,
                                    pi_pipe := (pi_pipe s)(i := (pi_pipe s i)\<lparr>p_data := vs\<rparr>)\<rparr>)
                | [] \<Rightarrow> if p_wr (pi_pipe s i) = {} then Some (s\<lparr>pi_pc := Close_Rd\<rparr>) else None)
          else Some (s\<lparr>pi_pc := Print\<rparr>)
      | Close_Rd \<Rightarrow> Some ((close_rd 0 i s)\<lparr>pi_pc := Wait\<rparr>)
      | Wait \<Rightarrow>
          if \<exists>j\<in>{..<k}. unreaped (pi_child s j) then None
          else Some (s\<lparr>pi_pc := Read, pi_i := Suc i\<rparr>)
      | Print \<Rightarrow> Some ((printf_line (k, pi_total s) s)\<lparr>pi_pc := Round, pi_k := Suc k\<rparr>)
      | Done _ \<Rightarrow> None)"

text \<open>The parent's \<open>wait(NULL)\<close> takes one child that has exited.\<close>

definition reap_next :: "nat \<Rightarrow> pi_state \<Rightarrow> pi_state option" where
  "reap_next j s =
     (case pi_child s j of
        Exited st \<Rightarrow>
          if pi_pc s = Wait \<and> j < pi_k s
          then Some ((set_child j (Reaped st) s)\<lparr>pi_pc := Read, pi_i := Suc (pi_i s)\<rparr>)
          else None
      | _ \<Rightarrow> None)"

definition child_next :: "nat \<Rightarrow> bool \<Rightarrow> pi_state \<Rightarrow> pi_state option" where
  "child_next i ok s =
     (case pi_child s i of
        C_Close_Rd \<Rightarrow> Some (set_child i (C_Close_Old 0) (close_rd (Suc i) i s))
      | C_Close_Old j \<Rightarrow>
          if j < i then Some (set_child i (C_Close_Old (Suc j)) (close_rd (Suc i) j s))
          else Some (set_child i C_Compute s)
      | C_Compute \<Rightarrow>
          (case partial_sum (pi_dx s) (pi_k s) i of
             Some v \<Rightarrow> Some (set_child i (C_Write v) s)
           | None \<Rightarrow> None)
      | C_Write v \<Rightarrow>
          if p_rd (pi_pipe s i) = {}
          then Some ((set_child i (Exited False) (close_all (Suc i) s))\<lparr>pi_lost := True\<rparr>)
          else if \<not> ok
          then Some ((exit_child i False s)\<lparr>pi_lost := True\<rparr>)
          else Some (set_child i C_Close_Wr
                 (s\<lparr>pi_pipe := (pi_pipe s)(i := (pi_pipe s i)\<lparr>p_data := p_data (pi_pipe s i) @ [v]\<rparr>)\<rparr>))
      | C_Close_Wr \<Rightarrow> Some (exit_child i True (close_wr (Suc i) i s))
      | _ \<Rightarrow> None)"

definition pi_next :: "pi_act \<Rightarrow> pi_state \<Rightarrow> pi_state option" where
  "pi_next a s = (case a of Parent ok \<Rightarrow> parent_next ok s | Reap j \<Rightarrow> reap_next j s
     | Child i ok \<Rightarrow> child_next i ok s)"

definition pi_init :: "bool \<Rightarrow> rat \<Rightarrow> nat \<Rightarrow> pi_state" where
  "pi_init tty dx n = \<lparr>pi_pc = Round, pi_dx = dx, pi_n = n, pi_k = 1, pi_i = 0, pi_total = 0,
     pi_pipe = (\<lambda>_. \<lparr>p_data = [], p_wr = {}, p_rd = {}\<rparr>), pi_child = (\<lambda>_. Absent),
     pi_out = [], pi_tty = tty, pi_buf = [], pi_kbuf = (\<lambda>_. []), pi_file = [], pi_lost = False\<rparr>"

text \<open>\<open>main\<close>: the arguments decide between an error exit and the rounds.\<close>

definition pi_main :: "bool \<Rightarrow> string list \<Rightarrow> pi_state" where
  "pi_main tty argv = (case pi_parse argv of
     Run dx n \<Rightarrow> pi_init tty dx (nat n)
   | _ \<Rightarrow> (pi_init tty 0 0)\<lparr>pi_pc := Done 1\<rparr>)"

inductive pi_reach :: "bool \<Rightarrow> rat \<Rightarrow> nat \<Rightarrow> pi_state \<Rightarrow> bool" for tty dx n where
  init: "pi_reach tty dx n (pi_init tty dx n)"
| step: "pi_reach tty dx n s \<Longrightarrow> pi_next a s = Some s' \<Longrightarrow> pi_reach tty dx n s'"

section \<open>The sequential computation\<close>

text \<open>The sum of the \<open>k\<close> partial integrals in the order of the slices.\<close>

definition sequential_sum :: "rat \<Rightarrow> nat \<Rightarrow> rat option" where
  "sequential_sum dx k = map_option (foldl dadd 0) (those (map (partial_sum dx k) [0..<k]))"

lemma those_map_Some: "(\<And>x. x \<in> set xs \<Longrightarrow> f x = Some (g x)) \<Longrightarrow> those (map f xs) = Some (map g xs)"
  by (induction xs) auto

section \<open>Invariant\<close>

definition holds_wr :: "slice_pc \<Rightarrow> bool" where
  "holds_wr c \<longleftrightarrow> (case c of C_Close_Rd \<Rightarrow> True | C_Close_Old _ \<Rightarrow> True | C_Compute \<Rightarrow> True
     | C_Write _ \<Rightarrow> True | C_Close_Wr \<Rightarrow> True | _ \<Rightarrow> False)"

definition wrote :: "slice_pc \<Rightarrow> bool" where
  "wrote c \<longleftrightarrow> c \<in> {C_Close_Wr, Exited True, Reaped True}"

definition reaped :: "slice_pc \<Rightarrow> bool" where
  "reaped c \<longleftrightarrow> c \<in> {Reaped True, Reaped False}"

definition finished :: "pi_state \<Rightarrow> bool" where
  "finished s \<longleftrightarrow> (case pi_pc s of Done _ \<Rightarrow> True | _ \<Rightarrow> False)"

text \<open>How many children were forked in this round, and how many pipes were read.\<close>

definition created :: "pi_state \<Rightarrow> nat" where
  "created s = (case pi_pc s of Pipe \<Rightarrow> pi_i s | Fork \<Rightarrow> pi_i s | Close_Wr \<Rightarrow> Suc (pi_i s) | _ \<Rightarrow> pi_k s)"

definition read_to :: "pi_state \<Rightarrow> nat" where
  "read_to s = (case pi_pc s of Read \<Rightarrow> pi_i s | Close_Rd \<Rightarrow> Suc (pi_i s) | Wait \<Rightarrow> Suc (pi_i s)
     | Print \<Rightarrow> pi_k s | _ \<Rightarrow> 0)"

definition waited :: "pi_state \<Rightarrow> nat" where
  "waited s = (case pi_pc s of Read \<Rightarrow> pi_i s | Close_Rd \<Rightarrow> pi_i s | Wait \<Rightarrow> pi_i s | Print \<Rightarrow> pi_k s | _ \<Rightarrow> 0)"

definition value_of :: "pi_state \<Rightarrow> nat \<Rightarrow> rat" where
  "value_of s j = the (partial_sum (pi_dx s) (pi_k s) j)"

definition counter_ok :: "pi_state \<Rightarrow> bool" where
  "counter_ok s \<longleftrightarrow> 1 \<le> pi_k s \<and> pi_k s \<le> Suc (pi_n s) \<and>
     (case pi_pc s of Round \<Rightarrow> True
      | Pipe \<Rightarrow> pi_k s \<le> pi_n s \<and> pi_i s \<le> pi_k s | Read \<Rightarrow> pi_k s \<le> pi_n s \<and> pi_i s \<le> pi_k s
      | Print \<Rightarrow> pi_k s \<le> pi_n s
      | Done st \<Rightarrow> st = 0 \<longrightarrow> pi_k s = Suc (pi_n s)
      | _ \<Rightarrow> pi_k s \<le> pi_n s \<and> pi_i s < pi_k s)"

definition pi_pipe_ok :: "pi_state \<Rightarrow> nat \<Rightarrow> bool" where
  "pi_pipe_ok s j \<longleftrightarrow>
     p_wr (pi_pipe s j) = (if holds_wr (pi_child s j) then {Suc j} else {})
        \<union> (if j = pi_i s \<and> pi_pc s \<in> {Fork, Close_Wr} then {0} else {})
     \<and> p_data (pi_pipe s j) =
        (if wrote (pi_child s j) \<and> read_to s \<le> j \<and> pi_pc s \<noteq> Round then [value_of s j] else [])"

definition child_ok :: "pi_state \<Rightarrow> nat \<Rightarrow> bool" where
  "child_ok s j \<longleftrightarrow>
     (if pi_pc s = Round then \<not> unreaped (pi_child s j)
      else (pi_child s j = Absent \<longleftrightarrow> created s \<le> j)
         \<and> (\<forall>v. pi_child s j = C_Write v \<longrightarrow> partial_sum (pi_dx s) (pi_k s) j = Some v)
         \<and> (wrote (pi_child s j) \<longrightarrow> partial_sum (pi_dx s) (pi_k s) j \<noteq> None)
         \<and> (j < read_to s \<longrightarrow> wrote (pi_child s j) \<or> \<not> holds_wr (pi_child s j))
         \<and> (\<not> pi_lost s \<longrightarrow> pi_child s j \<noteq> Exited False \<and> pi_child s j \<noteq> Reaped False))"

definition sum_ok :: "pi_state \<Rightarrow> bool" where
  "sum_ok s \<longleftrightarrow>
     (pi_pc s \<in> {Read, Close_Rd, Wait, Print} \<longrightarrow>
        pi_total s = foldl dadd 0 (map (value_of s) (filter (\<lambda>j. wrote (pi_child s j)) [0..<read_to s])))
     \<and> (pi_pc s \<noteq> Round \<longrightarrow> card {j. j < pi_k s \<and> reaped (pi_child s j)} = waited s)"

definition line_ok :: "pi_state \<Rightarrow> nat \<times> rat \<Rightarrow> bool" where
  "line_ok s l \<longleftrightarrow> (case l of (k, t) \<Rightarrow>
     (\<exists>js. subseq js [0..<k] \<and> t = foldl dadd 0 (map (\<lambda>j. the (partial_sum (pi_dx s) k j)) js))
     \<and> (\<not> pi_lost s \<longrightarrow> sequential_sum (pi_dx s) k = Some t))"

definition out_ok :: "pi_state \<Rightarrow> bool" where
  "out_ok s \<longleftrightarrow> map fst (pi_out s) = [1..<pi_k s] \<and> (\<forall>l\<in>set (pi_out s). line_ok s l)"

definition pi_inv :: "pi_state \<Rightarrow> bool" where
  "pi_inv s \<longleftrightarrow> counter_ok s \<and> out_ok s
     \<and> (\<not> finished s \<longrightarrow> (\<forall>j. pi_pipe_ok s j \<and> child_ok s j) \<and> sum_ok s)"

lemmas pi_ops = close_wr_def close_rd_def close_all_def set_child_def fork_child_def inherit_def die_def
  exit_child_def
lemmas pi_views = holds_wr_def wrote_def reaped_def unreaped_def created_def read_to_def waited_def
  value_of_def finished_def

lemma parent_cases:
  assumes "parent_next ok s = Some s'"
  obtains (new_round) "pi_pc s = Round" "pi_k s \<le> pi_n s" "ok"
      "s' = s\<lparr>pi_pc := Pipe, pi_i := 0, pi_child := (\<lambda>_. Absent)\<rparr>"
    | (quit) st where "s' = die st s" "st = 0 \<longrightarrow> pi_pc s = Round \<and> pi_n s < pi_k s"
      "pi_pc s \<in> {Round, Pipe, Fork}"
    | (upipe) "pi_pc s = Pipe" "pi_i s < pi_k s"
      "s' = s\<lparr>pi_pc := Fork, pi_pipe := (pi_pipe s)(pi_i s := \<lparr>p_data = [], p_wr = {0}, p_rd = {0}\<rparr>)\<rparr>"
    | (all) "pi_pc s = Pipe" "pi_k s \<le> pi_i s" "s' = s\<lparr>pi_pc := Read, pi_i := 0, pi_total := 0\<rparr>"
    | (fork) "pi_pc s = Fork" "s' = (fork_child (pi_i s) s)\<lparr>pi_pc := Close_Wr\<rparr>"
    | (close_wr) "pi_pc s = Close_Wr" "s' = (close_wr 0 (pi_i s) s)\<lparr>pi_pc := Pipe, pi_i := Suc (pi_i s)\<rparr>"
    | (got) v vs where "pi_pc s = Read" "pi_i s < pi_k s" "p_data (pi_pipe s (pi_i s)) = v # vs"
      "s' = s\<lparr>pi_pc := Close_Rd, pi_total := dadd (pi_total s) v,
              pi_pipe := (pi_pipe s)(pi_i s := (pi_pipe s (pi_i s))\<lparr>p_data := vs\<rparr>)\<rparr>"
    | (eof) "pi_pc s = Read" "pi_i s < pi_k s" "p_data (pi_pipe s (pi_i s)) = []"
      "p_wr (pi_pipe s (pi_i s)) = {}" "s' = s\<lparr>pi_pc := Close_Rd\<rparr>"
    | (summed) "pi_pc s = Read" "pi_k s \<le> pi_i s" "s' = s\<lparr>pi_pc := Print\<rparr>"
    | (close_rd) "pi_pc s = Close_Rd" "s' = (close_rd 0 (pi_i s) s)\<lparr>pi_pc := Wait\<rparr>"
    | (none_left) "pi_pc s = Wait" "\<And>j. j < pi_k s \<Longrightarrow> \<not> unreaped (pi_child s j)"
      "s' = s\<lparr>pi_pc := Read, pi_i := Suc (pi_i s)\<rparr>"
    | (print) "pi_pc s = Print"
      "s' = (printf_line (pi_k s, pi_total s) s)\<lparr>pi_pc := Round, pi_k := Suc (pi_k s)\<rparr>"
proof -
  note eq = assms [unfolded parent_next_def Let_def]
  show thesis
  proof (cases "pi_pc s")
    case Round
    with eq show ?thesis by (cases ok) (simp_all add: new_round quit [of 0] quit [of 1] split: if_splits)
  next
    case Pipe
    with eq show ?thesis by (cases ok) (simp_all add: upipe all quit [of 1] split: if_splits)
  next
    case Fork
    with eq show ?thesis by (cases ok) (simp_all add: fork quit [of 1])
  next
    case Close_Wr
    with eq show ?thesis by (simp add: close_wr)
  next
    case Read
    with eq show ?thesis
      by (cases "p_data (pi_pipe s (pi_i s))") (simp_all add: got eof summed split: if_splits)
  next
    case Close_Rd
    with eq show ?thesis by (simp add: close_rd)
  next
    case Wait
    have left: "\<not> unreaped (pi_child s j)" if "j < pi_k s" for j
      using eq Wait that by (auto split: if_splits)
    with eq Wait show ?thesis by (auto split: if_splits intro: none_left)
  next
    case Print
    with eq show ?thesis by (simp add: print)
  qed (use eq in simp)
qed

lemma child_cases:
  assumes "child_next i ok s = Some s'"
  obtains (close_own) "pi_child s i = C_Close_Rd" "s' = set_child i (C_Close_Old 0) (close_rd (Suc i) i s)"
    | (close_old) j where "pi_child s i = C_Close_Old j" "j < i"
      "s' = set_child i (C_Close_Old (Suc j)) (close_rd (Suc i) j s)"
    | (start) j where "pi_child s i = C_Close_Old j" "\<not> j < i" "s' = set_child i C_Compute s"
    | (computed) v where "pi_child s i = C_Compute" "partial_sum (pi_dx s) (pi_k s) i = Some v"
      "s' = set_child i (C_Write v) s"
    | (killed) v where "pi_child s i = C_Write v"
      "s' = (set_child i (Exited False) (close_all (Suc i) s))\<lparr>pi_lost := True\<rparr>"
    | (failed) v where "pi_child s i = C_Write v" "s' = (exit_child i False s)\<lparr>pi_lost := True\<rparr>"
    | (sent) v where "pi_child s i = C_Write v" "ok" "p_rd (pi_pipe s i) \<noteq> {}"
      "s' = set_child i C_Close_Wr (s\<lparr>pi_pipe := (pi_pipe s)(i := (pi_pipe s i)
               \<lparr>p_data := p_data (pi_pipe s i) @ [v]\<rparr>)\<rparr>)"
    | (exit) "pi_child s i = C_Close_Wr" "s' = exit_child i True (close_wr (Suc i) i s)"
  using assms unfolding child_next_def
  by (cases "pi_child s i") (auto split: if_splits option.splits)

lemma reap_cases:
  assumes "reap_next j s = Some s'"
  obtains st where "pi_child s j = Exited st" "pi_pc s = Wait" "j < pi_k s"
    "s' = (set_child j (Reaped st) s)\<lparr>pi_pc := Read, pi_i := Suc (pi_i s)\<rparr>"
  using assms unfolding reap_next_def by (cases "pi_child s j") (auto split: if_splits)

lemma line_ok_mono:
  assumes "line_ok s l" "pi_dx s' = pi_dx s" "pi_lost s \<longrightarrow> pi_lost s'"
  shows "line_ok s' l"
  using assms by (auto simp: line_ok_def)

lemma reaped_all:
  assumes "card {j. j < k \<and> reaped (c j)} = k" "j < (k :: nat)"
  shows "reaped (c j)"
proof -
  have "{j. j < k \<and> reaped (c j)} = {..<k}"
    using assms(1) by (intro card_subset_eq) auto
  with assms(2) show ?thesis by blast
qed

lemma print_line_ok:
  assumes pc: "pi_pc s = Print" and s: "sum_ok s" and c: "\<And>j. child_ok s j"
  shows "line_ok s (pi_k s, pi_total s)"
proof -
  define js where "js = filter (\<lambda>j. wrote (pi_child s j)) [0..<pi_k s]"
  have total: "pi_total s = foldl dadd 0 (map (value_of s) js)"
    using s pc by (simp add: sum_ok_def js_def read_to_def)
  have all: "reaped (pi_child s j)" if "j < pi_k s" for j
    using s pc that by (intro reaped_all [of "pi_k s"]) (simp_all add: sum_ok_def waited_def)
  have "sequential_sum (pi_dx s) (pi_k s) = Some (pi_total s)" if "\<not> pi_lost s"
  proof -
    have w: "wrote (pi_child s j)" if "j < pi_k s" for j
      using all [OF that] c [of j] \<open>\<not> pi_lost s\<close> pc by (auto simp: child_ok_def reaped_def wrote_def)
    then have "js = [0..<pi_k s]" by (simp add: js_def)
    moreover have "partial_sum (pi_dx s) (pi_k s) j = Some (value_of s j)" if "j < pi_k s" for j
      using w [OF that] c [of j] pc by (auto simp: child_ok_def value_of_def)
    then have "those (map (partial_sum (pi_dx s) (pi_k s)) [0..<pi_k s]) = Some (map (value_of s) [0..<pi_k s])"
      by (intro those_map_Some) simp
    ultimately show ?thesis by (simp add: sequential_sum_def total)
  qed
  moreover have "subseq js [0..<pi_k s]" by (simp add: js_def)
  moreover have "value_of s = (\<lambda>j. the (partial_sum (pi_dx s) (pi_k s) j))" by (simp add: fun_eq_iff value_of_def)
  ultimately show ?thesis using total unfolding line_ok_def by auto
qed

lemma die_finished [simp]: "finished (die st s)"
  by (simp add: finished_def die_def close_all_def)

lemma parent_counter:
  assumes "counter_ok s" "parent_next ok s = Some s'"
  shows "counter_ok s'"
  using assms(2)
proof (cases rule: parent_cases)
  case (quit st)
  with assms(1) show ?thesis by (auto simp: counter_ok_def pi_ops)
qed (use assms(1) in \<open>simp_all add: counter_ok_def pi_ops\<close>)

lemma parent_pipe:
  assumes "pi_pipe_ok s j" "child_ok s j" "parent_next ok s = Some s'" "\<not> finished s'"
  shows "pi_pipe_ok s' j"
  using assms(3)
proof (cases rule: parent_cases)
  case new_round
  with assms show ?thesis by (simp add: pi_pipe_ok_def child_ok_def pi_views split: slice_pc.splits)
next
  case (quit st)
  with assms(4) show ?thesis by simp
next
  case upipe
  with assms show ?thesis by (auto simp: pi_pipe_ok_def child_ok_def pi_views)
next
  case all
  with assms show ?thesis by (simp add: pi_pipe_ok_def child_ok_def pi_views)
next
  case fork
  with assms show ?thesis by (cases "j = pi_i s") (auto simp: pi_pipe_ok_def child_ok_def pi_views pi_ops)
next
  case close_wr
  with assms show ?thesis by (cases "j = pi_i s") (auto simp: pi_pipe_ok_def child_ok_def pi_views pi_ops)
next
  case (got v vs)
  with assms show ?thesis by (cases "j = pi_i s") (auto simp: pi_pipe_ok_def child_ok_def pi_views split: if_splits)
next
  case eof
  with assms show ?thesis by (cases "j = pi_i s") (auto simp: pi_pipe_ok_def child_ok_def pi_views)
next
  case summed
  with assms show ?thesis by (auto simp: pi_pipe_ok_def child_ok_def pi_views)
next
  case close_rd
  with assms show ?thesis by (cases "j = pi_i s") (auto simp: pi_pipe_ok_def child_ok_def pi_views pi_ops)
next
  case none_left
  with assms show ?thesis by (auto simp: pi_pipe_ok_def child_ok_def pi_views)
next
  case print
  with assms show ?thesis by (auto simp: pi_pipe_ok_def child_ok_def pi_views)
qed

lemma none_left_impossible:
  assumes "counter_ok s" "sum_ok s" "\<And>j. child_ok s j" "pi_pc s = Wait"
    "\<And>j. j < pi_k s \<Longrightarrow> \<not> unreaped (pi_child s j)"
  shows False
proof -
  have "reaped (pi_child s j)" if "j < pi_k s" for j
    using assms(3) [of j] assms(4) assms(5) [OF that] that
    by (auto simp: child_ok_def pi_views split: slice_pc.splits)
  then have "{j. j < pi_k s \<and> reaped (pi_child s j)} = {..<pi_k s}" by auto
  then show False using assms(1,2,4) by (simp add: sum_ok_def waited_def counter_ok_def)
qed

lemma parent_child:
  assumes "counter_ok s" "sum_ok s" and c: "\<And>j. child_ok s j" and p: "\<And>j. pi_pipe_ok s j"
    and "parent_next ok s = Some s'" "\<not> finished s'"
  shows "child_ok s' j"
  using assms(5)
proof (cases rule: parent_cases)
  case new_round
  then show ?thesis by (simp add: child_ok_def pi_views)
next
  case (quit st)
  with assms(6) show ?thesis by simp
next
  case upipe
  with c [of j] show ?thesis by (simp add: child_ok_def pi_views)
next
  case all
  with c [of j] assms(1) show ?thesis by (simp add: child_ok_def pi_views counter_ok_def)
next
  case fork
  with c [of j] show ?thesis by (cases "j = pi_i s") (auto simp: child_ok_def pi_views pi_ops)
next
  case close_wr
  with c [of j] show ?thesis by (simp add: child_ok_def pi_views pi_ops)
next
  case (got v vs)
  with c [of j] p [of j] show ?thesis
    by (cases "j = pi_i s") (auto simp: child_ok_def pi_pipe_ok_def pi_views split: if_splits)
next
  case eof
  with c [of j] p [of j] show ?thesis
    by (cases "j = pi_i s") (auto simp: child_ok_def pi_pipe_ok_def pi_views split: if_splits)
next
  case summed
  with c [of j] assms(1) show ?thesis by (simp add: child_ok_def pi_views counter_ok_def)
next
  case close_rd
  with c [of j] show ?thesis by (simp add: child_ok_def pi_views pi_ops)
next
  case none_left
  with none_left_impossible [OF assms(1,2) c] show ?thesis by blast
next
  case print
  have "\<not> unreaped (pi_child s j)"
  proof (cases "j < pi_k s")
    case True
    then have "reaped (pi_child s j)"
      using print assms(2) by (intro reaped_all [of "pi_k s" "pi_child s"]) (simp_all add: sum_ok_def waited_def)
    then show ?thesis by (auto simp: reaped_def unreaped_def)
  next
    case False
    then show ?thesis using c [of j] print by (simp add: child_ok_def created_def unreaped_def)
  qed
  with print show ?thesis by (simp add: child_ok_def)
qed

lemma parent_sum:
  assumes "counter_ok s" "sum_ok s" and c: "\<And>j. child_ok s j" and p: "\<And>j. pi_pipe_ok s j"
    and "parent_next ok s = Some s'" "\<not> finished s'"
  shows "sum_ok s'"
  using assms(5)
proof (cases rule: parent_cases)
  case new_round
  then show ?thesis by (simp add: sum_ok_def pi_views)
next
  case (quit st)
  with assms(6) show ?thesis by simp
next
  case upipe
  with assms(2) show ?thesis by (simp add: sum_ok_def pi_views)
next
  case all
  with assms(2) show ?thesis by (simp add: sum_ok_def pi_views)
next
  case fork
  with assms(2) c [of "pi_i s"] have "{j. j < pi_k s \<and> reaped (pi_child s j)} = {}" "pi_child s (pi_i s) = Absent"
    by (auto simp: sum_ok_def child_ok_def pi_views)
  then have "\<not> reaped (((pi_child s)(pi_i s := C_Close_Rd)) j)" if "j < pi_k s" for j
    using that by (auto simp: reaped_def)
  with fork show ?thesis by (auto simp: sum_ok_def waited_def pi_ops)
next
  case close_wr
  with assms(2) show ?thesis by (simp add: sum_ok_def pi_views pi_ops)
next
  case (got v vs)
  have w: "wrote (pi_child s (pi_i s))" "v = value_of s (pi_i s)"
    using p [of "pi_i s"] got by (auto simp: pi_pipe_ok_def split: if_splits)
  have "value_of s' = value_of s" using got by (simp add: value_of_def fun_eq_iff)
  with got w assms(2) show ?thesis by (simp add: sum_ok_def read_to_def waited_def)
next
  case eof
  have w: "\<not> wrote (pi_child s (pi_i s))"
    using p [of "pi_i s"] eof by (auto simp: pi_pipe_ok_def read_to_def split: if_splits)
  have "value_of s' = value_of s" using eof by (simp add: value_of_def fun_eq_iff)
  with eof w assms(2) show ?thesis by (simp add: sum_ok_def read_to_def waited_def)
next
  case summed
  have "value_of s' = value_of s" "pi_i s = pi_k s" using summed assms(1) by (simp_all add: value_of_def fun_eq_iff counter_ok_def)
  with summed assms(2) show ?thesis by (simp add: sum_ok_def read_to_def waited_def)
next
  case close_rd
  have "value_of s' = value_of s" using close_rd by (simp add: value_of_def fun_eq_iff pi_ops)
  with close_rd assms(2) show ?thesis by (simp add: sum_ok_def read_to_def waited_def pi_ops)
next
  case none_left
  with none_left_impossible [OF assms(1,2) c] show ?thesis by blast
next
  case print
  then show ?thesis by (simp add: sum_ok_def)
qed

lemma parent_out:
  assumes "counter_ok s" "out_ok s" "sum_ok s" "\<And>j. child_ok s j" "parent_next ok s = Some s'"
  shows "out_ok s'"
  using assms(5)
proof (cases rule: parent_cases)
  case print
  have "line_ok s (pi_k s, pi_total s)" using print assms(3,4) by (intro print_line_ok)
  moreover have "[1..<Suc (pi_k s)] = [1..<pi_k s] @ [pi_k s]" using assms(1) by (simp add: counter_ok_def)
  ultimately show ?thesis using print assms(2) by (auto simp: out_ok_def line_ok_def)
qed (use assms(2) in \<open>simp_all add: out_ok_def line_ok_def pi_ops\<close>)

lemma parent_inv:
  assumes "pi_inv s" "parent_next ok s = Some s'"
  shows "pi_inv s'"
proof -
  have "\<not> finished s" using assms(2) by (auto simp: finished_def parent_next_def split: pi_pc.splits)
  with assms(1) have h: "counter_ok s" "out_ok s" "\<And>j. pi_pipe_ok s j" "\<And>j. child_ok s j" "sum_ok s"
    by (simp_all add: pi_inv_def)
  show ?thesis
    unfolding pi_inv_def
    using parent_counter [OF h(1) assms(2)] parent_out [OF h(1,2,5,4) assms(2)]
      parent_pipe [OF h(3,4) assms(2)] parent_child [OF h(1,5,4,3) assms(2)] parent_sum [OF h(1,5,4,3) assms(2)]
    by blast
qed

text \<open>A child leaves the parent's variables and the other children alone.\<close>

lemma child_frame:
  assumes "child_next i ok s = Some s'"
  shows "pi_pc s' = pi_pc s" "pi_dx s' = pi_dx s" "pi_n s' = pi_n s" "pi_k s' = pi_k s" "pi_i s' = pi_i s"
    "pi_total s' = pi_total s" "pi_out s' = pi_out s" "pi_lost s \<longrightarrow> pi_lost s'"
    "j \<noteq> i \<Longrightarrow> pi_child s' j = pi_child s j" "created s' = created s" "read_to s' = read_to s"
    "waited s' = waited s" "value_of s' = value_of s" "finished s' = finished s"
proof -
  have main: "pi_pc s' = pi_pc s \<and> pi_dx s' = pi_dx s \<and> pi_n s' = pi_n s \<and> pi_k s' = pi_k s \<and> pi_i s' = pi_i s
    \<and> pi_total s' = pi_total s \<and> pi_out s' = pi_out s \<and> (pi_lost s \<longrightarrow> pi_lost s')
    \<and> (j \<noteq> i \<longrightarrow> pi_child s' j = pi_child s j)"
    using assms by (cases rule: child_cases) (simp_all add: pi_ops)
  then show "pi_pc s' = pi_pc s" "pi_dx s' = pi_dx s" "pi_n s' = pi_n s" "pi_k s' = pi_k s" "pi_i s' = pi_i s"
    "pi_total s' = pi_total s" "pi_out s' = pi_out s" "pi_lost s \<longrightarrow> pi_lost s'"
    "j \<noteq> i \<Longrightarrow> pi_child s' j = pi_child s j" "created s' = created s" "read_to s' = read_to s"
    "waited s' = waited s" "value_of s' = value_of s" "finished s' = finished s"
    by (simp_all add: created_def read_to_def waited_def value_of_def finished_def fun_eq_iff split: pi_pc.split)
qed

lemma child_busy:
  assumes "child_next i ok s = Some s'"
  shows "holds_wr (pi_child s i)" "pi_child s i \<noteq> Absent" "\<not> reaped (pi_child s i)"
    "\<not> reaped (pi_child s' i)" "pi_child s' i \<noteq> Absent" "wrote (pi_child s i) \<Longrightarrow> wrote (pi_child s' i)"
proof -
  have "holds_wr (pi_child s i) \<and> pi_child s i \<noteq> Absent \<and> \<not> reaped (pi_child s i)
    \<and> \<not> reaped (pi_child s' i) \<and> pi_child s' i \<noteq> Absent \<and> (wrote (pi_child s i) \<longrightarrow> wrote (pi_child s' i))"
    using assms by (cases rule: child_cases) (simp_all add: holds_wr_def reaped_def wrote_def pi_ops)
  then show "holds_wr (pi_child s i)" "pi_child s i \<noteq> Absent" "\<not> reaped (pi_child s i)"
    "\<not> reaped (pi_child s' i)" "pi_child s' i \<noteq> Absent" "wrote (pi_child s i) \<Longrightarrow> wrote (pi_child s' i)"
    by simp_all
qed

lemma child_pipe:
  assumes "pi_pipe_ok s j" "child_ok s i" "child_next i ok s = Some s'"
  shows "pi_pipe_ok s' j"
proof (cases "j = i")
  case False
  have "p_data (pi_pipe s' j) = p_data (pi_pipe s j)
      \<and> (p_wr (pi_pipe s' j) = p_wr (pi_pipe s j) \<or> p_wr (pi_pipe s' j) = p_wr (pi_pipe s j) - {Suc i})"
    using assms(3) by (cases rule: child_cases) (use False in \<open>simp_all add: pi_ops\<close>)
  moreover have "Suc i \<notin> p_wr (pi_pipe s j)" using assms(1) False by (simp add: pi_pipe_ok_def)
  ultimately have "p_wr (pi_pipe s' j) = p_wr (pi_pipe s j)" "p_data (pi_pipe s' j) = p_data (pi_pipe s j)"
    by (auto split: if_splits)
  with assms(1) child_frame [OF assms(3)] child_frame(9) [OF assms(3) False] show ?thesis
    by (simp add: pi_pipe_ok_def)
next
  case True
  note frame = child_frame(1-8,10-14) [OF assms(3)]
  have nr: "pi_pc s \<noteq> Round" using assms(2) child_busy(1) [OF assms(3)]
    by (auto simp: child_ok_def unreaped_def holds_wr_def split: slice_pc.splits)
  have ahead: "wrote (pi_child s i) \<or> read_to s \<le> i"
    using assms(2) child_busy(1) [OF assms(3)] nr by (auto simp: child_ok_def not_less [symmetric])
  from assms(3) show ?thesis
    by (cases rule: child_cases) (use True assms(1,2) frame nr ahead in
        \<open>auto simp: pi_pipe_ok_def child_ok_def holds_wr_def wrote_def pi_ops value_of_def split: if_splits\<close>)
qed

lemma child_child:
  assumes "child_ok s j" "child_next i ok s = Some s'" "pi_pc s \<noteq> Round"
  shows "child_ok s' j"
proof (cases "j = i")
  case False
  with assms child_frame [OF assms(2)] child_frame(9) [OF assms(2) False] show ?thesis
    by (auto simp: child_ok_def)
next
  case True
  note frame = child_frame(1-8,10-14) [OF assms(2)]
  from assms(2) show ?thesis
    by (cases rule: child_cases) (use True assms(1,3) frame in
        \<open>auto simp: child_ok_def holds_wr_def wrote_def pi_ops split: if_splits\<close>)
qed

lemma child_sum:
  assumes "sum_ok s" "child_ok s i" "child_next i ok s = Some s'" "pi_pc s \<noteq> Round"
  shows "sum_ok s'"
proof -
  note frame = child_frame(1-8,10-14) [OF assms(3)]
  have r: "reaped (pi_child s' j) = reaped (pi_child s j)" for j
    using child_frame(9) [OF assms(3), of j] child_busy [OF assms(3)] by (cases "j = i") simp_all
  have "wrote (pi_child s' j) = wrote (pi_child s j)" if "j < read_to s" for j
  proof (cases "j = i")
    case True
    with that assms(2,4) child_busy(1) [OF assms(3)] have "wrote (pi_child s i)" by (simp add: child_ok_def)
    with child_busy(6) [OF assms(3)] True show ?thesis by simp
  qed (simp add: child_frame(9) [OF assms(3)])
  then have "filter (\<lambda>j. wrote (pi_child s' j)) [0..<read_to s] = filter (\<lambda>j. wrote (pi_child s j)) [0..<read_to s]"
    by (intro filter_cong) simp_all
  with assms(1) frame show ?thesis by (simp add: sum_ok_def r)
qed

lemma out_frame:
  assumes "out_ok s" "pi_k s' = pi_k s" "pi_out s' = pi_out s" "pi_dx s' = pi_dx s" "pi_lost s \<longrightarrow> pi_lost s'"
  shows "out_ok s'"
  using assms line_ok_mono [of s _ s'] by (simp add: out_ok_def)

lemma child_inv:
  assumes inv: "pi_inv s" and step: "child_next i ok s = Some s'"
  shows "pi_inv s'"
proof -
  have "counter_ok s'" using inv unfolding pi_inv_def counter_ok_def child_frame(1-5) [OF step] by blast
  moreover have "out_ok s'"
    using inv child_frame(2,4,7,8) [OF step] out_frame [of s s'] by (simp add: pi_inv_def)
  moreover have "(\<forall>j. pi_pipe_ok s' j \<and> child_ok s' j) \<and> sum_ok s'" if "\<not> finished s'"
  proof -
    have h: "\<And>j. pi_pipe_ok s j" "\<And>j. child_ok s j" "sum_ok s"
      using inv that child_frame(14) [OF step] by (simp_all add: pi_inv_def)
    have "pi_pc s \<noteq> Round" using h(2) [of i] child_busy(1) [OF step]
      by (auto simp: child_ok_def unreaped_def holds_wr_def split: slice_pc.splits)
    with child_pipe [OF h(1,2) step] child_child [OF h(2) step] child_sum [OF h(3,2) step] show ?thesis by blast
  qed
  ultimately show ?thesis by (simp add: pi_inv_def)
qed

lemma reap_inv:
  assumes inv: "pi_inv s" and step: "reap_next j s = Some s'"
  shows "pi_inv s'"
proof -
  obtain st where r: "pi_child s j = Exited st" "pi_pc s = Wait" "j < pi_k s"
    "s' = (set_child j (Reaped st) s)\<lparr>pi_pc := Read, pi_i := Suc (pi_i s)\<rparr>"
    using step by (rule reap_cases)
  have h: "counter_ok s" "out_ok s" "\<And>j. pi_pipe_ok s j" "\<And>j. child_ok s j" "sum_ok s"
    using inv r(2) by (simp_all add: pi_inv_def finished_def)
  have "counter_ok s'" using h(1) r by (simp add: counter_ok_def set_child_def)
  moreover have "out_ok s'" by (rule out_frame [OF h(2)]) (simp_all add: r(4) set_child_def)
  moreover have "pi_pipe_ok s' l" for l
    using h(3) [of l] r by (cases "l = j"; cases st) (auto simp: pi_pipe_ok_def pi_views set_child_def)
  moreover have "child_ok s' l" for l
    using h(4) [of l] r by (cases "l = j"; cases st) (auto simp: child_ok_def pi_views set_child_def)
  moreover have "sum_ok s'"
  proof -
    have w: "wrote (pi_child s' l) = wrote (pi_child s l)" for l
      using r by (cases st) (simp_all add: wrote_def set_child_def)
    have "{l. l < pi_k s \<and> reaped (pi_child s' l)} = insert j {l. l < pi_k s \<and> reaped (pi_child s l)}"
      using r by (cases st) (auto simp: reaped_def set_child_def)
    moreover have "j \<notin> {l. l < pi_k s \<and> reaped (pi_child s l)}" using r(1) by (simp add: reaped_def)
    ultimately have "card {l. l < pi_k s \<and> reaped (pi_child s' l)} = Suc (card {l. l < pi_k s \<and> reaped (pi_child s l)})"
      by simp
    moreover have "value_of s' = value_of s" using r(4) by (simp add: value_of_def set_child_def fun_eq_iff)
    moreover have "pi_pc s' = Read" "pi_i s' = Suc (pi_i s)" "pi_k s' = pi_k s" "pi_total s' = pi_total s"
      by (simp_all add: r(4) set_child_def)
    ultimately show ?thesis using h(5) r(2) by (simp add: sum_ok_def w waited_def read_to_def)
  qed
  ultimately show ?thesis by (simp add: pi_inv_def)
qed

lemma pi_reach_inv: "pi_reach tty dx n s \<Longrightarrow> pi_inv s \<and> pi_dx s = dx \<and> pi_n s = n"
proof (induction rule: pi_reach.induct)
  case init
  then show ?case
    by (simp add: pi_inv_def counter_ok_def out_ok_def pi_pipe_ok_def child_ok_def sum_ok_def pi_init_def pi_views)
next
  case (step s a s')
  show ?case
  proof (cases a)
    case (Parent ok)
    with step have p: "parent_next ok s = Some s'" by (simp add: pi_next_def)
    then have "pi_dx s' = pi_dx s \<and> pi_n s' = pi_n s" by (cases rule: parent_cases) (simp_all add: pi_ops)
    with step.IH parent_inv [OF _ p] show ?thesis by simp
  next
    case (Reap j)
    with step have p: "reap_next j s = Some s'" by (simp add: pi_next_def)
    then have "pi_dx s' = pi_dx s" "pi_n s' = pi_n s" by (auto elim!: reap_cases simp: set_child_def)
    with step.IH reap_inv [OF _ p] show ?thesis by simp
  next
    case (Child i ok)
    with step have p: "child_next i ok s = Some s'" by (simp add: pi_next_def)
    with step.IH child_inv [OF _ p] child_frame [OF p] show ?thesis by simp
  qed
qed

end
