(* ===== verification/Lab3PiProps.thy ===== *)
theory Lab3PiProps
  imports Lab3Pi
begin

text \<open>
  What \<open>lab3/zad1/main.c\<close> prints and whether it ends: the printed sums are those of the
  sequential computation whatever the order of the processes, every run ends when the
  integrals of the slices return, and the sums are near \<open>pi\<close> as long as \<open>dx\<close> is neither too
  small nor too large against the slices.
\<close>

section \<open>Runs\<close>

abbreviation pi_run :: "pi_act list \<Rightarrow> pi_state \<Rightarrow> pi_state option" where
  "pi_run \<equiv> run_acts pi_next"

lemma pi_run_reach: "pi_reach tty dx n s \<Longrightarrow> pi_run as s = Some s' \<Longrightarrow> pi_reach tty dx n s'"
  by (rotate_tac, induction rule: run_acts_induct) (auto intro: pi_reach.step)

text \<open>A run with one process and one rectangle, \<open>4 * 1\<close>.\<close>

definition example_run :: "pi_act list" where
  "example_run = [Parent True, Parent True, Parent True, Parent True, Parent True,
     Child 0 True, Child 0 True, Child 0 True, Child 0 True, Child 0 True,
     Parent True, Parent True, Reap 0, Parent True, Parent True, Parent True]"

lemma example_run_result:
  "map_option (\<lambda>s. (pi_pc s, pi_out s, pi_lost s)) (pi_run example_run (pi_init True 1 1))
     = Some (Done 0, [(1, 4)], False)"
  by code_simp

lemma example_state:
  obtains s where "pi_reach True 1 1 s" "pi_pc s = Done 0" "pi_out s = [(1, 4)]" "\<not> pi_lost s"
  using example_run_result pi_run_reach [OF pi_reach.init, of example_run True 1 1] by auto

section \<open>The output is that of a sequential program\<close>

text \<open>
  C5. Whatever the interleaving of the parent and the children: when the parent has
  ended normally and no write of a child has failed, it has printed one line for every \<open>k\<close>
  from 1 to \<open>n\<close>, in that order, with the sum a sequential program gets from adding the
  partial integrals in the order of the slices, to the last bit.
\<close>

theorem pi_prints_sequential_sums:
  assumes "pi_reach tty dx n s" "pi_pc s = Done 0" "\<not> pi_lost s"
  shows "map (\<lambda>(k, t). (k, Some t)) (pi_out s) = map (\<lambda>k. (k, sequential_sum dx k)) [1..<Suc n]"
proof -
  have inv: "pi_inv s" "pi_dx s = dx" "pi_n s = n" using pi_reach_inv [OF assms(1)] by simp_all
  then have k: "pi_k s = Suc n" using assms(2) by (simp add: pi_inv_def counter_ok_def)
  have "(k, Some t) = (k, sequential_sum dx k)" if "(k, t) \<in> set (pi_out s)" for k t
    using inv that assms(3) by (auto simp: pi_inv_def out_ok_def line_ok_def)
  then have "map (\<lambda>(k, t). (k, Some t)) (pi_out s) = map (\<lambda>k. (k, sequential_sum dx k)) (map fst (pi_out s))"
    by (simp add: case_prod_beta)
  with inv k show ?thesis by (simp add: pi_inv_def out_ok_def)
qed

theorem pi_prints_sequential_sums_witness:
  "\<exists>s. pi_reach True 1 1 s \<and> pi_out s = [(1, 4)] \<and> sequential_sum 1 1 = Some 4"
proof -
  obtain s where s: "pi_reach True 1 1 s" "pi_pc s = Done 0" "pi_out s = [(1, 4)]" "\<not> pi_lost s"
    by (rule example_state)
  from pi_prints_sequential_sums [OF s(1,2,4)] s(3) have "sequential_sum 1 1 = Some 4" by simp
  with s show ?thesis by blast
qed

section \<open>Every run ends\<close>

lemma child_enabled:
  assumes "holds_wr (pi_child s i)"
  shows "(\<exists>s'. pi_next (Child i True) s = Some s') \<or> partial_sum (pi_dx s) (pi_k s) i = None"
  using assms
  by (cases "pi_child s i") (auto simp: pi_next_def child_next_def holds_wr_def split: option.splits)

lemma parent_blocked:
  assumes "parent_next True s = None"
  shows "finished s
    \<or> (pi_pc s = Read \<and> pi_i s < pi_k s \<and> p_wr (pi_pipe s (pi_i s)) \<noteq> {})
    \<or> (pi_pc s = Wait \<and> (\<exists>j<pi_k s. unreaped (pi_child s j)))"
  using assms
  by (cases "pi_pc s") (auto simp: parent_next_def finished_def Let_def split: list.splits if_splits)

text \<open>The acts in which no call fails.\<close>

definition succeeds :: "pi_act \<Rightarrow> bool" where
  "succeeds a = (case a of Parent ok \<Rightarrow> ok | Reap _ \<Rightarrow> True | Child _ ok \<Rightarrow> ok)"

lemma pi_progress:
  assumes "pi_reach tty dx n s" "\<not> finished s" "\<And>k i. k \<le> n \<Longrightarrow> i < k \<Longrightarrow> partial_sum dx k i \<noteq> None"
  shows "\<exists>a s'. succeeds a \<and> pi_next a s = Some s'"
proof -
  have h: "counter_ok s" "\<And>j. pi_pipe_ok s j" "\<And>j. child_ok s j" "pi_dx s = dx" "pi_n s = n"
    using pi_reach_inv [OF assms(1)] assms(2) by (simp_all add: pi_inv_def)
  have acts: "succeeds (Parent True)" "succeeds (Reap j)" "succeeds (Child j True)" for j
    by (simp_all add: succeeds_def)
  have run: "\<exists>a s'. succeeds a \<and> pi_next a s = Some s'" if "holds_wr (pi_child s i)" "pi_k s \<le> n" "i < pi_k s" for i
    using child_enabled [OF that(1)] assms(3) [OF that(2,3)] h(4) acts by auto
  consider (read) "pi_pc s = Read" "pi_i s < pi_k s" "p_wr (pi_pipe s (pi_i s)) \<noteq> {}"
    | (wait) j where "pi_pc s = Wait" "j < pi_k s" "unreaped (pi_child s j)"
    | (other) s' where "parent_next True s = Some s'"
    using parent_blocked [of s] assms(2) by (cases "parent_next True s") auto
  then show ?thesis
  proof cases
    case read
    with h(2) [of "pi_i s"] have "holds_wr (pi_child s (pi_i s))" by (auto simp: pi_pipe_ok_def split: if_splits)
    moreover have "pi_k s \<le> n" using h(1,5) read(1) by (simp add: counter_ok_def)
    ultimately show ?thesis using run read(2) by blast
  next
    case wait
    show ?thesis
    proof (cases "holds_wr (pi_child s j)")
      case True
      moreover have "pi_k s \<le> n" using h(1,5) wait(1) by (simp add: counter_ok_def)
      ultimately show ?thesis using run wait(2) by blast
    next
      case False
      with wait obtain st where "pi_child s j = Exited st"
        by (cases "pi_child s j") (auto simp: holds_wr_def unreaped_def)
      with wait have "pi_next (Reap j) s \<noteq> None" by (simp add: pi_next_def reap_next_def)
      with acts show ?thesis by blast
    qed
  next
    case other
    then have "pi_next (Parent True) s = Some s'" by (simp add: pi_next_def)
    with acts show ?thesis by blast
  qed
qed

text \<open>Rounds left, then what the parent has left in the round, then what the children have left.\<close>

definition parent_rank :: "pi_state \<Rightarrow> nat" where
  "parent_rank s =
     (let l = pi_k s - pi_i s; c = 3 * pi_k s + 1
      in case pi_pc s of Round \<Rightarrow> 6 * pi_k s + 4 | Pipe \<Rightarrow> c + 3 * l + 2 | Fork \<Rightarrow> c + 3 * l + 1
         | Close_Wr \<Rightarrow> c + 3 * l | Read \<Rightarrow> 3 * l + 2 | Close_Rd \<Rightarrow> 3 * l + 1 | Wait \<Rightarrow> 3 * l
         | Print \<Rightarrow> 1 | Done _ \<Rightarrow> 0)"

definition child_rank :: "nat \<Rightarrow> slice_pc \<Rightarrow> nat" where
  "child_rank j c = (case c of C_Close_Rd \<Rightarrow> j + 5 | C_Close_Old l \<Rightarrow> (j - l) + 4 | C_Compute \<Rightarrow> 3
     | C_Write _ \<Rightarrow> 2 | C_Close_Wr \<Rightarrow> 1 | _ \<Rightarrow> 0)"

definition pi_rank :: "pi_state \<Rightarrow> nat \<times> nat \<times> nat" where
  "pi_rank s = (Suc (pi_n s) - pi_k s, parent_rank s, \<Sum>j\<le>pi_n s. child_rank j (pi_child s j))"

lemma parent_rank_less:
  assumes "counter_ok s" "parent_next ok s = Some s'"
  shows "(pi_rank s', pi_rank s) \<in> less_than <*lex*> less_than <*lex*> less_than"
  using assms(2)
proof (cases rule: parent_cases)
  case (quit st)
  then show ?thesis by (auto simp: pi_rank_def parent_rank_def Let_def pi_ops)
qed (use assms(1) in \<open>auto simp: pi_rank_def parent_rank_def Let_def pi_ops counter_ok_def\<close>)

lemma reap_rank_less:
  assumes "counter_ok s" "reap_next j s = Some s'"
  shows "(pi_rank s', pi_rank s) \<in> less_than <*lex*> less_than <*lex*> less_than"
proof -
  from assms(2) obtain st where r: "pi_pc s = Wait"
    "s' = (set_child j (Reaped st) s)\<lparr>pi_pc := Read, pi_i := Suc (pi_i s)\<rparr>" by (rule reap_cases)
  with assms(1) have "pi_i s < pi_k s" by (simp add: counter_ok_def)
  then have "3 * (pi_k s - Suc (pi_i s)) + 2 < 3 * (pi_k s - pi_i s)" by linarith
  with r show ?thesis by (simp add: pi_rank_def parent_rank_def set_child_def)
qed

lemma child_rank_less:
  assumes "child_next i ok s = Some s'" "i \<le> pi_n s"
  shows "(pi_rank s', pi_rank s) \<in> less_than <*lex*> less_than <*lex*> less_than"
proof -
  have "child_rank i (pi_child s' i) < child_rank i (pi_child s i)"
    using assms(1) by (cases rule: child_cases) (simp_all add: child_rank_def pi_ops)
  moreover have "child_rank j (pi_child s' j) \<le> child_rank j (pi_child s j)" for j
    using child_frame(9) [OF assms(1), of j] calculation by (cases "j = i") simp_all
  ultimately have "(\<Sum>j\<le>pi_n s. child_rank j (pi_child s' j)) < (\<Sum>j\<le>pi_n s. child_rank j (pi_child s j))"
    using assms(2) by (intro sum_strict_mono_ex1) auto
  moreover have "parent_rank s' = parent_rank s"
    unfolding parent_rank_def child_frame(1,4,5) [OF assms(1)] ..
  ultimately show ?thesis using child_frame(3,4) [OF assms(1)] by (simp add: pi_rank_def)
qed

text \<open>Also after an error exit of the parent, only children of the last round are left.\<close>

lemma active_children: "pi_reach tty dx n s \<Longrightarrow> holds_wr (pi_child s i) \<Longrightarrow> i \<le> n"
proof (induction arbitrary: i rule: pi_reach.induct)
  case init
  then show ?case by (simp add: pi_init_def holds_wr_def)
next
  case (step s a s')
  note inv = pi_reach_inv [OF step.hyps(1)]
  show ?case
  proof (cases a)
    case (Parent ok)
    with step have p: "parent_next ok s = Some s'" by (simp add: pi_next_def)
    have "pi_child s' = pi_child s \<or> pi_child s' = (\<lambda>_. Absent)
        \<or> (pi_child s' = (pi_child s)(pi_i s := C_Close_Rd) \<and> pi_i s < n)"
      using p inv by (cases rule: parent_cases) (simp_all add: pi_ops pi_inv_def counter_ok_def)
    with step.IH [of i] step.prems show ?thesis by (auto simp: holds_wr_def split: if_splits)
  next
    case (Reap j)
    with step show ?thesis
      by (auto elim!: reap_cases simp: pi_next_def set_child_def holds_wr_def split: if_splits)
  next
    case (Child j ok)
    with step have c: "child_next j ok s = Some s'" by (simp add: pi_next_def)
    show ?thesis
    proof (cases "i = j")
      case True
      with step.IH child_busy(1) [OF c] show ?thesis by simp
    next
      case False
      with step child_frame(9) [OF c False] show ?thesis by simp
    qed
  qed
qed

lemma pi_step_rank:
  assumes "pi_reach tty dx n s" "pi_next a s = Some s'"
  shows "(pi_rank s', pi_rank s) \<in> less_than <*lex*> less_than <*lex*> less_than"
proof (cases a)
  case (Parent ok)
  with assms pi_reach_inv [OF assms(1)] show ?thesis by (auto simp: pi_next_def pi_inv_def intro: parent_rank_less)
next
  case (Reap j)
  with assms pi_reach_inv [OF assms(1)] show ?thesis by (auto simp: pi_next_def pi_inv_def intro: reap_rank_less)
next
  case (Child i ok)
  with assms have c: "child_next i ok s = Some s'" by (simp add: pi_next_def)
  from active_children [OF assms(1) child_busy(1) [OF c]] pi_reach_inv [OF assms(1)] child_rank_less [OF c]
  show ?thesis by simp
qed

text \<open>The integrals of the slices return for a step of at least \<open>2 ^ -50\<close>.\<close>

lemma slice_bounds:
  assumes "i < k"
  shows "0 \<le> slice_start k i" "slice_start k i \<le> 2" "0 \<le> slice_end k i" "slice_end k i \<le> 2"
proof -
  define w where "w = slice_width k"
  have k: "0 < k" using assms by simp
  have w: "0 \<le> w" "of_nat k * w \<le> 2"
  proof -
    show "0 \<le> w" by (simp add: w_def slice_width_def ddiv_def fl_nonneg)
    have "w \<le> 1 / of_nat k * (1 + 1 / 2 ^ 53)"
      using fl_rel(2) [of "1 / of_nat k"] k by (simp add: w_def slice_width_def ddiv_def)
    then have "of_nat k * w \<le> of_nat k * (1 / of_nat k * (1 + 1 / 2 ^ 53))" by (intro mult_left_mono) simp_all
    then show "of_nat k * w \<le> 2" using k by simp
  qed
  have two: "fl 2 = 2" using fl_of_int [of 2] by simp
  have "0 \<le> fl (of_nat j * w) \<and> fl (of_nat j * w) \<le> 2" if "j \<le> k" for j
  proof -
    have "of_nat j * w \<le> of_nat k * w" using that w(1) by (intro mult_right_mono) simp_all
    with w(2) have "of_nat j * w \<le> 2" by linarith
    from fl_mono [OF this] w(1) show ?thesis by (simp add: two fl_nonneg)
  qed
  from this [of i] this [of "i + 1"] assms
  show "0 \<le> slice_start k i" "slice_start k i \<le> 2" "0 \<le> slice_end k i" "slice_end k i \<le> 2"
    by (simp_all add: slice_start_def slice_end_def dmul_def w_def)
qed

lemma partial_sum_returns:
  assumes "i < k" "1 / 2 ^ 50 \<le> dx"
  shows "partial_sum dx k i \<noteq> None"
proof (cases "slice_start k i < slice_end k i")
  case True
  have "(0::rat) < 1 / 2 ^ 50" by simp
  with assms(2) have "0 < dx" by (rule less_le_trans [rotated])
  moreover have "2 / 2 ^ 51 \<le> dx" using assms(2) by simp
  ultimately show ?thesis
    using integration_terminates [OF True, of 2 dx] slice_bounds [OF assms(1)] by (auto simp: partial_sum_def)
next
  case False
  then show ?thesis by (simp add: partial_sum_def integration_empty)
qed

text \<open>
  C6. For a \<open>dx\<close> of at least \<open>2 ^ -50\<close> there is no infinite run, and a run that cannot go
  on is one in which the parent has exited: no deadlock on the pipes or in \<open>wait\<close>, also when
  calls fail.
\<close>

theorem pi_every_run_ends:
  assumes "1 / 2 ^ 50 \<le> dx"
  shows "wf {(s', s). pi_reach tty dx n s \<and> (\<exists>a. pi_next a s = Some s')}
    \<and> (\<forall>s. pi_reach tty dx n s \<longrightarrow> (\<forall>a. pi_next a s = None) \<longrightarrow> (\<exists>st. pi_pc s = Done st))"
proof (intro conjI allI impI)
  have "{(s', s). pi_reach tty dx n s \<and> (\<exists>a. pi_next a s = Some s')}
      \<subseteq> inv_image (less_than <*lex*> less_than <*lex*> less_than) pi_rank"
    using pi_step_rank by (auto simp: inv_image_def)
  then show "wf {(s', s). pi_reach tty dx n s \<and> (\<exists>a. pi_next a s = Some s')}"
    by (rule wf_subset [rotated]) (intro wf_inv_image wf_lex_prod wf_less_than)
  fix s
  assume s: "pi_reach tty dx n s" "\<forall>a. pi_next a s = None"
  have "finished s"
  proof (rule ccontr)
    assume "\<not> finished s"
    from pi_progress [OF s(1) this partial_sum_returns [OF _ assms]] s(2) show False by auto
  qed
  then show "\<exists>st. pi_pc s = Done st" by (simp add: finished_def split: pi_pc.splits)
qed

theorem pi_every_run_ends_witness:
  "wf {(s', s). pi_reach True (1 / 10) 3 s \<and> (\<exists>a. pi_next a s = Some s')}"
  using pi_every_run_ends [of "1 / 10" True 3] by simp

section \<open>A run without failed calls succeeds\<close>

text \<open>While the parent runs, a child that has not written yet has a reader: no \<open>SIGPIPE\<close>.\<close>

definition readers_ok :: "pi_state \<Rightarrow> bool" where
  "readers_ok s \<longleftrightarrow> (\<not> finished s \<longrightarrow> (\<forall>j. (holds_wr (pi_child s j) \<and> \<not> wrote (pi_child s j))
     \<or> (j = pi_i s \<and> pi_pc s \<in> {Fork, Close_Wr}) \<longrightarrow> 0 \<in> p_rd (pi_pipe s j)))"

lemma readers_parent:
  assumes inv: "pi_inv s" and r: "readers_ok s" and step: "parent_next ok s = Some s'"
  shows "readers_ok s'"
proof -
  have nf: "\<not> finished s" using step by (auto simp: finished_def parent_next_def split: pi_pc.splits)
  have c: "child_ok s j" for j using inv nf by (simp add: pi_inv_def)
  have f: "holds_wr (pi_child s j) \<Longrightarrow> \<not> wrote (pi_child s j) \<Longrightarrow> 0 \<in> p_rd (pi_pipe s j)"
    "pi_pc s \<in> {Fork, Close_Wr} \<Longrightarrow> 0 \<in> p_rd (pi_pipe s (pi_i s))" for j
    using r nf by (auto simp: readers_ok_def)
  from step show ?thesis
  proof (cases rule: parent_cases)
    case new_round
    then show ?thesis by (simp add: readers_ok_def holds_wr_def)
  next
    case (quit st)
    then show ?thesis by (simp add: readers_ok_def finished_def die_def close_all_def)
  next
    case close_rd
    with c [of "pi_i s"] f show ?thesis by (auto simp: readers_ok_def child_ok_def read_to_def pi_ops)
  qed (use f in \<open>auto simp: readers_ok_def pi_ops\<close>)
qed

lemma readers_child:
  assumes r: "readers_ok s" and step: "child_next i ok s = Some s'"
  shows "readers_ok s'"
proof -
  have "0 \<in> p_rd (pi_pipe s j) \<Longrightarrow> 0 \<in> p_rd (pi_pipe s' j)" for j
    using step by (cases rule: child_cases) (auto simp: pi_ops)
  moreover have "holds_wr (pi_child s' j) \<Longrightarrow> \<not> wrote (pi_child s' j) \<Longrightarrow> holds_wr (pi_child s j) \<and> \<not> wrote (pi_child s j)" for j
    using child_busy(1,6) [OF step] child_frame(9) [OF step, of j] by (cases "j = i") auto
  ultimately show ?thesis using r child_frame(1,5,14) [OF step] by (auto simp: readers_ok_def)
qed

lemma readers_reach: "pi_reach tty dx n s \<Longrightarrow> readers_ok s"
proof (induction rule: pi_reach.induct)
  case init
  then show ?case by (simp add: readers_ok_def pi_init_def holds_wr_def)
next
  case (step s a s')
  show ?case
  proof (cases a)
    case (Parent ok)
    with step pi_reach_inv [OF step.hyps(1)] show ?thesis by (auto simp: pi_next_def intro: readers_parent)
  next
    case (Reap j)
    with step obtain st where st: "pi_child s j = Exited st" "pi_pc s = Wait"
      "s' = (set_child j (Reaped st) s)\<lparr>pi_pc := Read, pi_i := Suc (pi_i s)\<rparr>"
      by (auto simp: pi_next_def elim: reap_cases)
    with step.IH show ?thesis by (simp add: readers_ok_def finished_def set_child_def holds_wr_def)
  next
    case (Child i ok)
    with step show ?thesis by (auto simp: pi_next_def intro: readers_child)
  qed
qed

definition going_well :: "pi_state \<Rightarrow> bool" where
  "going_well s \<longleftrightarrow> \<not> pi_lost s \<and> (finished s \<longrightarrow> pi_pc s = Done 0)"

lemma going_well_step:
  assumes r: "pi_reach tty dx n s" and g: "going_well s" "\<not> finished s" and step: "succeeds a" "pi_next a s = Some s'"
  shows "going_well s'"
proof (cases a)
  case (Parent ok)
  with step have p: "parent_next True s = Some s'" by (simp add: pi_next_def succeeds_def)
  then have "pi_lost s' = pi_lost s" by (cases rule: parent_cases) (simp_all add: pi_ops)
  moreover have "finished s' \<longrightarrow> pi_pc s' = Done 0"
    using p g(2) by (auto simp: parent_next_def finished_def pi_ops Let_def split: pi_pc.splits if_splits list.splits)
  ultimately show ?thesis using g(1) by (simp add: going_well_def)
next
  case (Reap j)
  with step obtain st where "s' = (set_child j (Reaped st) s)\<lparr>pi_pc := Read, pi_i := Suc (pi_i s)\<rparr>"
    by (auto simp: pi_next_def elim: reap_cases)
  with g show ?thesis by (simp add: going_well_def finished_def set_child_def)
next
  case (Child i ok)
  with step have c: "child_next i True s = Some s'" by (simp add: pi_next_def succeeds_def)
  have "p_rd (pi_pipe s i) \<noteq> {}" if "pi_child s i = C_Write v" for v
  proof -
    have "holds_wr (pi_child s i) \<and> \<not> wrote (pi_child s i)" using that by (simp add: holds_wr_def wrote_def)
    with readers_reach [OF r] g(2) show ?thesis by (auto simp: readers_ok_def)
  qed
  with c have "pi_lost s' = pi_lost s"
    by (auto simp: child_next_def pi_ops split: slice_pc.splits if_splits option.splits)
  with g child_frame(14) [OF c] show ?thesis by (simp add: going_well_def)
qed

lemma successful_run:
  assumes returns: "\<And>k i. k \<le> n \<Longrightarrow> i < k \<Longrightarrow> partial_sum dx k i \<noteq> None"
  shows "\<exists>s. pi_reach tty dx n s \<and> pi_pc s = Done 0 \<and> \<not> pi_lost s"
proof -
  have "\<exists>s'. pi_reach tty dx n s' \<and> pi_pc s' = Done 0 \<and> \<not> pi_lost s'" if "pi_reach tty dx n s" "going_well s" for s
    using that
  proof (induction "pi_rank s" arbitrary: s rule: wf_induct_rule [OF wf_lex_prod [OF wf_less_than wf_lex_prod [OF wf_less_than wf_less_than]]])
    case (1 s)
    show ?case
    proof (cases "finished s")
      case True
      with 1 show ?thesis by (auto simp: going_well_def)
    next
      case False
      then obtain a s' where a: "succeeds a" "pi_next a s = Some s'"
        using pi_progress [OF 1(2) False returns] by blast
      with 1 False show ?thesis
        using pi_step_rank [OF 1(2) a(2)] pi_reach.step [OF 1(2) a(2)] going_well_step [OF 1(2,3) False a] by blast
    qed
  qed
  from this [OF pi_reach.init] show ?thesis by (simp add: going_well_def pi_init_def finished_def)
qed

section \<open>The sums are near \<open>pi\<close>\<close>

lemma fl_just_above_one: "fl (1 + 1 / 2 ^ 53) = 1"
  by code_simp

lemma slice_width_bounds:
  assumes "0 < k"
  shows "1 / of_nat k * (1 - 1 / 2 ^ 53) \<le> slice_width k" "slice_width k \<le> 1 / of_nat k * (1 + 1 / 2 ^ 53)"
    "0 < slice_width k"
proof -
  show l: "1 / of_nat k * (1 - 1 / 2 ^ 53) \<le> slice_width k"
    and "slice_width k \<le> 1 / of_nat k * (1 + 1 / 2 ^ 53)"
    using fl_rel [of "1 / of_nat k"] assms by (simp_all add: slice_width_def ddiv_def)
  have "0 < 1 / of_nat k * (1 - 1 / 2 ^ 53 :: rat)" using assms by simp
  from this l show "0 < slice_width k" by (rule less_le_trans)
qed

lemma slice_end_start: "slice_end k i = slice_start k (Suc i)"
  by (simp add: slice_end_def slice_start_def)

lemma slice_start_le_1:
  assumes "0 < k" "i \<le> k"
  shows "slice_start k i \<le> 1"
proof -
  have "of_nat i * slice_width k \<le> of_nat k * slice_width k"
    using assms slice_width_bounds(3) [of k] by (intro mult_right_mono) simp_all
  also have "\<dots> \<le> of_nat k * (1 / of_nat k * (1 + 1 / 2 ^ 53))"
    using slice_width_bounds(2) [OF assms(1)] by (intro mult_left_mono) simp_all
  also have "\<dots> = 1 + 1 / 2 ^ 53" using assms by simp
  finally show ?thesis
    using fl_mono [of "of_nat i * slice_width k"] fl_just_above_one by (metis slice_start_def dmul_def)
qed

lemma slice_start_k:
  assumes "0 < k"
  shows "1 - 2 / 2 ^ 53 \<le> slice_start k k"
proof -
  have "(1 - 1 / 2 ^ 53) = of_nat k * (1 / of_nat k * (1 - 1 / 2 ^ 53 :: rat))" using assms by simp
  also have "\<dots> \<le> of_nat k * slice_width k"
    using slice_width_bounds(1) [OF assms] by (intro mult_left_mono) simp_all
  finally have w: "1 - 1 / 2 ^ 53 \<le> of_nat k * slice_width k" .
  have "(1 - 2 / 2 ^ 53 :: rat) \<le> (1 - 1 / 2 ^ 53) * (1 - 1 / 2 ^ 53)" by simp
  also have "\<dots> \<le> of_nat k * slice_width k * (1 - 1 / 2 ^ 53)" using w by (intro mult_right_mono) simp_all
  also have "\<dots> \<le> slice_start k k"
    using fl_rel(1) [of "of_nat k * slice_width k"] assms slice_width_bounds(3) [OF assms]
    by (simp add: slice_start_def dmul_def)
  finally show ?thesis .
qed

lemma slice_start_less:
  assumes "0 < k" "i < 2 ^ 20"
  shows "slice_start k i < slice_start k (Suc i)"
proof -
  define w where "w = slice_width k"
  define m :: rat where "m = of_nat i"
  have w: "0 < w" using slice_width_bounds(3) [OF assms(1)] by (simp add: w_def)
  have m: "0 \<le> m" "m \<le> 2 ^ 20"
    using assms(2) by (simp_all add: m_def)
  have a: "slice_start k i \<le> m * w * (1 + 1 / 2 ^ 53)"
  proof (cases "i = 0")
    case True
    then show ?thesis by (simp add: slice_start_def dmul_def m_def)
  next
    case False
    then show ?thesis using fl_rel(2) [of "m * w"] w by (simp add: slice_start_def dmul_def m_def w_def)
  qed
  have b: "(m + 1) * w * (1 - 1 / 2 ^ 53) \<le> slice_start k (Suc i)"
    using fl_rel(1) [of "(m + 1) * w"] w m by (simp add: slice_start_def dmul_def m_def w_def add.commute)
  have "m * (1 + 1 / 2 ^ 53) < (m + 1) * (1 - 1 / 2 ^ 53)" using m by (simp add: algebra_simps)
  then have "m * (1 + 1 / 2 ^ 53) * w < (m + 1) * (1 - 1 / 2 ^ 53) * w" using w by (rule mult_strict_right_mono)
  with a b show ?thesis by (simp add: ac_simps)
qed

lemma slices_ok:
  assumes "i < k" "k \<le> 2 ^ 20" "1 / 2 ^ 40 \<le> dx" "dx \<le> 1"
  shows "slice_ok (slice_start k i) (slice_end k i) dx"
  using assms slice_bounds(1) [OF assms(1)] slice_start_less [of k i] slice_start_le_1 [of k "Suc i"]
  by (simp add: slice_ok_def slice_end_start)

text \<open>The error of the sum after \<open>j\<close> slices.\<close>

lemma sum_error_step:
  fixes T R A B D G :: real
  assumes T: "\<bar>T - A\<bar> \<le> E" and R: "\<bar>R - B\<bar> \<le> 9 * D + G"
    and T': "\<bar>T' - (T + R)\<bar> \<le> \<bar>T + R\<bar> * (1 / 2 ^ 53)"
    and A: "0 \<le> A" "0 \<le> B" "A + B \<le> 4" and E: "E \<le> 2 ^ 20 * (10 * D) + 1" "G \<le> 1" and D: "1 / 2 ^ 40 \<le> D"
  shows "\<bar>T' - (A + B)\<bar> \<le> E + (9 + 1 / 2 ^ 9) * D + G"
proof -
  have "\<bar>T + R\<bar> \<le> 2 ^ 20 * (10 * D) + 9 * D + 6" using T R A E by (simp add: abs_le_iff)
  then have "\<bar>T + R\<bar> * (1 / 2 ^ 53) \<le> (2 ^ 20 * (10 * D) + 9 * D + 6) * (1 / 2 ^ 53)" by (rule mult_right_mono) simp
  also have "\<dots> \<le> 1 / 2 ^ 9 * D" using D by simp
  finally have "\<bar>T' - (T + R)\<bar> \<le> 1 / 2 ^ 9 * D" using T' by linarith
  moreover have "(9 + 1 / 2 ^ 9) * D = 9 * D + 1 / 2 ^ 9 * D" by (simp add: distrib_right)
  ultimately show ?thesis using T R by linarith
qed

lemma sum_error:
  assumes k: "k \<le> 2 ^ 20" and dx: "1 / 2 ^ 40 \<le> dx" "dx \<le> 1" and j: "j \<le> k" "0 < k"
  defines "b \<equiv> \<lambda>j. real_of_rat (slice_start k j)" and "D \<equiv> real_of_rat dx"
  shows "\<bar>of_rat (foldl dadd 0 (map (\<lambda>i. the (partial_sum dx k i)) [0..<j])) - pi_between 0 (b j)\<bar>
           \<le> of_nat j * ((9 + 1 / 2 ^ 9) * D) + b j / (2 ^ 48 * D)"
  using j(1)
proof (induction j)
  case 0
  then show ?case by (simp add: b_def slice_start_def dmul_def pi_between_def)
next
  case (Suc j)
  have ok: "slice_ok (slice_start k j) (slice_end k j) dx" using Suc.prems k dx by (intro slices_ok) simp_all
  define T where "T = real_of_rat (foldl dadd 0 (map (\<lambda>i. the (partial_sum dx k i)) [0..<j]))"
  obtain r where r: "partial_sum dx k j = Some r"
    "\<bar>real_of_rat r - pi_between (b j) (b (Suc j))\<bar> \<le> 9 * D + (b (Suc j) - b j) / (2 ^ 48 * D)"
    using slice_error [OF ok] by (auto simp: partial_sum_def b_def D_def slice_end_start)
  have b: "0 \<le> b j" "b j \<le> b (Suc j)" "b (Suc j) \<le> 1"
    using ok by (simp_all add: slice_ok_def b_def slice_end_start of_rat_less_eq)
  have D: "1 / 2 ^ 40 \<le> D" "0 < D" using slice_ok_real [OF ok] by (simp_all add: D_def)
  have G: "x / (2 ^ 48 * D) \<le> 1" if "x \<le> 1" for x
    using that D by (simp add: divide_le_eq)
  have "of_nat j * ((9 + 1 / 2 ^ 9) * D) \<le> 2 ^ 20 * (10 * D)"
  proof (rule mult_mono)
    have "j \<le> 2 ^ 20" using Suc.prems k by simp
    then show "real j \<le> 2 ^ 20" by (metis of_nat_le_iff of_nat_numeral of_nat_power)
  qed (use D in simp_all)
  then have E: "of_nat j * ((9 + 1 / 2 ^ 9) * D) + b j / (2 ^ 48 * D) \<le> 2 ^ 20 * (10 * D) + 1"
    using G [of "b j"] b by linarith
  have A: "0 \<le> pi_between 0 (b j)" "0 \<le> pi_between (b j) (b (Suc j))"
    "pi_between 0 (b j) + pi_between (b j) (b (Suc j)) \<le> 4"
    using pi_between_le [of 0 "b j"] pi_between_le [of "b j" "b (Suc j)"] b by simp_all
  have "\<bar>real_of_rat (dadd (foldl dadd 0 (map (\<lambda>i. the (partial_sum dx k i)) [0..<j])) r)
        - (pi_between 0 (b j) + pi_between (b j) (b (Suc j)))\<bar>
      \<le> (of_nat j * ((9 + 1 / 2 ^ 9) * D) + b j / (2 ^ 48 * D)) + (9 + 1 / 2 ^ 9) * D + (b (Suc j) - b j) / (2 ^ 48 * D)"
    using Suc.IH Suc.prems G [of "b (Suc j) - b j"] b
    by (intro sum_error_step [OF _ r(2) real_dadd_error A E _ D(1)]) simp_all
  also have "\<dots> = of_nat (Suc j) * ((9 + 1 / 2 ^ 9) * D) + b (Suc j) / (2 ^ 48 * D)"
    by (simp add: algebra_simps diff_divide_distrib)
  finally show ?case by (simp add: r(1) pi_between_add)
qed

lemma sequential_sum_near_pi:
  assumes k: "0 < k" "k \<le> 2 ^ 20" and dx: "1 / 2 ^ 40 \<le> dx" "dx \<le> 1" and t: "sequential_sum dx k = Some t"
  shows "\<bar>real_of_rat t - pi\<bar> \<le> 10 * of_nat k * of_rat dx + 1 / (2 ^ 48 * of_rat dx)"
proof -
  define D b where "D = real_of_rat dx" and "b = real_of_rat (slice_start k k)"
  have ok: "slice_ok (slice_start k (k - 1)) (slice_end k (k - 1)) dx" using k dx by (intro slices_ok) simp_all
  have D: "1 / 2 ^ 40 \<le> D" "0 < D" using slice_ok_real [OF ok] by (simp_all add: D_def)
  have "real_of_rat (1 - 2 / 2 ^ 53) \<le> b"
    unfolding b_def using slice_start_k [OF k(1)] by (simp only: of_rat_less_eq)
  then have b: "1 - 2 / 2 ^ 53 \<le> b" "b \<le> 1"
    using slice_start_le_1 [OF k(1) order_refl] by (simp_all add: of_rat_diff of_rat_divide of_rat_power b_def)
  have "0 \<le> b" using b(1) by (rule order_trans [rotated]) simp
  have "partial_sum dx k i = Some (the (partial_sum dx k i))" if "i < k" for i
    using partial_sum_returns [OF that, of dx] dx(1) by simp
  then have "those (map (partial_sum dx k) [0..<k]) = Some (map (\<lambda>i. the (partial_sum dx k i)) [0..<k])"
    by (intro those_map_Some) simp
  with t have "t = foldl dadd 0 (map (\<lambda>i. the (partial_sum dx k i)) [0..<k])" by (simp add: sequential_sum_def)
  with sum_error [OF k(2) dx order_refl k(1)]
  have err: "\<bar>of_rat t - pi_between 0 b\<bar> \<le> of_nat k * ((9 + 1 / 2 ^ 9) * D) + b / (2 ^ 48 * D)"
    by (simp add: b_def D_def)
  have "\<bar>pi_between 0 b - pi\<bar> \<le> 1 / 2 ^ 9 * D"
    using pi_between_le [OF \<open>0 \<le> b\<close> b(2)] pi_between_add [of 0 b 1] pi_between_0_1 b D by simp
  also have "\<dots> \<le> of_nat k * (1 / 2 ^ 9 * D)" using k(1) D by simp
  finally have gap: "\<bar>pi_between 0 b - pi\<bar> \<le> of_nat k * (1 / 2 ^ 9 * D)" .
  have "b / (2 ^ 48 * D) \<le> 1 / (2 ^ 48 * D)" using b D by (intro divide_right_mono) simp_all
  moreover define P where "P = of_nat k * D"
  have "of_nat k * ((9 + 1 / 2 ^ 9) * D) = (9 + 1 / 2 ^ 9) * P" "of_nat k * (1 / 2 ^ 9 * D) = 1 / 2 ^ 9 * P"
    "0 \<le> P" "10 * of_nat k * D = 10 * P" using D by (simp_all add: P_def)
  moreover have "(9 + 1 / 2 ^ 9) * P + 1 / 2 ^ 9 * P \<le> 10 * P" using \<open>0 \<le> P\<close> by simp
  ultimately show ?thesis using err gap unfolding D_def [symmetric] by linarith
qed

text \<open>
  C3. Accuracy: for \<open>dx\<close> between \<open>2 ^ -40\<close> and 1 and up to \<open>2 ^ 20\<close> processes, the number
  printed for \<open>k\<close> processes is within \<open>10 k dx + 1 / (2 ^ 48 dx)\<close> of \<open>pi\<close>; the first part
  is the error of the rectangles, at most one of which sticks out of each slice, the second the
  rounding of every addition, multiplication and division.
\<close>

theorem pi_output_near_pi:
  assumes "1 / 2 ^ 40 \<le> dx" "dx \<le> 1" "n \<le> 2 ^ 20" "pi_reach tty dx n s" "\<not> pi_lost s" "(k, t) \<in> set (pi_out s)"
  shows "\<bar>real_of_rat t - pi\<bar> \<le> 10 * of_nat k * of_rat dx + 1 / (2 ^ 48 * of_rat dx)"
proof -
  have inv: "pi_inv s" "pi_dx s = dx" "pi_n s = n" using pi_reach_inv [OF assms(4)] by simp_all
  have "k \<in> set (map fst (pi_out s))" using assms(6) by force
  moreover have "map fst (pi_out s) = [1..<pi_k s]" "pi_k s \<le> Suc n"
    using inv by (simp_all add: pi_inv_def out_ok_def counter_ok_def)
  ultimately have "k \<in> set [1..<pi_k s]" by (simp only:)
  then have "1 \<le> k" "k \<le> n" using \<open>pi_k s \<le> Suc n\<close> by simp_all
  moreover have "sequential_sum dx k = Some t"
    using inv assms(5,6) by (auto simp: pi_inv_def out_ok_def line_ok_def)
  ultimately show ?thesis using assms by (intro sequential_sum_near_pi) simp_all
qed

theorem pi_output_near_pi_witness:
  "\<exists>s. pi_reach True 1 1 s \<and> pi_out s = [(1, 4)] \<and> \<bar>4 - pi\<bar> \<le> 10 + 1 / 2 ^ 48"
proof -
  obtain s where s: "pi_reach True 1 1 s" "pi_pc s = Done 0" "pi_out s = [(1, 4)]" "\<not> pi_lost s"
    by (rule example_state)
  from pi_output_near_pi [of 1 1 True s 1 4] s have "\<bar>4 - pi\<bar> \<le> 10 + 1 / 2 ^ 48" by simp
  with s show ?thesis by blast
qed

section \<open>Steps that are too small or too large\<close>

text \<open>A step that does not move one half makes the first slice endless: nothing is ever printed.\<close>

lemma whole_interval: "slice_start 1 0 = 0" "slice_end 1 0 = 1"
  using fl_of_int [of 1] by (simp_all add: slice_start_def slice_end_def slice_width_def dmul_def ddiv_def)

definition stuck_in_first :: "pi_state \<Rightarrow> bool" where
  "stuck_in_first s \<longleftrightarrow> pi_k s = 1 \<and> pi_out s = [] \<and> pi_pc s \<notin> {Close_Rd, Wait, Print, Done 0}
     \<and> (pi_pc s = Read \<longrightarrow> pi_i s = 0)
     \<and> (case pi_child s 0 of Absent \<Rightarrow> True | C_Close_Rd \<Rightarrow> True | C_Close_Old _ \<Rightarrow> True | C_Compute \<Rightarrow> True | _ \<Rightarrow> False)"

lemma stuck_parent:
  assumes "stuck_in_first s" "pi_inv s" "0 < pi_n s" "parent_next ok s = Some s'"
  shows "stuck_in_first s'"
proof -
  have inv: "pi_pipe_ok s 0" "child_ok s 0" "counter_ok s" if "\<not> finished s"
    using assms(2) that by (simp_all add: pi_inv_def)
  show ?thesis
    using assms(4)
  proof (cases rule: parent_cases)
    case (quit st)
    with assms(1,3) show ?thesis by (auto simp: stuck_in_first_def pi_ops)
  next
    case fork
    with assms(1) inv show ?thesis by (auto simp: stuck_in_first_def counter_ok_def finished_def pi_ops)
  next
    case (got v vs)
    with inv assms(1) have "wrote (pi_child s 0)"
      by (auto simp: stuck_in_first_def pi_pipe_ok_def finished_def split: if_splits)
    with assms(1) show ?thesis by (auto simp: stuck_in_first_def wrote_def)
  next
    case eof
    with inv assms(1) have "\<not> holds_wr (pi_child s 0)" "pi_child s 0 \<noteq> Absent"
      by (auto simp: stuck_in_first_def pi_pipe_ok_def child_ok_def created_def finished_def split: if_splits)
    with assms(1) show ?thesis by (auto simp: stuck_in_first_def holds_wr_def split: slice_pc.splits)
  qed (use assms(1) in \<open>auto simp: stuck_in_first_def pi_ops\<close>)
qed

lemma stuck_child:
  assumes "stuck_in_first s" "partial_sum (pi_dx s) 1 0 = None" "child_next i ok s = Some s'"
  shows "stuck_in_first s'"
proof -
  note frame = child_frame [OF assms(3)]
  show ?thesis
  proof (cases "i = 0")
    case True
    from assms(3) show ?thesis
      by (cases rule: child_cases) (use True assms(1,2) in \<open>auto simp: stuck_in_first_def pi_ops\<close>)
  next
    case False
    then have "pi_child s' 0 = pi_child s 0" using frame(9) [of 0] by simp
    with assms(1) frame show ?thesis by (simp add: stuck_in_first_def)
  qed
qed

text \<open>
  A step that is lost when it is added to 1/2 keeps the first child in its loop for ever:
  nothing is ever printed and the parent does not end normally.
\<close>

theorem pi_tiny_step_hangs:
  assumes "0 < n" "dadd (1 / 2) dx \<le> 1 / 2" "pi_reach tty dx n s"
  shows "pi_out s = [] \<and> pi_pc s \<noteq> Done 0"
proof -
  have none: "partial_sum dx 1 0 = None"
    unfolding partial_sum_def whole_interval by (rule integration_hangs [of 0 "1 / 2"]) (use assms(2) in simp_all)
  from assms(3) have "stuck_in_first s"
  proof (induction rule: pi_reach.induct)
    case init
    then show ?case by (simp add: stuck_in_first_def pi_init_def)
  next
    case (step s a s')
    note inv = pi_reach_inv [OF step.hyps(1)]
    show ?case
    proof (cases a)
      case (Parent ok)
      with step inv assms(1) show ?thesis by (auto simp: pi_next_def intro: stuck_parent)
    next
      case (Reap j)
      with step show ?thesis by (auto elim!: reap_cases simp: pi_next_def stuck_in_first_def)
    next
      case (Child i ok)
      with step inv none show ?thesis by (auto simp: pi_next_def intro: stuck_child)
    qed
  qed
  then show ?thesis by (simp add: stuck_in_first_def)
qed

theorem pi_tiny_step_hangs_witness:
  "pi_out (pi_init True (1 / 2 ^ 54) 5) = [] \<and> pi_pc (pi_init True (1 / 2 ^ 54) 5) \<noteq> Done 0"
proof (rule pi_tiny_step_hangs)
  show "dadd (1 / 2) (1 / 2 ^ 54) \<le> 1 / 2" by code_simp
  show "pi_reach True (1 / 2 ^ 54) 5 (pi_init True (1 / 2 ^ 54) 5)" by (rule pi_reach.init)
qed simp

text \<open>A slice not longer than \<open>dx\<close> gets one rectangle of the full width \<open>dx\<close>.\<close>

lemma one_rectangle:
  assumes "start < end" "end \<le> dadd start dx"
  shows "rectangular_integration start end dx = Some (dadd 0 (dmul (function_c start) dx))"
  using assms integration_ends [of 1 start dx "end"] by simp

lemma function_c_ge_2:
  assumes "0 \<le> x" "x \<le> 1"
  shows "2 \<le> function_c x"
proof -
  have int: "fl 1 = 1" "fl 2 = 2" using fl_of_int [of 1] fl_of_int [of 2] by simp_all
  have "x * x \<le> 1 * 1" using assms by (intro mult_mono) simp_all
  from fl_mono [OF this] have 1: "dmul x x \<le> 1" "0 \<le> dmul x x" using assms by (simp_all add: dmul_def int fl_nonneg)
  then have "dmul x x + 1 \<le> 2" "1 \<le> dmul x x + 1" by simp_all
  from fl_mono [OF this(1)] fl_mono [OF this(2)]
  have 2: "dadd (dmul x x) 1 \<le> 2" "1 \<le> dadd (dmul x x) 1" by (simp_all add: dadd_def int)
  then have "2 \<le> 4 / dadd (dmul x x) 1" by (simp add: le_divide_eq)
  from fl_mono [OF this] show ?thesis by (simp add: function_c_def ddiv_def int)
qed

lemma function_c_double: "fl (function_c x) = function_c x"
  using is_double_fl [of "4 / dadd (dmul x x) 1"] by (simp add: function_c_def ddiv_def is_double_def)

text \<open>
  With \<open>dx = 1\<close> every slice gets one rectangle of width 1, and the sum is at least \<open>2 k\<close>.
\<close>

theorem pi_sum_grows_with_processes:
  assumes "0 < k" "k \<le> 2 ^ 20"
  shows "\<exists>t. sequential_sum 1 k = Some t \<and> 2 * of_nat k \<le> t"
proof -
  have one: "fl 1 = 1" using fl_of_int [of 1] by simp
  define r where "r = (\<lambda>i. function_c (slice_start k i))"
  have part: "partial_sum 1 k i = Some (r i) \<and> 2 \<le> r i" if "i < k" for i
  proof -
    have b: "0 \<le> slice_start k i" "slice_start k i \<le> 1" "slice_start k (Suc i) \<le> 1"
      using slice_bounds(1) [OF that] slice_start_le_1 [OF assms(1)] that by simp_all
    then have "1 \<le> slice_start k i + 1" by simp
    from fl_mono [OF this] one b(3) have "slice_end k i \<le> dadd (slice_start k i) 1"
      by (simp add: dadd_def slice_end_start)
    moreover have "slice_start k i < slice_end k i"
      using slice_start_less [OF assms(1), of i] that assms(2) by (simp add: slice_end_start)
    ultimately have "partial_sum 1 k i = Some (r i)"
      by (simp add: partial_sum_def one_rectangle dadd_def dmul_def function_c_double r_def)
    with function_c_ge_2 [OF b(1,2)] show ?thesis by (simp add: r_def)
  qed
  have "2 * of_nat j \<le> foldl dadd 0 (map r [0..<j])" if "j \<le> k" for j
    using that
  proof (induction j)
    case (Suc j)
    have "int (2 * Suc j) < 2 ^ 53" using Suc.prems assms(2) by simp
    then have "fl (2 * of_nat (Suc j)) = 2 * of_nat (Suc j)" using fl_of_int [of "int (2 * Suc j)"] by simp
    moreover have "2 * of_nat (Suc j) \<le> foldl dadd 0 (map r [0..<j]) + r j"
      using Suc part [of j] by simp
    ultimately show ?case using fl_mono [of "2 * of_nat (Suc j)"]
      by (simp add: dadd_def [of _ "r j"])
  qed simp
  moreover have "those (map (partial_sum 1 k) [0..<k]) = Some (map r [0..<k])"
    using part by (intro those_map_Some) simp
  ultimately show ?thesis by (simp add: sequential_sum_def)
qed

theorem pi_sum_grows_with_processes_witness: "\<exists>t. sequential_sum 1 100 = Some t \<and> 200 \<le> t"
  using pi_sum_grows_with_processes [of 100] by simp

section \<open>The arguments\<close>

lemma pi_parse_run:
  assumes "pi_parse argv = Run dx n"
  shows "length argv = 3 \<and> 0 < dx \<and> 0 < n \<and> pi_main tty argv = pi_init tty dx (nat n)"
proof -
  have "0 < DEFAULT_DX" by code_simp
  with assms show ?thesis
    by (auto simp: pi_parse_def pi_main_def split: prod.splits if_splits)
qed

lemma pi_main_rejects:
  assumes "\<And>dx n. pi_parse argv \<noteq> Run dx n"
  shows "pi_pc (pi_main tty argv) = Done 1 \<and> pi_out (pi_main tty argv) = []"
  using assms by (cases "pi_parse argv") (auto simp: pi_main_def pi_init_def)

section \<open>Where the lines go\<close>

text \<open>On a terminal every line appears once, when it is printed.\<close>

lemma tty_output: "pi_reach True dx n s \<Longrightarrow> pi_tty s \<and> pi_file s = pi_out s \<and> pi_buf s = [] \<and> (\<forall>i. pi_kbuf s i = [])"
proof (induction rule: pi_reach.induct)
  case init
  then show ?case by (simp add: pi_init_def)
next
  case (step s a s')
  note IH = step.IH
  show ?case
  proof (cases a)
    case (Parent ok)
    with step have p: "parent_next ok s = Some s'" by (simp add: pi_next_def)
    then show ?thesis using IH by (cases rule: parent_cases) (simp_all add: pi_ops printf_line_def)
  next
    case (Reap j)
    with step show ?thesis by (auto elim!: reap_cases simp: pi_next_def set_child_def)
  next
    case (Child i ok)
    with step have c: "child_next i ok s = Some s'" by (simp add: pi_next_def)
    then show ?thesis using IH by (cases rule: child_cases) (simp_all add: pi_ops)
  qed
qed

text \<open>
  Otherwise every child takes the lines of the earlier rounds with it and writes them when
  it exits: round \<open>j\<close> adds \<open>j\<close> copies of the lines before it.
\<close>

definition copies :: "nat \<Rightarrow> (nat \<times> rat) list \<Rightarrow> (nat \<times> rat) multiset" where
  "copies k ls = (\<Sum>j\<in>{1..<k}. repeat_mset j (mset (take (j - 1) ls)))"

definition has_exited :: "slice_pc \<Rightarrow> bool" where
  "has_exited c \<longleftrightarrow> c \<in> {Exited True, Exited False, Reaped True, Reaped False}"

definition exits :: "pi_state \<Rightarrow> nat" where
  "exits s = (if pi_pc s = Round then 0 else card {j. j < pi_k s \<and> has_exited (pi_child s j)})"

definition buffer_ok :: "pi_state \<Rightarrow> bool" where
  "buffer_ok s \<longleftrightarrow> \<not> pi_tty s \<and> (\<not> finished s \<longrightarrow>
     pi_buf s = pi_out s \<and> (\<forall>i. holds_wr (pi_child s i) \<longrightarrow> pi_kbuf s i = pi_out s)
     \<and> mset (pi_file s) = copies (pi_k s) (pi_out s) + repeat_mset (exits s) (mset (pi_out s)))
   \<and> (pi_pc s = Done 0 \<longrightarrow> (\<forall>j. \<not> unreaped (pi_child s j)) \<and> mset (pi_file s) = copies (pi_k s) (pi_out s) + mset (pi_out s))"

lemma copies_Suc:
  assumes "length ls = k - 1" "1 \<le> k"
  shows "copies (Suc k) (ls @ [l]) = copies k ls + repeat_mset k (mset ls)"
proof -
  have "{1..<Suc k} = insert k {1..<k}" using assms(2) by auto
  then have "copies (Suc k) (ls @ [l]) = repeat_mset k (mset (take (k - 1) (ls @ [l])))
      + (\<Sum>j\<in>{1..<k}. repeat_mset j (mset (take (j - 1) (ls @ [l]))))" by (simp add: copies_def)
  moreover have "(\<Sum>j\<in>{1..<k}. repeat_mset j (mset (take (j - 1) (ls @ [l])))) = copies k ls"
    unfolding copies_def using assms(1) by (intro sum.cong) simp_all
  ultimately show ?thesis using assms(1) by simp
qed

lemma buffer_parent:
  assumes inv: "pi_inv s" and b: "buffer_ok s" and step: "parent_next ok s = Some s'"
  shows "buffer_ok s'"
proof -
  have nf: "\<not> finished s" using step by (auto simp: finished_def parent_next_def split: pi_pc.splits)
  have h: "counter_ok s" "sum_ok s" "\<And>j. child_ok s j" and out: "map fst (pi_out s) = [1..<pi_k s]"
    using inv nf by (simp_all add: pi_inv_def out_ok_def)
  have len: "length (pi_out s) = pi_k s - 1" using arg_cong [OF out, of length] by simp
  have f: "\<not> pi_tty s" "pi_buf s = pi_out s" "\<And>i. holds_wr (pi_child s i) \<Longrightarrow> pi_kbuf s i = pi_out s"
    "mset (pi_file s) = copies (pi_k s) (pi_out s) + repeat_mset (exits s) (mset (pi_out s))"
    using b nf by (simp_all add: buffer_ok_def)
  from step show ?thesis
  proof (cases rule: parent_cases)
    case new_round
    have "\<not> has_exited Absent" by (simp add: has_exited_def)
    with new_round f show ?thesis by (simp add: buffer_ok_def finished_def exits_def holds_wr_def)
  next
    case (quit st)
    moreover have "pi_pc s = Round \<Longrightarrow> \<not> unreaped (pi_child s j)" for j using h(3) [of j] by (simp add: child_ok_def)
    ultimately show ?thesis using f by (auto simp: buffer_ok_def finished_def pi_ops exits_def)
  next
    case fork
    with h(3) [of "pi_i s"] have "pi_child s (pi_i s) = Absent" by (simp add: child_ok_def created_def)
    then have "has_exited (((pi_child s)(pi_i s := C_Close_Rd)) j) = has_exited (pi_child s j)" for j
      by (simp add: has_exited_def)
    with fork f show ?thesis by (simp add: buffer_ok_def finished_def exits_def pi_ops)
  next
    case print
    have "reaped (pi_child s j)" if "j < pi_k s" for j
      using print h(2) that by (intro reaped_all [of "pi_k s" "pi_child s"]) (simp_all add: sum_ok_def waited_def)
    then have "{j. j < pi_k s \<and> has_exited (pi_child s j)} = {..<pi_k s}" by (auto simp: has_exited_def reaped_def)
    then have "exits s = pi_k s" using print by (simp add: exits_def)
    moreover have "\<not> holds_wr (pi_child s j)" for j
    proof (cases "j < pi_k s")
      case True
      then have "reaped (pi_child s j)" by (rule \<open>\<And>j. j < pi_k s \<Longrightarrow> reaped (pi_child s j)\<close>)
      then show ?thesis by (cases "pi_child s j") (simp_all add: reaped_def holds_wr_def)
    next
      case False
      then show ?thesis using h(3) [of j] print by (simp add: child_ok_def created_def holds_wr_def)
    qed
    ultimately show ?thesis
      using print f copies_Suc [OF len, of "(pi_k s, pi_total s)"] h(1)
      by (simp add: buffer_ok_def finished_def exits_def printf_line_def counter_ok_def)
  qed (use f in \<open>simp_all add: buffer_ok_def finished_def exits_def pi_ops\<close>)
qed

lemma exits_Suc:
  assumes "pi_pc s \<noteq> Round" "i < pi_k s" "\<not> has_exited (pi_child s i)"
    and "pi_pc s' = pi_pc s" "pi_k s' = pi_k s" "pi_child s' = (pi_child s)(i := c)" "has_exited c"
  shows "exits s' = Suc (exits s)"
proof -
  have "{j. j < pi_k s \<and> has_exited (pi_child s' j)} = insert i {j. j < pi_k s \<and> has_exited (pi_child s j)}"
    using assms by auto
  moreover have "i \<notin> {j. j < pi_k s \<and> has_exited (pi_child s j)}" using assms(3) by simp
  ultimately show ?thesis using assms(1,4,5) by (simp add: exits_def)
qed

lemma buffer_child:
  assumes inv: "pi_inv s" and b: "buffer_ok s" and step: "child_next i ok s = Some s'" and lost: "\<not> pi_lost s'"
  shows "buffer_ok s'"
proof (cases "finished s")
  case True
  have "pi_pc s \<noteq> Done 0"
  proof
    assume "pi_pc s = Done 0"
    with b have "\<not> unreaped (pi_child s i)" by (simp add: buffer_ok_def)
    with child_busy(1) [OF step] show False by (auto simp: unreaped_def holds_wr_def split: slice_pc.splits)
  qed
  moreover have "pi_tty s' = pi_tty s" using step by (cases rule: child_cases) (simp_all add: pi_ops)
  ultimately show ?thesis using True b child_frame(1,14) [OF step] by (simp add: buffer_ok_def)
next
  case False
  have c: "child_ok s i" "counter_ok s" using inv False by (simp_all add: pi_inv_def)
  have nr: "pi_pc s \<noteq> Round" using c(1) child_busy(1) [OF step]
    by (auto simp: child_ok_def unreaped_def holds_wr_def split: slice_pc.splits)
  then have i: "i < pi_k s" using c child_busy(2) [OF step]
    by (auto simp: child_ok_def created_def counter_ok_def split: pi_pc.splits)
  have f: "\<not> pi_tty s" "pi_buf s = pi_out s" "\<And>i. holds_wr (pi_child s i) \<Longrightarrow> pi_kbuf s i = pi_out s"
    "mset (pi_file s) = copies (pi_k s) (pi_out s) + repeat_mset (exits s) (mset (pi_out s))"
    using b False by (simp_all add: buffer_ok_def)
  have nd: "pi_pc s \<noteq> Done 0" using False by (auto simp: finished_def)
  note frame = child_frame(1-8,10-14) [OF step]
  have same: "buffer_ok s'" if "pi_file s' = pi_file s" "pi_kbuf s' = pi_kbuf s" "pi_buf s' = pi_buf s" "pi_tty s' = pi_tty s"
    "pi_child s' = (pi_child s)(i := c)" "\<not> has_exited c" "\<not> has_exited (pi_child s i)" for c
  proof -
    have "has_exited (pi_child s' j) = has_exited (pi_child s j)" for j using that(5-7) by (cases "j = i") simp_all
    then have "exits s' = exits s" using frame(1,4) by (simp add: exits_def)
    moreover have "pi_kbuf s j = pi_out s" if "holds_wr (((pi_child s)(i := c)) j)" for j
      using that f(3) child_busy(1) [OF step] by (cases "j = i") simp_all
    ultimately show ?thesis using that frame f nd by (simp add: buffer_ok_def)
  qed
  from step show ?thesis
  proof (cases rule: child_cases)
    case close_own
    then show ?thesis by (intro same [of "C_Close_Old 0"]) (simp_all add: pi_ops has_exited_def)
  next
    case (close_old j)
    then show ?thesis by (intro same [of "C_Close_Old (Suc j)"]) (simp_all add: pi_ops has_exited_def)
  next
    case (start j)
    then show ?thesis by (intro same [of C_Compute]) (simp_all add: pi_ops has_exited_def)
  next
    case (computed v)
    then show ?thesis by (intro same [of "C_Write v"]) (simp_all add: pi_ops has_exited_def)
  next
    case (sent v)
    then show ?thesis by (intro same [of C_Close_Wr]) (simp_all add: pi_ops has_exited_def)
  next
    case exit
    have "exits s' = Suc (exits s)"
      by (rule exits_Suc [of s i s' "Exited True"]) (use nr i exit in \<open>simp_all add: has_exited_def pi_ops\<close>)
    moreover have "pi_file s' = pi_file s @ pi_out s" "pi_buf s' = pi_buf s" "pi_kbuf s' = pi_kbuf s" "pi_tty s' = pi_tty s"
      "pi_child s' = (pi_child s)(i := Exited True)"
      using exit f(3) [of i] by (simp_all add: pi_ops holds_wr_def)
    moreover have "pi_kbuf s j = pi_out s" if "holds_wr (((pi_child s)(i := Exited True)) j)" for j
      using that f(3) by (cases "j = i") (simp_all add: holds_wr_def)
    ultimately show ?thesis using frame f nd by (simp add: buffer_ok_def)
  qed (use lost in simp_all)
qed

lemma buffer_reach: "pi_reach False dx n s \<Longrightarrow> \<not> pi_lost s \<Longrightarrow> buffer_ok s"
proof (induction rule: pi_reach.induct)
  case init
  then show ?case by (simp add: buffer_ok_def pi_init_def finished_def copies_def exits_def holds_wr_def)
next
  case (step s a s')
  note inv = pi_reach_inv [OF step.hyps(1)]
  show ?case
  proof (cases a)
    case (Parent ok)
    with step have p: "parent_next ok s = Some s'" by (simp add: pi_next_def)
    then have "pi_lost s' = pi_lost s" by (cases rule: parent_cases) (simp_all add: pi_ops)
    with step inv p show ?thesis by (auto intro: buffer_parent)
  next
    case (Reap j)
    with step have r: "reap_next j s = Some s'" by (simp add: pi_next_def)
    then obtain st where st: "pi_child s j = Exited st" "pi_pc s = Wait"
      "s' = (set_child j (Reaped st) s)\<lparr>pi_pc := Read, pi_i := Suc (pi_i s)\<rparr>" by (rule reap_cases)
    then have b: "buffer_ok s" using step by (simp add: set_child_def)
    have "has_exited (((pi_child s)(j := Reaped st)) l) = has_exited (pi_child s l)" for l
      using st(1) by (cases st) (simp_all add: has_exited_def)
    moreover have "holds_wr (((pi_child s)(j := Reaped st)) l) = holds_wr (pi_child s l)" for l
      using st(1) by (simp add: holds_wr_def)
    ultimately show ?thesis using b st(2) unfolding st(3)
      by (simp add: buffer_ok_def finished_def exits_def set_child_def del: fun_upd_apply)
  next
    case (Child i ok)
    with step have c: "child_next i ok s = Some s'" by (simp add: pi_next_def)
    with step inv child_frame(8) [OF c] show ?thesis by (auto intro: buffer_child)
  qed
qed

text \<open>
  C39. With the standard output not on a terminal, the file gets the lines of all rounds
  once from the parent, and before that, from each of the \<open>j\<close> children of round \<open>j\<close>, one more copy of
  the lines of the earlier rounds, which \<open>exit\<close> writes from the buffer that \<open>fork\<close> copied.
\<close>

theorem pi_redirected_output:
  assumes "pi_reach False dx n s" "pi_pc s = Done 0" "\<not> pi_lost s"
  shows "mset (pi_file s) = (\<Sum>j\<in>{1..n}. repeat_mset j (mset (take (j - 1) (pi_out s)))) + mset (pi_out s)"
proof -
  have "pi_k s = Suc n" using pi_reach_inv [OF assms(1)] assms(2) by (simp add: pi_inv_def counter_ok_def)
  moreover have "{1..<Suc n} = {1..n}" by auto
  ultimately show ?thesis using buffer_reach [OF assms(1,3)] assms(2) by (simp add: buffer_ok_def copies_def)
qed

text \<open>Two rounds into a file: the first line is there three times.\<close>

theorem pi_redirected_output_witness:
  "\<exists>s. pi_reach False 1 2 s \<and> length (pi_out s) = 2 \<and> length (pi_file s) = 4
     \<and> count (mset (pi_file s)) (hd (pi_out s)) = 3"
proof -
  obtain s where s: "pi_reach False 1 2 s" "pi_pc s = Done 0" "\<not> pi_lost s"
    using successful_run [of 2 1 False] partial_sum_returns [of _ _ 1] by auto
  have "map fst (pi_out s) = [1, 2]"
    using pi_reach_inv [OF s(1)] s(2) by (simp add: pi_inv_def counter_ok_def out_ok_def upt_rec)
  then obtain u v where o: "pi_out s = [(1, u), (2, v)]" by auto
  have two: "{1..2::nat} = {1, 2}" by auto
  have "mset (pi_file s) = {#(1, u), (1, u), (1, u), (2, v)#}"
    using pi_redirected_output [OF s] by (simp add: o two numeral_2_eq_2)
  moreover from arg_cong [OF this, of size] have "length (pi_file s) = 4" by simp
  ultimately show ?thesis using s(1) o by (intro exI [of _ s]) simp
qed

end
