(* ===== verification/Lab3Fifo.thy ===== *)
theory Lab3Fifo
  imports Lab3Integ
begin

text \<open>
  \<open>lab3/zad2\<close>: the integrating server (\<open>program2.c\<close>) and its clients (\<open>program1.c\<close>), which
  meet at two named pipes.  Process 0 is the server, process \<open>c + 1\<close> is client \<open>c\<close>; any
  number of clients run at the same time, each client once, in any order with the server.
  Opening a FIFO waits for the other side, as the two programs rely on; a process that
  writes with no reader left is killed; what nobody has open loses its contents.
\<close>

section \<open>Named pipes\<close>

record interval =
  iv_start :: rat
  iv_end :: rat
  iv_dx :: rat

record 'a fifo =
  ff_exists :: bool
  ff_readers :: "nat set"
  ff_writers :: "nat set"
  ff_rcount :: nat
  ff_wcount :: nat
  ff_data :: "'a list"

definition no_fifo :: "'a fifo" where
  "no_fifo = \<lparr>ff_exists = False, ff_readers = {}, ff_writers = {}, ff_rcount = 0, ff_wcount = 0, ff_data = []\<rparr>"

text \<open>
  A process that opens a FIFO counts from then on, also while it waits.  It waits until the
  number of opens on the other side changes, unless the other side is open already.
\<close>

definition open_rd :: "nat \<Rightarrow> 'a fifo \<Rightarrow> 'a fifo" where
  "open_rd p f = f\<lparr>ff_readers := insert p (ff_readers f), ff_rcount := Suc (ff_rcount f)\<rparr>"

definition open_wr :: "nat \<Rightarrow> 'a fifo \<Rightarrow> 'a fifo" where
  "open_wr p f = f\<lparr>ff_writers := insert p (ff_writers f), ff_wcount := Suc (ff_wcount f)\<rparr>"

definition close_ff :: "nat \<Rightarrow> 'a fifo \<Rightarrow> 'a fifo" where
  "close_ff p f =
     (let r = ff_readers f - {p}; w = ff_writers f - {p}
      in f\<lparr>ff_readers := r, ff_writers := w, ff_data := (if r = {} \<and> w = {} then [] else ff_data f)\<rparr>)"

section \<open>The processes\<close>

datatype server_pc = S_SigInt | S_SigTerm | S_MkReq | S_MkRes | S_OpenReq | S_WaitReq nat | S_Read
  | S_CloseReq "interval option" | S_Compute interval | S_OpenRes rat | S_WaitRes rat nat | S_Write rat
  | S_CloseRes | S_UnlinkReq | S_UnlinkRes | S_Exit int | S_Killed

datatype client_pc = C_Input | C_OpenReq | C_WaitReq nat | C_Write | C_CloseReq bool | C_OpenRes
  | C_WaitRes nat | C_Read | C_CloseRes "rat option" | C_Exit "rat option" int | C_Killed

record fifo_state =
  f_server :: server_pc
  f_req :: "interval fifo"
  f_res :: "rat fifo"
  f_client :: "nat \<Rightarrow> client_pc"

text \<open>
  A step of a process, with the success of a call that can fail; a signal to the server; a
  signal that kills a client.
\<close>

datatype fifo_act = Server bool | Signal | Client nat bool | Kill nat

definition set_fclient :: "nat \<Rightarrow> client_pc \<Rightarrow> fifo_state \<Rightarrow> fifo_state" where
  "set_fclient c p s = s\<lparr>f_client := (f_client s)(c := p)\<rparr>"

definition leave :: "nat \<Rightarrow> fifo_state \<Rightarrow> fifo_state" where
  "leave p s = s\<lparr>f_req := close_ff p (f_req s), f_res := close_ff p (f_res s)\<rparr>"

definition server_exit :: "server_pc \<Rightarrow> fifo_state \<Rightarrow> fifo_state" where
  "server_exit p s = (leave 0 s)\<lparr>f_server := p\<rparr>"

definition fserver_next :: "bool \<Rightarrow> fifo_state \<Rightarrow> fifo_state option" where
  "fserver_next ok s =
     (let req = f_req s; res = f_res s in
      case f_server s of
        S_SigInt \<Rightarrow> Some (if ok then s\<lparr>f_server := S_SigTerm\<rparr> else server_exit (S_Exit 1) s)
      | S_SigTerm \<Rightarrow> Some (if ok then s\<lparr>f_server := S_MkReq\<rparr> else server_exit (S_Exit 1) s)
      | S_MkReq \<Rightarrow> Some (if ok \<or> ff_exists req then s\<lparr>f_server := S_MkRes, f_req := req\<lparr>ff_exists := True\<rparr>\<rparr>
                         else server_exit (S_Exit 1) s)
      | S_MkRes \<Rightarrow> Some (if ok \<or> ff_exists res then s\<lparr>f_server := S_OpenReq, f_res := res\<lparr>ff_exists := True\<rparr>\<rparr>
                         else server_exit (S_Exit 1) s)
      | S_OpenReq \<Rightarrow>
          if ok \<and> ff_exists req
          then Some (s\<lparr>f_req := open_rd 0 req,
                       f_server := (if ff_writers req = {} then S_WaitReq (ff_wcount req) else S_Read)\<rparr>)
          else Some s
      | S_WaitReq w \<Rightarrow> if ff_wcount req = w then None else Some (s\<lparr>f_server := S_Read\<rparr>)
      | S_Read \<Rightarrow>
          (case ff_data req of
             q # qs \<Rightarrow> Some (s\<lparr>f_req := req\<lparr>ff_data := qs\<rparr>, f_server := S_CloseReq (Some q)\<rparr>)
           | [] \<Rightarrow> if ff_writers req = {} then Some (s\<lparr>f_server := S_CloseReq None\<rparr>) else None)
      | S_CloseReq q \<Rightarrow>
          Some (s\<lparr>f_req := close_ff 0 req,
                  f_server := (case q of Some iv \<Rightarrow> S_Compute iv | None \<Rightarrow> S_OpenReq)\<rparr>)
      | S_Compute iv \<Rightarrow>
          (case rectangular_integration (iv_start iv) (iv_end iv) (iv_dx iv) of
             Some v \<Rightarrow> Some (s\<lparr>f_server := S_OpenRes v\<rparr>)
           | None \<Rightarrow> None)
      | S_OpenRes v \<Rightarrow>
          if ok \<and> ff_exists res
          then Some (s\<lparr>f_res := open_wr 0 res,
                       f_server := (if ff_readers res = {} then S_WaitRes v (ff_rcount res) else S_Write v)\<rparr>)
          else Some (s\<lparr>f_server := S_OpenReq\<rparr>)
      | S_WaitRes v r \<Rightarrow> if ff_rcount res = r then None else Some (s\<lparr>f_server := S_Write v\<rparr>)
      | S_Write v \<Rightarrow>
          if ff_readers res = {} then Some (server_exit S_Killed s)
          else Some (s\<lparr>f_server := S_CloseRes, f_res := (if ok then res\<lparr>ff_data := ff_data res @ [v]\<rparr> else res)\<rparr>)
      | S_CloseRes \<Rightarrow> Some (s\<lparr>f_res := close_ff 0 res, f_server := S_OpenReq\<rparr>)
      | S_UnlinkReq \<Rightarrow> Some (s\<lparr>f_req := req\<lparr>ff_exists := ff_exists req \<and> \<not> ok\<rparr>, f_server := S_UnlinkRes\<rparr>)
      | S_UnlinkRes \<Rightarrow> Some (server_exit (S_Exit 0) (s\<lparr>f_res := res\<lparr>ff_exists := ff_exists res \<and> \<not> ok\<rparr>\<rparr>))
      | S_Exit _ \<Rightarrow> None
      | S_Killed \<Rightarrow> None)"

text \<open>
  \<open>SIGINT\<close> or \<open>SIGTERM\<close>: the default action before the handler is installed, then
  \<open>handle_shutdown\<close>, which interrupts whatever the server does and never returns; the
  other signal starts it once more while it runs.
\<close>

definition handle_shutdown :: "fifo_state \<Rightarrow> fifo_state option" where
  "handle_shutdown s =
     (case f_server s of
        S_SigInt \<Rightarrow> Some (server_exit S_Killed s)
      | S_SigTerm \<Rightarrow> Some (server_exit S_Killed s)
      | S_Exit _ \<Rightarrow> None
      | S_Killed \<Rightarrow> None
      | _ \<Rightarrow> Some (s\<lparr>f_server := S_UnlinkReq\<rparr>))"

definition fclient_next :: "(nat \<Rightarrow> interval) \<Rightarrow> nat \<Rightarrow> bool \<Rightarrow> fifo_state \<Rightarrow> fifo_state option" where
  "fclient_next want c ok s =
     (let req = f_req s; res = f_res s; p = Suc c in
      case f_client s c of
        C_Input \<Rightarrow> Some (set_fclient c (if ok then C_OpenReq else C_Exit None 1) s)
      | C_OpenReq \<Rightarrow>
          if ok \<and> ff_exists req
          then Some (set_fclient c (if ff_readers req = {} then C_WaitReq (ff_rcount req) else C_Write)
                 (s\<lparr>f_req := open_wr p req\<rparr>))
          else Some (set_fclient c (C_Exit None 1) s)
      | C_WaitReq r \<Rightarrow> if ff_rcount req = r then None else Some (set_fclient c C_Write s)
      | C_Write \<Rightarrow>
          if ff_readers req = {} then Some (set_fclient c C_Killed (leave p s))
          else if ok then Some (set_fclient c (C_CloseReq True) (s\<lparr>f_req := req\<lparr>ff_data := ff_data req @ [want c]\<rparr>\<rparr>))
          else Some (set_fclient c (C_CloseReq False) s)
      | C_CloseReq sent \<Rightarrow>
          Some (set_fclient c (if sent then C_OpenRes else C_Exit None 1) (s\<lparr>f_req := close_ff p req\<rparr>))
      | C_OpenRes \<Rightarrow>
          if ok \<and> ff_exists res
          then Some (set_fclient c (if ff_writers res = {} then C_WaitRes (ff_wcount res) else C_Read)
                 (s\<lparr>f_res := open_rd p res\<rparr>))
          else Some (set_fclient c (C_Exit None 1) s)
      | C_WaitRes w \<Rightarrow> if ff_wcount res = w then None else Some (set_fclient c C_Read s)
      | C_Read \<Rightarrow>
          (case ff_data res of
             v # vs \<Rightarrow> Some (set_fclient c (C_CloseRes (Some v)) (s\<lparr>f_res := res\<lparr>ff_data := vs\<rparr>\<rparr>))
           | [] \<Rightarrow> if ff_writers res = {} then Some (set_fclient c (C_CloseRes None) s) else None)
      | C_CloseRes v \<Rightarrow> Some (set_fclient c (C_Exit v 0) (s\<lparr>f_res := close_ff p res\<rparr>))
      | C_Exit _ _ \<Rightarrow> None
      | C_Killed \<Rightarrow> None)"

definition kill_client :: "nat \<Rightarrow> fifo_state \<Rightarrow> fifo_state option" where
  "kill_client c s = (case f_client s c of C_Exit _ _ \<Rightarrow> None | C_Killed \<Rightarrow> None
     | _ \<Rightarrow> Some (set_fclient c C_Killed (leave (Suc c) s)))"

definition fifo_next :: "(nat \<Rightarrow> interval) \<Rightarrow> fifo_act \<Rightarrow> fifo_state \<Rightarrow> fifo_state option" where
  "fifo_next want a s = (case a of Server ok \<Rightarrow> fserver_next ok s | Signal \<Rightarrow> handle_shutdown s
     | Client c ok \<Rightarrow> fclient_next want c ok s | Kill c \<Rightarrow> kill_client c s)"

text \<open>The FIFOs may be left over from an earlier server.\<close>

definition fifo_init :: "bool \<Rightarrow> fifo_state" where
  "fifo_init left = \<lparr>f_server = S_SigInt, f_req = no_fifo\<lparr>ff_exists := left\<rparr>,
     f_res = no_fifo\<lparr>ff_exists := left\<rparr>, f_client = (\<lambda>_. C_Input)\<rparr>"

text \<open>What can happen when only the clients of \<open>cs\<close> run.\<close>

inductive fifo_reach :: "(nat \<Rightarrow> interval) \<Rightarrow> nat set \<Rightarrow> fifo_state \<Rightarrow> bool" for want cs where
  init: "fifo_reach want cs (fifo_init left)"
| step: "fifo_reach want cs s \<Longrightarrow> fifo_next want a s = Some s' \<Longrightarrow>
         (\<And>c ok. a = Client c ok \<Longrightarrow> c \<in> cs) \<Longrightarrow> fifo_reach want cs s'"

abbreviation requests_run :: "(nat \<Rightarrow> interval) \<Rightarrow> fifo_act list \<Rightarrow> fifo_state \<Rightarrow> fifo_state option" where
  "requests_run want \<equiv> run_acts (fifo_next want)"

lemma requests_run_reach:
  assumes "fifo_reach want cs s" "requests_run want as s = Some s'" "\<And>c ok. Client c ok \<in> set as \<Longrightarrow> c \<in> cs"
  shows "fifo_reach want cs s'"
  using assms(2,1,3) by (induction rule: run_acts_induct) (auto intro: fifo_reach.step)

section \<open>Answers are integrals that were asked for\<close>

text \<open>The value client \<open>c\<close> should get.\<close>

definition answer_of :: "interval \<Rightarrow> rat option" where
  "answer_of iv = rectangular_integration (iv_start iv) (iv_end iv) (iv_dx iv)"

text \<open>
  \<open>A\<close>: the requests that may be about, \<open>B\<close>: the answers that may.
\<close>

primrec server_ok :: "interval set \<Rightarrow> rat set \<Rightarrow> server_pc \<Rightarrow> bool" where
  "server_ok A B S_SigInt \<longleftrightarrow> True"
| "server_ok A B S_SigTerm \<longleftrightarrow> True"
| "server_ok A B S_MkReq \<longleftrightarrow> True"
| "server_ok A B S_MkRes \<longleftrightarrow> True"
| "server_ok A B S_OpenReq \<longleftrightarrow> True"
| "server_ok A B (S_WaitReq w) \<longleftrightarrow> True"
| "server_ok A B S_Read \<longleftrightarrow> True"
| "server_ok A B (S_CloseReq q) \<longleftrightarrow> set_option q \<subseteq> A"
| "server_ok A B (S_Compute q) \<longleftrightarrow> q \<in> A"
| "server_ok A B (S_OpenRes v) \<longleftrightarrow> v \<in> B"
| "server_ok A B (S_WaitRes v r) \<longleftrightarrow> v \<in> B"
| "server_ok A B (S_Write v) \<longleftrightarrow> v \<in> B"
| "server_ok A B S_CloseRes \<longleftrightarrow> True"
| "server_ok A B S_UnlinkReq \<longleftrightarrow> True"
| "server_ok A B S_UnlinkRes \<longleftrightarrow> True"
| "server_ok A B (S_Exit st) \<longleftrightarrow> True"
| "server_ok A B S_Killed \<longleftrightarrow> True"

primrec client_ok :: "rat set \<Rightarrow> client_pc \<Rightarrow> bool" where
  "client_ok B C_Input \<longleftrightarrow> True"
| "client_ok B C_OpenReq \<longleftrightarrow> True"
| "client_ok B (C_WaitReq r) \<longleftrightarrow> True"
| "client_ok B C_Write \<longleftrightarrow> True"
| "client_ok B (C_CloseReq sent) \<longleftrightarrow> True"
| "client_ok B C_OpenRes \<longleftrightarrow> True"
| "client_ok B (C_WaitRes w) \<longleftrightarrow> True"
| "client_ok B C_Read \<longleftrightarrow> True"
| "client_ok B (C_CloseRes v) \<longleftrightarrow> set_option v \<subseteq> B"
| "client_ok B (C_Exit v st) \<longleftrightarrow> set_option v \<subseteq> B"
| "client_ok B C_Killed \<longleftrightarrow> True"

definition clients_ok :: "rat set \<Rightarrow> (nat \<Rightarrow> client_pc) \<Rightarrow> bool" where
  "clients_ok B f \<longleftrightarrow> (\<forall>c. client_ok B (f c))"

lemma clients_ok_upd [simp]: "clients_ok B f \<Longrightarrow> client_ok B p \<Longrightarrow> clients_ok B (f(c := p))"
  by (simp add: clients_ok_def)

lemma clients_okD: "clients_ok B f \<Longrightarrow> client_ok B (f c)"
  by (simp add: clients_ok_def)

definition fifo_ok :: "interval set \<Rightarrow> rat set \<Rightarrow> fifo_state \<Rightarrow> bool" where
  "fifo_ok A B s \<longleftrightarrow> set (ff_data (f_req s)) \<subseteq> A \<and> set (ff_data (f_res s)) \<subseteq> B
     \<and> server_ok A B (f_server s) \<and> clients_ok B (f_client s)"

lemmas fifo_ops = open_rd_def open_wr_def close_ff_def leave_def server_exit_def set_fclient_def

text \<open>\<open>B\<close> holds the integral of every request in \<open>A\<close>.\<close>

lemma server_step_ok:
  assumes "fifo_ok A B s" "\<And>q v. q \<in> A \<Longrightarrow> answer_of q = Some v \<Longrightarrow> v \<in> B" "fserver_next ok s = Some s'"
  shows "fifo_ok A B s'"
proof -
  note step = assms(3) [unfolded fserver_next_def Let_def]
  have h: "set (ff_data (f_req s)) \<subseteq> A" "set (ff_data (f_res s)) \<subseteq> B" "server_ok A B (f_server s)"
    "clients_ok B (f_client s)" using assms(1) by (simp_all add: fifo_ok_def)
  show ?thesis
  proof (cases "f_server s")
    case (S_CloseReq q)
    with step h show ?thesis by (cases q) (auto simp: fifo_ok_def fifo_ops Let_def split: if_splits)
  next
    case (S_Compute q)
    with step h assms(2) [of q] show ?thesis by (auto simp: fifo_ok_def answer_of_def split: option.splits)
  next
    case S_Read
    with step h show ?thesis by (auto simp: fifo_ok_def split: list.splits if_splits)
  qed (use step h in \<open>auto simp: fifo_ok_def fifo_ops Let_def split: if_splits\<close>)
qed

lemma client_step_ok:
  assumes "fifo_ok A B s" "want c \<in> A" "fclient_next want c ok s = Some s'"
  shows "fifo_ok A B s'"
proof -
  note step = assms(3) [unfolded fclient_next_def Let_def]
  have h: "set (ff_data (f_req s)) \<subseteq> A" "set (ff_data (f_res s)) \<subseteq> B" "server_ok A B (f_server s)"
    "clients_ok B (f_client s)" using assms(1) by (simp_all add: fifo_ok_def)
  note c = clients_okD [OF h(4), of c]
  show ?thesis
  proof (cases "f_client s c")
    case C_Read
    with step h show ?thesis by (auto simp: fifo_ok_def set_fclient_def split: list.splits if_splits)
  next
    case (C_CloseRes v)
    with step h c show ?thesis by (auto simp: fifo_ok_def fifo_ops Let_def split: if_splits)
  qed (use step h assms(2) in \<open>auto simp: fifo_ok_def fifo_ops Let_def split: if_splits\<close>)
qed

lemma signal_step_ok:
  assumes "fifo_ok A B s" "handle_shutdown s = Some s'"
  shows "fifo_ok A B s'"
  using assms unfolding handle_shutdown_def
  by (cases "f_server s") (auto simp: fifo_ok_def fifo_ops Let_def split: if_splits)

lemma kill_step_ok:
  assumes "fifo_ok A B s" "kill_client c s = Some s'"
  shows "fifo_ok A B s'"
  using assms unfolding kill_client_def
  by (cases "f_client s c") (auto simp: fifo_ok_def fifo_ops Let_def split: if_splits)

lemma fifo_reach_ok:
  assumes "fifo_reach want cs s"
  shows "fifo_ok (want ` cs) {v. \<exists>c\<in>cs. answer_of (want c) = Some v} s"
  using assms
proof (induction rule: fifo_reach.induct)
  case (init left)
  then show ?case by (simp add: fifo_ok_def fifo_init_def no_fifo_def clients_ok_def)
next
  case (step s a s')
  show ?case
  proof (cases a)
    case (Server ok)
    with step show ?thesis by (auto simp: fifo_next_def intro: server_step_ok)
  next
    case Signal
    with step show ?thesis by (auto simp: fifo_next_def intro: signal_step_ok)
  next
    case (Client c ok)
    with step show ?thesis by (auto simp: fifo_next_def intro: client_step_ok)
  next
    case (Kill c)
    with step show ?thesis by (auto simp: fifo_next_def intro: kill_step_ok)
  qed
qed

text \<open>Every answer is the integral that one of the clients asked for.\<close>

lemma fifo_answer_requested:
  assumes "fifo_reach want cs s" "f_client s c = C_Exit (Some v) st"
  shows "\<exists>c'\<in>cs. answer_of (want c') = Some v"
  using fifo_reach_ok [OF assms(1)] assms(2) clients_okD [of _ "f_client s" c] by (auto simp: fifo_ok_def)

text \<open>
  C19. With one client, whatever happens in between (failed calls, a signal to the server, FIFOs
  left over from an earlier run): an answer that the client prints is the integral that it asked for.
\<close>

theorem fifo_single_client_answer:
  assumes "fifo_reach want {c} s" "f_client s c = C_Exit (Some v) st"
  shows "rectangular_integration (iv_start (want c)) (iv_end (want c)) (iv_dx (want c)) = Some v"
  using fifo_answer_requested [OF assms] by (simp add: answer_of_def)

section \<open>Runs\<close>

text \<open>The server up to its wait for the first request; a client that gets its answer.\<close>

definition start_up :: "fifo_act list" where
  "start_up = [Server True, Server True, Server True, Server True, Server True]"

definition served_run :: "fifo_act list" where
  "served_run = start_up @ [Client 0 True, Client 0 True, Server True, Client 0 True, Server True,
     Client 0 True, Server True, Server True, Client 0 True, Server True, Server True,
     Client 0 True, Client 0 True, Client 0 True, Server True]"

definition two_wants :: "nat \<Rightarrow> interval" where
  "two_wants c = (if c = 0 then \<lparr>iv_start = 0, iv_end = 1, iv_dx = 1\<rparr> else \<lparr>iv_start = 0, iv_end = 0, iv_dx = 1\<rparr>)"

lemma unit_integral: "rectangular_integration 0 1 1 = Some 4"
  by code_simp

lemma served_run_result:
  "map_option (\<lambda>s. (f_client s 0, f_server s)) (requests_run two_wants served_run (fifo_init False))
     = Some (C_Exit (Some 4) 0, S_OpenReq)"
  by code_simp

theorem fifo_single_client_answer_witness:
  "\<exists>s. fifo_reach two_wants {0} s \<and> f_client s 0 = C_Exit (Some 4) 0
     \<and> rectangular_integration 0 1 1 = Some 4"
proof -
  obtain s where r: "requests_run two_wants served_run (fifo_init False) = Some s" "f_client s 0 = C_Exit (Some 4) 0"
    using served_run_result by auto
  have "fifo_reach two_wants {0} s"
    by (rule requests_run_reach [OF fifo_reach.init r(1)]) (auto simp: served_run_def start_up_def)
  with fifo_single_client_answer [OF this r(2)] r(2) show ?thesis by (auto simp: two_wants_def)
qed

text \<open>
  Two clients: both send their request while the server has the FIFO open; it reads one of
  the two and closes, which drops the other; then the client that was not served opens the
  FIFO of the answers first.
\<close>

definition mixed_run :: "fifo_act list" where
  "mixed_run = start_up @ [Client 0 True, Client 1 True, Client 0 True, Client 1 True, Server True,
     Client 0 True, Client 1 True, Client 0 True, Client 1 True, Server True, Server True, Server True,
     Client 1 True, Server True, Server True, Client 1 True, Client 1 True, Client 1 True]"

lemma mixed_run_result:
  "map_option (\<lambda>s. (f_client s 0, f_client s 1, ff_data (f_req s))) (requests_run two_wants mixed_run (fifo_init False))
     = Some (C_OpenRes, C_Exit (Some 4) 0, [])"
  by code_simp

text \<open>
  Client 1 asks for an empty interval, whose integral is 0, and prints 4, the answer to
  client 0, whose request is the only one the server has read.
\<close>

theorem fifo_answers_get_mixed:
  "\<exists>s. fifo_reach two_wants {0, 1} s \<and> f_client s 1 = C_Exit (Some 4) 0 \<and> answer_of (two_wants 1) = Some 0
     \<and> ff_data (f_req s) = []"
proof -
  obtain s where r: "requests_run two_wants mixed_run (fifo_init False) = Some s"
    "f_client s 1 = C_Exit (Some 4) 0" "ff_data (f_req s) = []"
    using mixed_run_result by auto
  have "fifo_reach two_wants {0, 1} s"
    by (rule requests_run_reach [OF fifo_reach.init r(1)]) (auto simp: mixed_run_def start_up_def)
  with r(2,3) show ?thesis by (auto simp: two_wants_def answer_of_def integration_empty)
qed

section \<open>Requests and deaths that stop the service\<close>

text \<open>What can happen without a signal to the server, with any clients.\<close>

inductive no_signal :: "(nat \<Rightarrow> interval) \<Rightarrow> fifo_state \<Rightarrow> fifo_state \<Rightarrow> bool" for want where
  refl: "no_signal want s s"
| step: "no_signal want s t \<Longrightarrow> fifo_next want a t = Some t' \<Longrightarrow> a \<noteq> Signal \<Longrightarrow> no_signal want s t'"

lemma no_signal_invariant:
  assumes "no_signal want s t" "P s"
    and "\<And>t a t'. P t \<Longrightarrow> fifo_next want a t = Some t' \<Longrightarrow> a \<noteq> Signal \<Longrightarrow> P t'"
  shows "P t"
  using assms(1,2) by (induction rule: no_signal.induct) (auto intro: assms(3))

text \<open>The server computes an integral whose loop does not end: nobody gets an answer any more.\<close>

definition server_loops :: "fifo_state \<Rightarrow> bool" where
  "server_loops s \<longleftrightarrow> fifo_ok UNIV {} s
     \<and> (case f_server s of S_Compute iv \<Rightarrow> answer_of iv = None | _ \<Rightarrow> False)"

lemma server_loops_step:
  assumes "server_loops s" "fifo_next want a s = Some s'" "a \<noteq> Signal"
  shows "server_loops s' \<and> f_server s' = f_server s"
proof -
  obtain iv where iv: "f_server s = S_Compute iv" "answer_of iv = None" "fifo_ok UNIV {} s"
    using assms(1) by (auto simp: server_loops_def split: server_pc.splits)
  show ?thesis
  proof (cases a)
    case (Server ok)
    with assms(2) iv show ?thesis by (simp add: fifo_next_def fserver_next_def Let_def answer_of_def)
  next
    case (Client c ok)
    with assms(2) have c: "fclient_next want c ok s = Some s'" by (simp add: fifo_next_def)
    then have "f_server s' = f_server s" unfolding fclient_next_def Let_def
      by (cases "f_client s c") (auto simp: set_fclient_def leave_def split: if_splits list.splits)
    with client_step_ok [OF iv(3) _ c] iv show ?thesis by (simp add: server_loops_def)
  next
    case (Kill c)
    with assms(2) have c: "kill_client c s = Some s'" by (simp add: fifo_next_def)
    then have "f_server s' = f_server s" unfolding kill_client_def
      by (cases "f_client s c") (auto simp: set_fclient_def leave_def)
    with kill_step_ok [OF iv(3) c] iv show ?thesis by (simp add: server_loops_def)
  qed (use assms(3) in simp)
qed

definition request_run :: "fifo_act list" where
  "request_run = start_up @ [Client 0 True, Client 0 True, Server True, Client 0 True, Server True,
     Client 0 True, Server True]"

lemmas fifo_eval = fifo_next_def fserver_next_def fclient_next_def kill_client_def fifo_ops fifo_init_def
  no_fifo_def start_up_def Let_def

lemma request_run_result:
  "requests_run want request_run (fifo_init False) =
     Some \<lparr>f_server = S_Compute (want 0),
       f_req = \<lparr>ff_exists = True, ff_readers = {}, ff_writers = {}, ff_rcount = 1, ff_wcount = 1, ff_data = []\<rparr>,
       f_res = \<lparr>ff_exists = True, ff_readers = {}, ff_writers = {}, ff_rcount = 0, ff_wcount = 0, ff_data = []\<rparr>,
       f_client = (\<lambda>_. C_Input)(0 := C_OpenRes)\<rparr>"
  by (simp add: request_run_def fifo_eval)

text \<open>
  A request whose step is not positive: from some point of a run on, the server computes
  for ever, and no client gets an answer any more.
\<close>

theorem fifo_endless_request:
  assumes "is_double (iv_start (want 0))" "iv_start (want 0) < iv_end (want 0)" "iv_dx (want 0) \<le> 0"
  shows "\<exists>s. fifo_reach want {0} s \<and> f_server s = S_Compute (want 0) \<and>
    (\<forall>t. no_signal want s t \<longrightarrow> f_server t = S_Compute (want 0) \<and> (\<forall>c v st. f_client t c \<noteq> C_Exit (Some v) st))"
proof -
  have none: "answer_of (want 0) = None"
    unfolding answer_of_def by (rule integration_nonpositive_step [OF assms])
  obtain s where s: "requests_run want request_run (fifo_init False) = Some s" "f_server s = S_Compute (want 0)"
    "server_loops s"
    using request_run_result [of want] none
    by (auto simp: server_loops_def fifo_ok_def clients_ok_def)
  have "fifo_reach want {0} s"
    by (rule requests_run_reach [OF fifo_reach.init s(1)]) (auto simp: request_run_def start_up_def)
  moreover have "f_server t = S_Compute (want 0) \<and> (\<forall>c v st. f_client t c \<noteq> C_Exit (Some v) st)"
    if "no_signal want s t" for t
  proof -
    have "server_loops t \<and> f_server t = S_Compute (want 0)"
      using that by (rule no_signal_invariant) (use s server_loops_step in auto)
    then show ?thesis using clients_okD [of "{}" "f_client t"]
      by (auto simp: server_loops_def fifo_ok_def) (metis client_ok.simps(10) insert_not_empty option.set(2) subset_empty)
  qed
  ultimately show ?thesis using s(2) by blast
qed

definition zero_wants :: "nat \<Rightarrow> interval" where
  "zero_wants c = \<lparr>iv_start = 0, iv_end = 1, iv_dx = 0\<rparr>"

theorem fifo_endless_request_witness:
  "\<exists>s. fifo_reach zero_wants {0} s \<and> f_server s = S_Compute (zero_wants 0)"
proof -
  have "is_double (iv_start (zero_wants 0))" by (simp add: zero_wants_def is_double_def)
  with fifo_endless_request [of zero_wants] show ?thesis by (auto simp: zero_wants_def)
qed

text \<open>
  A client that dies after sending its request: the server waits for a reader of the
  answers, and the clients that come later wait for a reader of the requests.
\<close>

definition waits_before_request :: "nat \<Rightarrow> client_pc \<Rightarrow> bool" where
  "waits_before_request n p \<longleftrightarrow> p \<in> {C_Input, C_OpenReq, C_WaitReq n, C_Exit None 1, C_Killed}"

definition wedged :: "rat \<Rightarrow> fifo_state \<Rightarrow> bool" where
  "wedged v s \<longleftrightarrow> f_server s = S_WaitRes v (ff_rcount (f_res s)) \<and> ff_rcount (f_res s) = 0
     \<and> ff_readers (f_req s) = {} \<and> (\<forall>c. waits_before_request (ff_rcount (f_req s)) (f_client s c))"

lemma wedged_upd:
  assumes "wedged v s" "waits_before_request (ff_rcount (f_req s)) p"
    and "f_server s' = f_server s" "ff_rcount (f_res s') = ff_rcount (f_res s)"
      "ff_rcount (f_req s') = ff_rcount (f_req s)" "ff_readers (f_req s') = {}"
      "f_client s' = (f_client s)(c := p)"
  shows "wedged v s'"
  using assms by (simp add: wedged_def)

lemma wedged_client:
  assumes w: "wedged v s" and step: "fclient_next want c ok s = Some s'"
  shows "wedged v s'"
proof -
  have req: "ff_readers (f_req s) = {}" and c: "waits_before_request (ff_rcount (f_req s)) (f_client s c)"
    using w by (simp_all add: wedged_def)
  note upd = wedged_upd [OF w, of _ s' c] and defs = fclient_next_def set_fclient_def open_wr_def waits_before_request_def Let_def
  from c consider "f_client s c = C_Input" | "f_client s c = C_OpenReq"
    | "f_client s c = C_WaitReq (ff_rcount (f_req s))" | "f_client s c = C_Exit None 1" | "f_client s c = C_Killed"
    by (auto simp: waits_before_request_def)
  then show ?thesis
  proof cases
    case 1
    then have "s' = set_fclient c (if ok then C_OpenReq else C_Exit None 1) s" using step by (simp add: defs)
    then show ?thesis by (intro upd) (simp_all add: defs req)
  next
    case 2
    then have "s' = (if ok \<and> ff_exists (f_req s)
        then set_fclient c (C_WaitReq (ff_rcount (f_req s))) (s\<lparr>f_req := open_wr (Suc c) (f_req s)\<rparr>)
        else set_fclient c (C_Exit None 1) s)" using step req by (auto simp: defs split: if_splits)
    then show ?thesis
      using upd [of "C_WaitReq (ff_rcount (f_req s))"] upd [of "C_Exit None 1"]
      by (cases "ok \<and> ff_exists (f_req s)") (simp_all only: if_True if_False, simp_all add: defs req)
  qed (use step in \<open>simp_all add: fclient_next_def\<close>)
qed

lemma wedged_step:
  assumes w: "wedged v s" and step: "fifo_next want a s = Some s'" and a: "a \<noteq> Signal"
  shows "wedged v s'"
proof (cases a)
  case (Server ok)
  with step w show ?thesis by (simp add: fifo_next_def fserver_next_def wedged_def)
next
  case (Client c ok)
  with step w show ?thesis by (auto simp: fifo_next_def intro: wedged_client)
next
  case (Kill c)
  with step have "kill_client c s = Some s'" by (simp add: fifo_next_def)
  then have s': "s' = set_fclient c C_Killed (leave (Suc c) s)"
    unfolding kill_client_def by (cases "f_client s c") simp_all
  have "ff_readers (f_req s) = {}" using w by (simp add: wedged_def)
  then show ?thesis
    by (intro wedged_upd [OF w, of C_Killed s' c])
      (simp_all add: s' waits_before_request_def set_fclient_def leave_def close_ff_def Let_def)
qed (use a in simp)

definition death_run :: "fifo_act list" where
  "death_run = request_run @ [Server True, Kill 0, Server True]"

text \<open>
  C21. A run in which a client is killed between its request and the answer; whatever
  clients come and go later, the server stays in its \<open>open\<close> of the answer FIFO for ever and nobody
  gets an answer any more.
\<close>

theorem fifo_dead_client_blocks_service:
  assumes "answer_of (want 0) = Some v"
  shows "\<exists>s. fifo_reach want {0} s \<and> f_client s 0 = C_Killed \<and>
    (\<forall>t. no_signal want s t \<longrightarrow> f_server t = S_WaitRes v 0 \<and> (\<forall>c w st. f_client t c \<noteq> C_Exit (Some w) st))"
proof -
  have eval: "requests_run want death_run (fifo_init False) =
     Some \<lparr>f_server = S_WaitRes v 0,
       f_req = \<lparr>ff_exists = True, ff_readers = {}, ff_writers = {}, ff_rcount = 1, ff_wcount = 1, ff_data = []\<rparr>,
       f_res = \<lparr>ff_exists = True, ff_readers = {}, ff_writers = {0}, ff_rcount = 0, ff_wcount = 1, ff_data = []\<rparr>,
       f_client = (\<lambda>_. C_Input)(0 := C_Killed)\<rparr>"
    using assms by (simp add: death_run_def request_run_def fifo_eval answer_of_def)
  then obtain s where s: "requests_run want death_run (fifo_init False) = Some s" "f_client s 0 = C_Killed" "wedged v s"
    by (auto simp: wedged_def waits_before_request_def)
  have "fifo_reach want {0} s"
    by (rule requests_run_reach [OF fifo_reach.init s(1)]) (auto simp: death_run_def request_run_def start_up_def)
  moreover have "f_server t = S_WaitRes v 0 \<and> (\<forall>c w st. f_client t c \<noteq> C_Exit (Some w) st)"
    if "no_signal want s t" for t
  proof -
    have "wedged v t" using that by (rule no_signal_invariant) (use s wedged_step in auto)
    then have "f_server t = S_WaitRes v 0" "\<And>c. waits_before_request (ff_rcount (f_req t)) (f_client t c)"
      by (simp_all add: wedged_def)
    moreover have "\<not> waits_before_request n (C_Exit (Some w) st)" for n w st by (simp add: waits_before_request_def)
    ultimately show ?thesis by metis
  qed
  ultimately show ?thesis using s(2) by blast
qed

theorem fifo_dead_client_blocks_service_witness:
  "\<exists>s. fifo_reach two_wants {0} s \<and> f_client s 0 = C_Killed"
proof -
  have "answer_of (two_wants 0) = Some 4" by (simp add: answer_of_def two_wants_def unit_integral)
  from fifo_dead_client_blocks_service [of two_wants, OF this] show ?thesis by blast
qed

section \<open>Shutdown\<close>

text \<open>From a signal on, the handler removes both files and leaves; a client that comes later fails.\<close>

lemma shutdown_removes_fifos:
  assumes "handle_shutdown s = Some s'" "f_server s' = S_UnlinkReq"
  shows "\<exists>t. requests_run want [Server True, Server True] s' = Some t \<and> f_server t = S_Exit 0
     \<and> \<not> ff_exists (f_req t) \<and> \<not> ff_exists (f_res t)"
  using assms(2) by (simp add: fifo_next_def fserver_next_def fifo_ops Let_def)

lemma client_without_fifo:
  assumes "\<not> ff_exists (f_req s)" "f_client s c = C_OpenReq"
  shows "fclient_next want c ok s = Some (set_fclient c (C_Exit None 1) s)"
  using assms by (simp add: fclient_next_def Let_def)

end
