(* ===== verification/Lab3Served.thy ===== *)
theory Lab3Served
  imports Lab3Fifo
begin

text \<open>
  The rendezvous of \<open>lab3/zad2\<close>: one client and the server, from the start of both to the
  answer.  The two FIFOs are there already (from an earlier server, or made by this one
  before the client opens them), no call fails and no signal comes.  Every order of the two
  processes leads through the 52 states of the table below, in which each of the four
  \<open>open\<close>s may be the one that waits.
\<close>

section \<open>The states of the rendezvous\<close>

definition ff :: "nat set \<Rightarrow> nat set \<Rightarrow> nat \<Rightarrow> nat \<Rightarrow> 'a list \<Rightarrow> 'a fifo" where
  "ff r w rc wc d = \<lparr>ff_exists = True, ff_readers = r, ff_writers = w, ff_rcount = rc, ff_wcount = wc, ff_data = d\<rparr>"

definition both :: "server_pc \<Rightarrow> client_pc \<Rightarrow> interval fifo \<Rightarrow> rat fifo \<Rightarrow> fifo_state" where
  "both sp cp req res = \<lparr>f_server = sp, f_req = req, f_res = res, f_client = (\<lambda>_. C_Input)(0 := cp)\<rparr>"

definition rendezvous :: "interval \<Rightarrow> rat \<Rightarrow> fifo_state list" where
  "rendezvous q v =
    [both S_SigInt C_Input (ff {} {} 0 0 []) (ff {} {} 0 0 []),
     both S_SigInt C_OpenReq (ff {} {} 0 0 []) (ff {} {} 0 0 []),
     both S_SigInt (C_WaitReq 0) (ff {} {1} 0 1 []) (ff {} {} 0 0 []),
     both S_SigTerm C_Input (ff {} {} 0 0 []) (ff {} {} 0 0 []),
     both S_SigTerm C_OpenReq (ff {} {} 0 0 []) (ff {} {} 0 0 []),
     both S_SigTerm (C_WaitReq 0) (ff {} {1} 0 1 []) (ff {} {} 0 0 []),
     both S_MkReq C_Input (ff {} {} 0 0 []) (ff {} {} 0 0 []),
     both S_MkReq C_OpenReq (ff {} {} 0 0 []) (ff {} {} 0 0 []),
     both S_MkReq (C_WaitReq 0) (ff {} {1} 0 1 []) (ff {} {} 0 0 []),
     both S_MkRes C_Input (ff {} {} 0 0 []) (ff {} {} 0 0 []),
     both S_MkRes C_OpenReq (ff {} {} 0 0 []) (ff {} {} 0 0 []),
     both S_MkRes (C_WaitReq 0) (ff {} {1} 0 1 []) (ff {} {} 0 0 []),
     both S_OpenReq C_Input (ff {} {} 0 0 []) (ff {} {} 0 0 []),
     both S_OpenReq C_OpenReq (ff {} {} 0 0 []) (ff {} {} 0 0 []),
     both S_OpenReq (C_WaitReq 0) (ff {} {1} 0 1 []) (ff {} {} 0 0 []),
     both (S_WaitReq 0) C_Input (ff {0} {} 1 0 []) (ff {} {} 0 0 []),
     both (S_WaitReq 0) C_OpenReq (ff {0} {} 1 0 []) (ff {} {} 0 0 []),
     both (S_WaitReq 0) C_Write (ff {0} {1} 1 1 []) (ff {} {} 0 0 []),
     both (S_WaitReq 0) (C_CloseReq True) (ff {0} {1} 1 1 [q]) (ff {} {} 0 0 []),
     both (S_WaitReq 0) C_OpenRes (ff {0} {} 1 1 [q]) (ff {} {} 0 0 []),
     both (S_WaitReq 0) (C_WaitRes 0) (ff {0} {} 1 1 [q]) (ff {1} {} 1 0 []),
     both S_Read (C_WaitReq 0) (ff {0} {1} 1 1 []) (ff {} {} 0 0 []),
     both S_Read C_Write (ff {0} {1} 1 1 []) (ff {} {} 0 0 []),
     both S_Read (C_CloseReq True) (ff {0} {1} 1 1 [q]) (ff {} {} 0 0 []),
     both S_Read C_OpenRes (ff {0} {} 1 1 [q]) (ff {} {} 0 0 []),
     both S_Read (C_WaitRes 0) (ff {0} {} 1 1 [q]) (ff {1} {} 1 0 []),
     both (S_CloseReq (Some q)) (C_CloseReq True) (ff {0} {1} 1 1 []) (ff {} {} 0 0 []),
     both (S_CloseReq (Some q)) C_OpenRes (ff {0} {} 1 1 []) (ff {} {} 0 0 []),
     both (S_CloseReq (Some q)) (C_WaitRes 0) (ff {0} {} 1 1 []) (ff {1} {} 1 0 []),
     both (S_Compute q) (C_CloseReq True) (ff {} {1} 1 1 []) (ff {} {} 0 0 []),
     both (S_Compute q) C_OpenRes (ff {} {} 1 1 []) (ff {} {} 0 0 []),
     both (S_Compute q) (C_WaitRes 0) (ff {} {} 1 1 []) (ff {1} {} 1 0 []),
     both (S_OpenRes v) (C_CloseReq True) (ff {} {1} 1 1 []) (ff {} {} 0 0 []),
     both (S_OpenRes v) C_OpenRes (ff {} {} 1 1 []) (ff {} {} 0 0 []),
     both (S_OpenRes v) (C_WaitRes 0) (ff {} {} 1 1 []) (ff {1} {} 1 0 []),
     both (S_WaitRes v 0) (C_CloseReq True) (ff {} {1} 1 1 []) (ff {} {0} 0 1 []),
     both (S_WaitRes v 0) C_OpenRes (ff {} {} 1 1 []) (ff {} {0} 0 1 []),
     both (S_WaitRes v 0) C_Read (ff {} {} 1 1 []) (ff {1} {0} 1 1 []),
     both (S_Write v) (C_WaitRes 0) (ff {} {} 1 1 []) (ff {1} {0} 1 1 []),
     both (S_Write v) C_Read (ff {} {} 1 1 []) (ff {1} {0} 1 1 []),
     both S_CloseRes (C_WaitRes 0) (ff {} {} 1 1 []) (ff {1} {0} 1 1 [v]),
     both S_CloseRes C_Read (ff {} {} 1 1 []) (ff {1} {0} 1 1 [v]),
     both S_CloseRes (C_CloseRes (Some v)) (ff {} {} 1 1 []) (ff {1} {0} 1 1 []),
     both S_CloseRes (C_Exit (Some v) 0) (ff {} {} 1 1 []) (ff {} {0} 1 1 []),
     both S_OpenReq (C_WaitRes 0) (ff {} {} 1 1 []) (ff {1} {} 1 1 [v]),
     both S_OpenReq C_Read (ff {} {} 1 1 []) (ff {1} {} 1 1 [v]),
     both S_OpenReq (C_CloseRes (Some v)) (ff {} {} 1 1 []) (ff {1} {} 1 1 []),
     both S_OpenReq (C_Exit (Some v) 0) (ff {} {} 1 1 []) (ff {} {} 1 1 []),
     both (S_WaitReq 1) (C_WaitRes 0) (ff {0} {} 2 1 []) (ff {1} {} 1 1 [v]),
     both (S_WaitReq 1) C_Read (ff {0} {} 2 1 []) (ff {1} {} 1 1 [v]),
     both (S_WaitReq 1) (C_CloseRes (Some v)) (ff {0} {} 2 1 []) (ff {1} {} 1 1 []),
     both (S_WaitReq 1) (C_Exit (Some v) 0) (ff {0} {} 2 1 []) (ff {} {} 1 1 [])]"

text \<open>The server (\<open>True\<close>) and client 0 (\<open>False\<close>).\<close>

definition fifo_pair :: "(nat \<Rightarrow> interval) \<Rightarrow> bool \<Rightarrow> fifo_state \<Rightarrow> fifo_state option" where
  "fifo_pair want b = fifo_next want (if b then Server True else Client 0 True)"

text \<open>What both have left; the server passes \<open>S_OpenReq\<close> twice.\<close>

definition client_todo :: "client_pc \<Rightarrow> nat" where
  "client_todo p = (case p of C_Input \<Rightarrow> 9 | C_OpenReq \<Rightarrow> 8 | C_WaitReq _ \<Rightarrow> 7 | C_Write \<Rightarrow> 6 | C_CloseReq _ \<Rightarrow> 5
     | C_OpenRes \<Rightarrow> 4 | C_WaitRes _ \<Rightarrow> 3 | C_Read \<Rightarrow> 2 | C_CloseRes _ \<Rightarrow> 1 | _ \<Rightarrow> 0)"

definition server_todo :: "nat \<Rightarrow> server_pc \<Rightarrow> nat" where
  "server_todo answers p = (case p of S_SigInt \<Rightarrow> 15 | S_SigTerm \<Rightarrow> 14 | S_MkReq \<Rightarrow> 13 | S_MkRes \<Rightarrow> 12
     | S_OpenReq \<Rightarrow> if answers = 0 then 11 else 2
     | S_WaitReq w \<Rightarrow> if w = 0 then 10 else 1
     | S_Read \<Rightarrow> 9 | S_CloseReq _ \<Rightarrow> 8 | S_Compute _ \<Rightarrow> 7 | S_OpenRes _ \<Rightarrow> 6 | S_WaitRes _ _ \<Rightarrow> 5 | S_Write _ \<Rightarrow> 4
     | S_CloseRes \<Rightarrow> 3 | _ \<Rightarrow> 0)"

definition pair_todo :: "fifo_state \<Rightarrow> nat" where
  "pair_todo s = server_todo (ff_wcount (f_res s)) (f_server s) + client_todo (f_client s 0)"

lemmas pair_eval = fifo_next_def fserver_next_def fclient_next_def open_rd_def open_wr_def close_ff_def set_fclient_def
  Let_def both_def ff_def pair_todo_def server_todo_def client_todo_def

lemma server_in_rendezvous:
  assumes "answer_of q = Some v"
  shows "list_all (\<lambda>s. case fserver_next True s of None \<Rightarrow> True
    | Some t \<Rightarrow> t \<in> set (rendezvous q v) \<and> pair_todo t < pair_todo s) (rendezvous q v)"
  using assms by (simp add: rendezvous_def pair_eval answer_of_def)

lemma client_in_rendezvous:
  "list_all (\<lambda>s. case fclient_next (\<lambda>_. q) 0 True s of None \<Rightarrow> True
    | Some t \<Rightarrow> t \<in> set (rendezvous q v) \<and> pair_todo t < pair_todo s) (rendezvous q v)"
  by (simp add: rendezvous_def pair_eval)

definition served :: "rat \<Rightarrow> fifo_state \<Rightarrow> bool" where
  "served v s \<longleftrightarrow> f_client s 0 = C_Exit (Some v) 0 \<and> f_server s = S_WaitReq 1"

lemma stuck_in_rendezvous:
  assumes "answer_of q = Some v"
  shows "list_all (\<lambda>s. fserver_next True s = None \<and> fclient_next (\<lambda>_. q) 0 True s = None \<longrightarrow> served v s) (rendezvous q v)"
  using assms by (simp add: rendezvous_def pair_eval answer_of_def served_def)

lemma client_of_want: "fclient_next want 0 ok s = fclient_next (\<lambda>_. want 0) 0 ok s"
  by (simp add: fclient_next_def)

definition meeting :: "(nat \<Rightarrow> interval) \<Rightarrow> rat \<Rightarrow> fifo_state \<Rightarrow> bool" where
  "meeting want v s \<longleftrightarrow> answer_of (want 0) = Some v \<and> s \<in> set (rendezvous (want 0) v)"

lemma meeting_step:
  assumes "meeting want v s" "fifo_pair want b s = Some t"
  shows "meeting want v t \<and> pair_todo t < pair_todo s"
proof -
  have s: "answer_of (want 0) = Some v" "s \<in> set (rendezvous (want 0) v)" using assms(1) by (simp_all add: meeting_def)
  have c: "fclient_next (\<lambda>_. want 0) 0 True s = Some t" if "\<not> b"
    using assms(2) that client_of_want [of want True s] by (simp add: fifo_pair_def fifo_next_def)
  have "t \<in> set (rendezvous (want 0) v) \<and> pair_todo t < pair_todo s"
  proof (cases b)
    case True
    with assms(2) have "fserver_next True s = Some t" by (simp add: fifo_pair_def fifo_next_def)
    with server_in_rendezvous [OF s(1)] s(2) show ?thesis by (auto simp: list_all_iff split: option.splits)
  next
    case False
    with c client_in_rendezvous [of "want 0" v] s(2) show ?thesis by (auto simp: list_all_iff split: option.splits)
  qed
  with s(1) show ?thesis by (simp add: meeting_def)
qed

lemma meeting_stuck:
  assumes "meeting want v s" "\<And>b. fifo_pair want b s = None"
  shows "served v s"
proof -
  have "fserver_next True s = None" "fclient_next (\<lambda>_. want 0) 0 True s = None"
    using assms(2) [of True] assms(2) [of False] client_of_want [of want True s] by (simp_all add: fifo_pair_def fifo_next_def)
  with stuck_in_rendezvous [of "want 0" v] assms(1) show ?thesis by (auto simp: meeting_def list_all_iff)
qed

interpretation pair: ending_machine "fifo_pair want" "meeting want v" pair_todo "served v" for want v
proof unfold_locales
  fix s t b assume "meeting want v s" "fifo_pair want b s = Some t"
  from meeting_step [OF this] show "meeting want v t" "pair_todo t < pair_todo s" by simp_all
qed (rule meeting_stuck)

lemma start_meets: "fifo_init True = both S_SigInt C_Input (ff {} {} 0 0 []) (ff {} {} 0 0 [])"
  by (simp add: fifo_init_def both_def ff_def no_fifo_def fun_upd_idem)

text \<open>
  C20. One client is always served: if the loop of the integral returns \<open>v\<close>, then, in every order of
  the client and the server and with no failed call, both together make at most 24 steps, and
  they stop only when the client has printed \<open>v\<close> and ended and the server waits for the next
  request.  The two blocking \<open>open\<close>s on either side never deadlock.
\<close>

theorem fifo_single_client_served:
  assumes "rectangular_integration (iv_start (want 0)) (iv_end (want 0)) (iv_dx (want 0)) = Some v"
    and "run_acts (fifo_pair want) as (fifo_init True) = Some s"
  shows "length as \<le> 24 \<and> ((\<forall>b. fifo_pair want b s = None) \<longrightarrow>
    f_client s 0 = C_Exit (Some v) 0 \<and> f_server s = S_WaitReq 1)"
proof -
  have start: "meeting want v (fifo_init True)"
    using assms(1) by (simp add: meeting_def answer_of_def start_meets rendezvous_def)
  have "pair_todo (fifo_init True) = 24"
    by (simp add: pair_todo_def server_todo_def client_todo_def fifo_init_def)
  with pair.run_length [OF assms(2) start] have "length as \<le> 24" by simp
  with pair.stuck_over [OF pair.run_ok [OF assms(2) start]] show ?thesis by (auto simp: served_def)
qed

text \<open>The client first, up to its wait for the server.\<close>

definition client_first :: "bool list" where
  "client_first = [False, False] @ replicate 5 True @ [False, False, True, False, False] @ replicate 4 True
     @ [False, True, False, False, True]"

lemma client_first_result:
  "map_option (\<lambda>s. (f_client s 0, f_server s)) (run_acts (fifo_pair two_wants) client_first (fifo_init True))
     = Some (C_Exit (Some 4) 0, S_WaitReq 1)"
  by code_simp

theorem fifo_single_client_served_witness:
  "\<exists>s. run_acts (fifo_pair two_wants) client_first (fifo_init True) = Some s
     \<and> f_client s 0 = C_Exit (Some 4) 0 \<and> length client_first \<le> 24"
proof -
  have u: "rectangular_integration (iv_start (two_wants 0)) (iv_end (two_wants 0)) (iv_dx (two_wants 0)) = Some 4"
    using unit_integral by (simp add: two_wants_def)
  obtain s where s: "run_acts (fifo_pair two_wants) client_first (fifo_init True) = Some s" "f_client s 0 = C_Exit (Some 4) 0"
    using client_first_result by auto
  from fifo_single_client_served [OF u s(1)] s show ?thesis by blast
qed

end
