(* ===== verification/Lab4.thy ===== *)
theory Lab4
  imports CLib
begin

text \<open>
  lab4: the chat over POSIX message queues.  A queue holds at most ten messages; a send to
  a full queue and a receive from an empty one wait.  The server registers clients and
  forwards each text to all others; each client opens its own queue, announces its name,
  waits for its number, then sends lines and shows what it receives.  Server and clients
  are interleaved by actions, and a signal may end any of them.
\<close>

section \<open>Messages and the state of the system\<close>

definition MAX_CLIENTS :: nat where "MAX_CLIENTS = 10"
definition MAX_TEXT :: nat where "MAX_TEXT = 256"
definition MAX_Q_NAME :: nat where "MAX_Q_NAME = 64"
definition MAX_MSG :: nat where "MAX_MSG = 10"

definition SERVER_QUEUE_NAME :: "char list" where "SERVER_QUEUE_NAME = ''/chat_server_q''"

datatype message_type = MSG_INIT | MSG_ID_ASSIGN | MSG_TEXT

record chat_message =
  m_type :: message_type
  m_client_id :: int
  m_queue_name :: "char list"
  m_text :: "char list"

definition zero_message :: chat_message where
  "zero_message = \<lparr>m_type = MSG_INIT, m_client_id = 0, m_queue_name = replicate MAX_Q_NAME NUL,
     m_text = replicate MAX_TEXT NUL\<rparr>"

datatype chat_srv_pc = VReceive | VInit chat_message | VReply nat nat | VForward chat_message nat | VExit

datatype cl_pc = XStart | XOpenServer | XSendInit | XWaitReply | XRun | XExit

record client =
  pid :: nat
  x_pc :: cl_pc
  x_queue :: "nat option"
  my_id :: int
  out_text :: "char list"
  shown :: "(int \<times> char list) list"

record chat =
  names :: "char list \<rightharpoonup> nat"
  msgs :: "nat \<Rightarrow> chat_message list"
  next_q :: nat
  active_clients :: nat
  client_queues :: "nat option list"
  v_pc :: chat_srv_pc
  clients :: "client list"

text \<open>\<open>mq_send\<close>: \<open>None\<close> while the queue is full.\<close>

definition mq_send :: "nat \<Rightarrow> chat_message \<Rightarrow> chat \<Rightarrow> chat option" where
  "mq_send q m s = (if length (msgs s q) < MAX_MSG then Some (s\<lparr>msgs := (msgs s)(q := msgs s q @ [m])\<rparr>) else None)"

section \<open>The server\<close>

text \<open>The state when the server waits for its first message; its own queue is number 0.\<close>

definition chat_start :: "client list \<Rightarrow> chat" where
  "chat_start cs = \<lparr>names = [SERVER_QUEUE_NAME \<mapsto> 0], msgs = (\<lambda>_. []), next_q = 1, active_clients = 0,
     client_queues = replicate MAX_CLIENTS None, v_pc = VReceive, clients = cs\<rparr>"

definition id_reply :: "nat \<Rightarrow> chat_message" where
  "id_reply new_id = zero_message\<lparr>m_type := MSG_ID_ASSIGN, m_client_id := int new_id\<rparr>"

text \<open>One step of the server's loop; \<open>refused\<close>: \<open>mq_open\<close> of the client's queue fails.\<close>

definition server_next :: "bool \<Rightarrow> chat \<Rightarrow> chat option" where
  "server_next refused s = (case v_pc s of
     VReceive \<Rightarrow> (case msgs s 0 of [] \<Rightarrow> None
       | m # ms \<Rightarrow> Some (s\<lparr>msgs := (msgs s)(0 := ms),
           v_pc := (case m_type m of MSG_INIT \<Rightarrow> VInit m | MSG_TEXT \<Rightarrow> VForward m 0 | MSG_ID_ASSIGN \<Rightarrow> VReceive)\<rparr>))
   | VInit m \<Rightarrow>
       if active_clients s < MAX_CLIENTS then
         (case (if refused then None else names s (cstr (m_queue_name m))) of
            Some client_q \<Rightarrow> Some (s\<lparr>client_queues := (client_queues s)[active_clients s := Some client_q],
                active_clients := active_clients s + 1, v_pc := VReply client_q (active_clients s)\<rparr>)
          | None \<Rightarrow> Some (s\<lparr>v_pc := VReceive\<rparr>))
       else Some (s\<lparr>v_pc := VReceive\<rparr>)
   | VReply client_q new_id \<Rightarrow> map_option (\<lambda>t. t\<lparr>v_pc := VReceive\<rparr>) (mq_send client_q (id_reply new_id) s)
   | VForward m i \<Rightarrow>
       if i < active_clients s then
         (case client_queues s ! i of
            Some client_q \<Rightarrow>
              if int i \<noteq> m_client_id m then map_option (\<lambda>t. t\<lparr>v_pc := VForward m (i + 1)\<rparr>) (mq_send client_q m s)
              else Some (s\<lparr>v_pc := VForward m (i + 1)\<rparr>)
          | None \<Rightarrow> Some (s\<lparr>v_pc := VForward m (i + 1)\<rparr>))
       else Some (s\<lparr>v_pc := VReceive\<rparr>)
   | VExit \<Rightarrow> None)"

text \<open>The server's signal handler.\<close>

definition server_cleanup :: "chat \<Rightarrow> chat" where
  "server_cleanup s = s\<lparr>names := (names s)(SERVER_QUEUE_NAME := None), v_pc := VExit\<rparr>"

section \<open>The clients\<close>

definition client_q_name :: "client \<Rightarrow> char list" where
  "client_q_name c = cstr (fst (c_snprintf MAX_Q_NAME (''/chat_client_'' @ show_nat (pid c))))"

definition init_message :: "client \<Rightarrow> chat_message" where
  "init_message c = zero_message\<lparr>m_type := MSG_INIT,
     m_queue_name := c_strncpy (replicate MAX_Q_NAME NUL) (client_q_name c) MAX_Q_NAME\<rparr>"

definition set_client :: "nat \<Rightarrow> client \<Rightarrow> chat \<Rightarrow> chat" where
  "set_client i c s = s\<lparr>clients := (clients s)[i := c]\<rparr>"

text \<open>\<open>cleanup_handler\<close>: the queue's name is removed and the program ends.\<close>

definition client_cleanup :: "nat \<Rightarrow> client \<Rightarrow> chat \<Rightarrow> chat" where
  "client_cleanup i c s = set_client i (c\<lparr>x_pc := XExit\<rparr>) (s\<lparr>names := (names s)(client_q_name c := None)\<rparr>)"

text \<open>A statement of client \<open>i\<close> up to the fork; \<open>refused\<close>: its system call fails.\<close>

definition client_next :: "bool \<Rightarrow> nat \<Rightarrow> chat \<Rightarrow> chat option" where
  "client_next refused i s = (let c = clients s ! i in case x_pc c of
     XStart \<Rightarrow>
       if refused then Some (set_client i (c\<lparr>x_pc := XExit\<rparr>) s)
       else (case names s (client_q_name c) of
               Some q \<Rightarrow> Some (set_client i (c\<lparr>x_pc := XOpenServer, x_queue := Some q\<rparr>) s)
             | None \<Rightarrow> Some (set_client i (c\<lparr>x_pc := XOpenServer, x_queue := Some (next_q s)\<rparr>)
                 (s\<lparr>names := (names s)(client_q_name c \<mapsto> next_q s), next_q := next_q s + 1\<rparr>)))
   | XOpenServer \<Rightarrow>
       if refused \<or> names s SERVER_QUEUE_NAME = None then Some (client_cleanup i c s)
       else Some (set_client i (c\<lparr>x_pc := XSendInit\<rparr>) s)
   | XSendInit \<Rightarrow>
       if refused then Some (client_cleanup i c s)
       else map_option (set_client i (c\<lparr>x_pc := XWaitReply\<rparr>)) (mq_send 0 (init_message c) s)
   | XWaitReply \<Rightarrow>
       if refused then Some (client_cleanup i c s)
       else (case x_queue c of None \<Rightarrow> None | Some q \<Rightarrow> (case msgs s q of [] \<Rightarrow> None
             | m # ms \<Rightarrow> (let s' = s\<lparr>msgs := (msgs s)(q := ms)\<rparr>
                         in if m_type m = MSG_ID_ASSIGN
                            then Some (set_client i (c\<lparr>my_id := m_client_id m, out_text := replicate MAX_TEXT NUL, x_pc := XRun\<rparr>) s')
                            else Some (client_cleanup i c s'))))
   | XRun \<Rightarrow> None
   | XExit \<Rightarrow> None)"

text \<open>
  The sender's loop: a line read by \<open>fgets\<close> into the one buffer of the outgoing message,
  whose end keeps what was there (\<open>None\<close> at the end of the input); an empty line is not
  sent.  The receiver's loop: the next message, shown when it is a text.
\<close>

definition text_message :: "client \<Rightarrow> chat_message" where
  "text_message c = zero_message\<lparr>m_type := MSG_TEXT, m_client_id := my_id c, m_text := out_text c\<rparr>"

definition sender_next :: "char list option \<Rightarrow> nat \<Rightarrow> chat \<Rightarrow> chat option" where
  "sender_next input i s = (if x_pc (clients s ! i) \<noteq> XRun then None else case input of
     None \<Rightarrow> Some s
   | Some line \<Rightarrow>
       if length line \<ge> MAX_TEXT then None
       else (let c = (clients s ! i)\<lparr>out_text := line @ [NUL] @ drop (length line + 1) (out_text (clients s ! i))\<rparr>
             in if c_strcmp_eq (out_text c) [CHR 0x0A] then Some (set_client i c s)
                else map_option (set_client i c) (mq_send 0 (text_message c) s)))"

definition receiver_next :: "nat \<Rightarrow> chat \<Rightarrow> chat option" where
  "receiver_next i s = (let c = clients s ! i in if x_pc c \<noteq> XRun then None else
     (case x_queue c of None \<Rightarrow> None | Some q \<Rightarrow> (case msgs s q of [] \<Rightarrow> None
      | m # ms \<Rightarrow> Some (set_client i
          (if m_type m = MSG_TEXT then c\<lparr>shown := shown c @ [(m_client_id m, cstr (m_text m))]\<rparr> else c)
          (s\<lparr>msgs := (msgs s)(q := ms)\<rparr>)))))"

section \<open>The system\<close>

datatype chat_act = Server bool | KillServer | Client bool nat | Line "char list option" nat | Receive nat | KillClient nat

definition chat_step :: "chat_act \<Rightarrow> chat \<Rightarrow> chat option" where
  "chat_step a s = (case a of
     Server refused \<Rightarrow> server_next refused s
   | KillServer \<Rightarrow> (if v_pc s = VExit then None else Some (server_cleanup s))
   | Client refused i \<Rightarrow> (if i < length (clients s) then client_next refused i s else None)
   | Line input i \<Rightarrow> (if i < length (clients s) then sender_next input i s else None)
   | Receive i \<Rightarrow> (if i < length (clients s) then receiver_next i s else None)
   | KillClient i \<Rightarrow>
       if i < length (clients s) \<and> x_pc (clients s ! i) \<notin> {XStart, XExit}
       then Some (client_cleanup i (clients s ! i) s) else None)"

inductive chat_reach :: "chat \<Rightarrow> chat \<Rightarrow> bool" for s0 where
  start: "chat_reach s0 s0"
| step: "chat_reach s0 s \<Longrightarrow> chat_step a s = Some t \<Longrightarrow> chat_reach s0 t"

abbreviation chat_run :: "chat_act list \<Rightarrow> chat \<Rightarrow> chat option" where
  "chat_run \<equiv> run_acts chat_step"

lemma chat_run_from: "chat_reach s0 s \<Longrightarrow> chat_run as s = Some t \<Longrightarrow> chat_reach s0 t"
  by (induction as arbitrary: s) (auto split: option.splits intro: chat_reach.step)

lemma chat_run_reach: "chat_run as s = Some t \<Longrightarrow> chat_reach s t"
  by (rule chat_run_from [OF chat_reach.start])

lemma chat_reach_trans: "chat_reach s t \<Longrightarrow> chat_reach s0 s \<Longrightarrow> chat_reach s0 t"
  by (induction rule: chat_reach.induct) (auto intro: chat_reach.step)

text \<open>A client before its first statement.\<close>

definition fresh_clients :: "client list \<Rightarrow> bool" where
  "fresh_clients cs \<longleftrightarrow> distinct (map pid cs) \<and>
     (\<forall>c \<in> set cs. x_pc c = XStart \<and> x_queue c = None \<and> shown c = [] \<and> pid c < 2 ^ 31)"

section \<open>The steps as cases\<close>

lemma mq_send_Some: "mq_send q m s = Some t \<longleftrightarrow>
    length (msgs s q) < MAX_MSG \<and> t = s\<lparr>msgs := (msgs s)(q := msgs s q @ [m])\<rparr>"
  by (auto simp: mq_send_def)

inductive_cases chat_reachE: "chat_reach s0 s"

lemma chat_step_cases:
  assumes "chat_step a s = Some t"
  obtains (Take) m ms where "v_pc s = VReceive" "msgs s 0 = m # ms"
      "t = s\<lparr>msgs := (msgs s)(0 := ms), v_pc := (case m_type m of MSG_INIT \<Rightarrow> VInit m
              | MSG_TEXT \<Rightarrow> VForward m 0 | MSG_ID_ASSIGN \<Rightarrow> VReceive)\<rparr>"
    | (Register) m q where "v_pc s = VInit m" "active_clients s < MAX_CLIENTS"
      "names s (cstr (m_queue_name m)) = Some q"
      "t = s\<lparr>client_queues := (client_queues s)[active_clients s := Some q],
             active_clients := active_clients s + 1, v_pc := VReply q (active_clients s)\<rparr>"
    | (Ready) "(\<exists>m. v_pc s = VInit m) \<or> (\<exists>m i. v_pc s = VForward m i \<and> active_clients s \<le> i)" "t = s\<lparr>v_pc := VReceive\<rparr>"
    | (Reply) q k where "v_pc s = VReply q k" "length (msgs s q) < MAX_MSG"
      "t = s\<lparr>msgs := (msgs s)(q := msgs s q @ [id_reply k]), v_pc := VReceive\<rparr>"
    | (Forward) m i q where "v_pc s = VForward m i" "i < active_clients s" "client_queues s ! i = Some q"
      "int i \<noteq> m_client_id m" "length (msgs s q) < MAX_MSG"
      "t = s\<lparr>msgs := (msgs s)(q := msgs s q @ [m]), v_pc := VForward m (i + 1)\<rparr>"
    | (Pass) m i where "v_pc s = VForward m i" "i < active_clients s"
      "client_queues s ! i = None \<or> int i = m_client_id m" "t = s\<lparr>v_pc := VForward m (i + 1)\<rparr>"
    | (ServerEnd) "t = server_cleanup s"
    | (Fail) i where "i < length (clients s)" "x_pc (clients s ! i) = XStart"
      "t = set_client i ((clients s ! i)\<lparr>x_pc := XExit\<rparr>) s"
    | (Open) i where "i < length (clients s)" "x_pc (clients s ! i) = XStart"
      "names s (client_q_name (clients s ! i)) = None"
      "t = set_client i ((clients s ! i)\<lparr>x_pc := XOpenServer, x_queue := Some (next_q s)\<rparr>)
             (s\<lparr>names := (names s)(client_q_name (clients s ! i) \<mapsto> next_q s), next_q := next_q s + 1\<rparr>)"
    | (OpenOld) i q where "i < length (clients s)" "x_pc (clients s ! i) = XStart"
      "names s (client_q_name (clients s ! i)) = Some q"
      "t = set_client i ((clients s ! i)\<lparr>x_pc := XOpenServer, x_queue := Some q\<rparr>) s"
    | (Cleanup) i where "i < length (clients s)" "x_pc (clients s ! i) \<notin> {XStart, XExit}"
      "t = client_cleanup i (clients s ! i) s"
    | (Found) i where "i < length (clients s)" "x_pc (clients s ! i) = XOpenServer"
      "t = set_client i ((clients s ! i)\<lparr>x_pc := XSendInit\<rparr>) s"
    | (Init) i where "i < length (clients s)" "x_pc (clients s ! i) = XSendInit" "length (msgs s 0) < MAX_MSG"
      "t = set_client i ((clients s ! i)\<lparr>x_pc := XWaitReply\<rparr>)
             (s\<lparr>msgs := (msgs s)(0 := msgs s 0 @ [init_message (clients s ! i)])\<rparr>)"
    | (Assigned) i q m ms where "i < length (clients s)" "x_pc (clients s ! i) = XWaitReply"
      "x_queue (clients s ! i) = Some q" "msgs s q = m # ms" "m_type m = MSG_ID_ASSIGN"
      "t = set_client i ((clients s ! i)\<lparr>my_id := m_client_id m, out_text := replicate MAX_TEXT NUL, x_pc := XRun\<rparr>) (s\<lparr>msgs := (msgs s)(q := ms)\<rparr>)"
    | (Wrong) i q m ms where "i < length (clients s)" "x_pc (clients s ! i) = XWaitReply"
      "x_queue (clients s ! i) = Some q" "msgs s q = m # ms" "m_type m \<noteq> MSG_ID_ASSIGN"
      "t = client_cleanup i (clients s ! i) (s\<lparr>msgs := (msgs s)(q := ms)\<rparr>)"
    | (Idle) "t = s"
    | (Typed) i b where "i < length (clients s)" "x_pc (clients s ! i) = XRun"
      "t = set_client i ((clients s ! i)\<lparr>out_text := b\<rparr>) s"
    | (Say) i b where "i < length (clients s)" "x_pc (clients s ! i) = XRun" "length (msgs s 0) < MAX_MSG"
      "t = set_client i ((clients s ! i)\<lparr>out_text := b\<rparr>)
             (s\<lparr>msgs := (msgs s)(0 := msgs s 0 @ [text_message ((clients s ! i)\<lparr>out_text := b\<rparr>)])\<rparr>)"
    | (Show) i q m ms where "i < length (clients s)" "x_pc (clients s ! i) = XRun"
      "x_queue (clients s ! i) = Some q" "msgs s q = m # ms"
      "t = set_client i (if m_type m = MSG_TEXT
             then (clients s ! i)\<lparr>shown := shown (clients s ! i) @ [(m_client_id m, cstr (m_text m))]\<rparr>
             else clients s ! i) (s\<lparr>msgs := (msgs s)(q := ms)\<rparr>)"
proof (cases a)
  case (Server refused)
  with assms have st: "server_next refused s = Some t" by (simp add: chat_step_def)
  show thesis
  proof (cases "v_pc s")
    case VReceive
    with st show thesis by (cases "msgs s 0") (auto simp: server_next_def intro: that(1))
  next
    case (VInit m)
    then have "t = s\<lparr>v_pc := VReceive\<rparr> \<or> (\<exists>q. active_clients s < MAX_CLIENTS \<and>
        names s (cstr (m_queue_name m)) = Some q \<and>
        t = s\<lparr>client_queues := (client_queues s)[active_clients s := Some q],
             active_clients := active_clients s + 1, v_pc := VReply q (active_clients s)\<rparr>)"
      using st by (auto simp: server_next_def split: if_splits option.splits)
    with VInit that(2,3) show thesis by blast
  next
    case (VReply q k)
    with st have "length (msgs s q) < MAX_MSG"
      "t = s\<lparr>msgs := (msgs s)(q := msgs s q @ [id_reply k]), v_pc := VReceive\<rparr>"
      by (auto simp: server_next_def mq_send_Some)
    with VReply that(4) show thesis by blast
  next
    case (VForward m i)
    then have "active_clients s \<le> i \<and> t = s\<lparr>v_pc := VReceive\<rparr> \<or>
        i < active_clients s \<and> (client_queues s ! i = None \<or> int i = m_client_id m) \<and> t = s\<lparr>v_pc := VForward m (i + 1)\<rparr> \<or>
        (\<exists>q. i < active_clients s \<and> client_queues s ! i = Some q \<and> int i \<noteq> m_client_id m \<and>
           length (msgs s q) < MAX_MSG \<and> t = s\<lparr>msgs := (msgs s)(q := msgs s q @ [m]), v_pc := VForward m (i + 1)\<rparr>)"
      using st by (auto simp: server_next_def mq_send_Some split: if_splits option.splits)
    with VForward that(3,5,6) show thesis by blast
  next
    case VExit
    with st show thesis by (simp add: server_next_def)
  qed
next
  case KillServer
  with assms that(7) show thesis by (auto simp: chat_step_def split: if_splits)
next
  case (Client refused i)
  with assms have i: "i < length (clients s)" "client_next refused i s = Some t"
    by (auto simp: chat_step_def split: if_splits)
  let ?c = "clients s ! i"
  show thesis
  proof (cases "x_pc ?c")
    case XStart
    with i that(8) [OF i(1) XStart] that(9) [OF i(1) XStart] that(10) [OF i(1) XStart] show thesis
      by (auto simp: client_next_def Let_def split: if_splits option.splits)
  next
    case XOpenServer
    with i that(11) [OF i(1)] that(12) [OF i(1) XOpenServer] show thesis
      by (auto simp: client_next_def Let_def split: if_splits)
  next
    case XSendInit
    with i that(11) [OF i(1)] that(13) [OF i(1) XSendInit] show thesis
      by (auto simp: client_next_def mq_send_Some Let_def split: if_splits)
  next
    case XWaitReply
    with i that(11) [OF i(1)] that(14) [OF i(1) XWaitReply] that(15) [OF i(1) XWaitReply] show thesis
      by (auto simp: client_next_def Let_def split: if_splits option.splits list.splits)
  qed (use i in \<open>simp_all add: client_next_def Let_def\<close>)
next
  case (Line input i)
  then have i: "i < length (clients s)" and l: "sender_next input i s = Some t"
    using assms by (auto simp: chat_step_def split: if_splits)
  then have x: "x_pc (clients s ! i) = XRun" by (auto simp: sender_next_def split: if_splits)
  have "t = s \<or> (\<exists>b. t = set_client i ((clients s ! i)\<lparr>out_text := b\<rparr>) s \<or> length (msgs s 0) < MAX_MSG \<and>
      t = set_client i ((clients s ! i)\<lparr>out_text := b\<rparr>)
             (s\<lparr>msgs := (msgs s)(0 := msgs s 0 @ [text_message ((clients s ! i)\<lparr>out_text := b\<rparr>)])\<rparr>))"
    using l x by (auto simp: sender_next_def mq_send_Some Let_def split: if_splits option.splits)
  with that(16,17,18) i x show thesis by blast
next
  case (Receive i)
  then have i: "i < length (clients s)" and r: "receiver_next i s = Some t"
    using assms by (auto simp: chat_step_def split: if_splits)
  then have x: "x_pc (clients s ! i) = XRun" by (auto simp: receiver_next_def Let_def split: if_splits)
  with r obtain q where q: "x_queue (clients s ! i) = Some q"
    by (cases "x_queue (clients s ! i)") (auto simp: receiver_next_def Let_def)
  with r x obtain m ms where m: "msgs s q = m # ms"
    by (cases "msgs s q") (auto simp: receiver_next_def Let_def)
  show thesis by (rule that(19) [OF i x q m]) (use r x q m in \<open>simp add: receiver_next_def Let_def\<close>)
next
  case (KillClient i)
  with assms that(11) [of i] show thesis by (auto simp: chat_step_def split: if_splits)
qed

end
