(* ===== verification/Lab4Chat.thy ===== *)
theory Lab4Chat
  imports Lab4
begin

text \<open>
  Invariants and properties of the chat of lab4: names and queues, the registry of the
  server, at most one announcement per client, and what is in the queues.  Each group is
  a definition of its own with the lemma that every step preserves it.
\<close>

section \<open>Names of the clients' queues\<close>

lemma client_q_name_pid [simp]:
  "client_q_name (c\<lparr>x_pc := a\<rparr>) = client_q_name c" "client_q_name (c\<lparr>x_queue := b\<rparr>) = client_q_name c"
  "client_q_name (c\<lparr>out_text := t\<rparr>) = client_q_name c"
  "client_q_name (c\<lparr>my_id := d\<rparr>) = client_q_name c" "client_q_name (c\<lparr>shown := e\<rparr>) = client_q_name c"
  by (simp_all add: client_q_name_def)

lemma client_q_name_eq:
  assumes "pid c < 2 ^ 31"
  shows "client_q_name c = ''/chat_client_'' @ show_nat (pid c)"
proof -
  have "length (show_nat (pid c)) \<le> 10" using assms by (intro show_nat_length_int) simp
  then have "c_snprintf MAX_Q_NAME (''/chat_client_'' @ show_nat (pid c)) =
      ((''/chat_client_'' @ show_nat (pid c)) @ [NUL], int (length (''/chat_client_'' @ show_nat (pid c))))"
    by (intro c_snprintf_fits) (auto simp: MAX_Q_NAME_def)
  then show ?thesis
    using cstr_append_NUL [of "''/chat_client_'' @ show_nat (pid c)" "[]"] by (simp add: client_q_name_def)
qed

lemma init_message_name:
  assumes "pid c < 2 ^ 31"
  shows "cstr (m_queue_name (init_message c)) = client_q_name c"
proof -
  have "length (show_nat (pid c)) \<le> 10" using assms by (intro show_nat_length_int) simp
  then have "c_strlen (client_q_name c) < MAX_Q_NAME"
    using cstr_id [of "''/chat_client_'' @ show_nat (pid c)"]
    by (simp add: client_q_name_eq [OF assms] c_strlen_def MAX_Q_NAME_def)
  then have "cstr (m_queue_name (init_message c)) = cstr (client_q_name c)"
    by (simp add: init_message_def c_strncpy_cstr)
  also have "\<dots> = client_q_name c" by (simp add: client_q_name_def cstr_id)
  finally show ?thesis .
qed

definition static_ok :: "client list \<Rightarrow> bool" where
  "static_ok cs \<longleftrightarrow> distinct (map pid cs) \<and> (\<forall>p \<in> set (map pid cs). p < 2 ^ 31)"

lemma static_names:
  assumes "static_ok cs" "i < length cs"
  shows "client_q_name (cs ! i) \<noteq> SERVER_QUEUE_NAME"
    and "j < length cs \<Longrightarrow> client_q_name (cs ! i) = client_q_name (cs ! j) \<longleftrightarrow> i = j"
    and "cstr (m_queue_name (init_message (cs ! i))) = client_q_name (cs ! i)"
proof -
  have p: "pid (cs ! k) < 2 ^ 31" if "k < length cs" for k using assms(1) that by (simp add: static_ok_def)
  note n = client_q_name_eq [OF p]
  show "client_q_name (cs ! i) \<noteq> SERVER_QUEUE_NAME"
    by (simp add: n [OF assms(2)] SERVER_QUEUE_NAME_def)
  show "client_q_name (cs ! i) = client_q_name (cs ! j) \<longleftrightarrow> i = j" if "j < length cs"
  proof
    assume "client_q_name (cs ! i) = client_q_name (cs ! j)"
    then have "show_nat (pid (cs ! i)) = show_nat (pid (cs ! j))" by (simp add: n assms(2) that)
    then have "pid (cs ! i) = pid (cs ! j)" by (metis read_show_nat)
    with assms that show "i = j" by (simp add: static_ok_def distinct_conv_nth) metis
  qed simp
  show "cstr (m_queue_name (init_message (cs ! i))) = client_q_name (cs ! i)"
    by (rule init_message_name [OF p [OF assms(2)]])
qed

lemma set_client_simps [simp]:
  "names (set_client i c s) = names s" "msgs (set_client i c s) = msgs s" "next_q (set_client i c s) = next_q s"
  "active_clients (set_client i c s) = active_clients s" "client_queues (set_client i c s) = client_queues s"
  "v_pc (set_client i c s) = v_pc s" "clients (set_client i c s) = (clients s)[i := c]"
  by (simp_all add: set_client_def)

lemma chat_step_pids: "chat_step a s = Some t \<Longrightarrow> map pid (clients t) = map pid (clients s)"
  by (erule chat_step_cases)
    (auto simp: client_cleanup_def server_cleanup_def map_update_same split: if_splits)

lemma static_step: "chat_step a s = Some t \<Longrightarrow> static_ok (clients s) \<Longrightarrow> static_ok (clients t)"
  by (drule chat_step_pids) (simp add: static_ok_def)

section \<open>Names and queues\<close>

definition queues_ok :: "chat \<Rightarrow> bool" where
  "queues_ok s \<longleftrightarrow> 0 < next_q s \<and>
     (\<forall>q. names s SERVER_QUEUE_NAME = Some q \<longrightarrow> q = 0) \<and>
     (\<forall>n q. names s n = Some q \<longrightarrow> n = SERVER_QUEUE_NAME \<or>
        (\<exists>i < length (clients s). n = client_q_name (clients s ! i) \<and> x_queue (clients s ! i) = Some q)) \<and>
     (\<forall>i < length (clients s). x_pc (clients s ! i) = XStart \<longrightarrow> x_queue (clients s ! i) = None) \<and>
     (\<forall>i < length (clients s). x_pc (clients s ! i) \<notin> {XStart, XExit} \<longrightarrow> x_queue (clients s ! i) \<noteq> None) \<and>
     (\<forall>i < length (clients s). \<forall>q. x_queue (clients s ! i) = Some q \<longrightarrow> 0 < q \<and> q < next_q s) \<and>
     (\<forall>i < length (clients s). \<forall>j < length (clients s). \<forall>q.
        x_queue (clients s ! i) = Some q \<and> x_queue (clients s ! j) = Some q \<longrightarrow> i = j)"

lemma queues_step_client:
  assumes q: "queues_ok s" and i: "i < length (clients s)"
    and c: "client_q_name c = client_q_name (clients s ! i)" "x_queue c = x_queue (clients s ! i)"
      "x_pc c = XStart \<Longrightarrow> x_pc (clients s ! i) = XStart"
      "x_pc c \<notin> {XStart, XExit} \<Longrightarrow> x_pc (clients s ! i) \<notin> {XStart, XExit}"
    and n: "\<And>k. names t k = names s k \<or> names t k = None" and nx: "next_q t = next_q s"
    and cl: "clients t = (clients s)[i := c]"
  shows "queues_ok t"
proof -
  have len: "length (clients t) = length (clients s)" by (simp add: cl)
  have nm: "client_q_name (clients t ! j) = client_q_name (clients s ! j)"
    and xq: "x_queue (clients t ! j) = x_queue (clients s ! j)" if "j < length (clients s)" for j
    using that c(1,2) i by (auto simp: cl nth_list_update)
  have st: "x_pc (clients t ! j) = XStart \<Longrightarrow> x_pc (clients s ! j) = XStart"
    and run: "x_pc (clients t ! j) \<notin> {XStart, XExit} \<Longrightarrow> x_pc (clients s ! j) \<notin> {XStart, XExit}"
    if "j < length (clients s)" for j
    using that c(3,4) i by (auto simp: cl nth_list_update split: if_splits)
  have ns: "names t k = Some q' \<Longrightarrow> names s k = Some q'" for k q' using n [of k] by auto
  note qs = q [unfolded queues_ok_def]
  have named: "\<exists>j < length (clients s). k = client_q_name (clients t ! j) \<and> x_queue (clients t ! j) = Some q'"
    if "names t k = Some q'" and "k \<noteq> SERVER_QUEUE_NAME" for k q'
  proof -
    have "names s k = Some q'" by (rule ns) (rule that(1))
    then obtain j where "j < length (clients s)" "k = client_q_name (clients s ! j)" "x_queue (clients s ! j) = Some q'"
      using qs \<open>k \<noteq> SERVER_QUEUE_NAME\<close> by blast
    then show ?thesis using nm xq by metis
  qed
  show ?thesis
    unfolding queues_ok_def len nx
  proof (intro conjI)
    show "\<forall>q. names t SERVER_QUEUE_NAME = Some q \<longrightarrow> q = 0" using qs ns by blast
    show "\<forall>n q. names t n = Some q \<longrightarrow> n = SERVER_QUEUE_NAME \<or>
        (\<exists>i<length (clients s). n = client_q_name (clients t ! i) \<and> x_queue (clients t ! i) = Some q)"
      using named by blast
    show "\<forall>j<length (clients s). x_pc (clients t ! j) = XStart \<longrightarrow> x_queue (clients t ! j) = None"
      using qs st xq by auto
    show "\<forall>j<length (clients s). x_pc (clients t ! j) \<notin> {XStart, XExit} \<longrightarrow> x_queue (clients t ! j) \<noteq> None"
      using qs run xq by auto
    show "\<forall>j<length (clients s). \<forall>q. x_queue (clients t ! j) = Some q \<longrightarrow> 0 < q \<and> q < next_q s"
      using qs xq by auto
    show "\<forall>j<length (clients s). \<forall>k<length (clients s). \<forall>q.
        x_queue (clients t ! j) = Some q \<and> x_queue (clients t ! k) = Some q \<longrightarrow> j = k"
      using qs xq by auto
  qed (use qs in simp)
qed

lemma queues_step:
  assumes "chat_step a s = Some t" "static_ok (clients s)" "queues_ok s"
  shows "queues_ok t"
  using assms(1)
proof (cases rule: chat_step_cases)
  case (Open i)
  let ?c = "clients s ! i" and ?q = "next_q s"
  note sn = static_names [OF assms(2) Open(1)]
  have q: "queues_ok s" by (rule assms(3))
  note qs = q [unfolded queues_ok_def]
  have t: "length (clients t) = length (clients s)" "next_q t = Suc ?q"
      "names t = (names s)(client_q_name ?c \<mapsto> ?q)" and cl: "clients t = (clients s)[i := ?c\<lparr>x_pc := XOpenServer, x_queue := Some ?q\<rparr>]"
    using Open(4) by simp_all
  have at: "client_q_name (clients t ! j) = client_q_name (clients s ! j)"
      "x_queue (clients t ! j) = (if j = i then Some ?q else x_queue (clients s ! j))"
      "x_pc (clients t ! j) = (if j = i then XOpenServer else x_pc (clients s ! j))"
    if "j < length (clients s)" for j using that Open(1) by (auto simp: cl nth_list_update)
  have new: "x_queue (clients s ! j) \<noteq> Some ?q" if "j < length (clients s)" for j
    using qs that by (metis less_irrefl)
  have named: "n = SERVER_QUEUE_NAME \<or> (\<exists>j < length (clients s). n = client_q_name (clients t ! j) \<and> x_queue (clients t ! j) = Some q)"
    if "names t n = Some q" for n q
  proof (cases "n = client_q_name ?c")
    case True
    with that have "q = ?q" by (simp add: t)
    with True at [OF Open(1)] Open(1) show ?thesis by auto
  next
    case False
    with that have "names s n = Some q" by (simp add: t)
    then consider "n = SERVER_QUEUE_NAME" | j where "j < length (clients s)" "n = client_q_name (clients s ! j)" "x_queue (clients s ! j) = Some q"
      using qs by blast
    then show ?thesis
    proof cases
      case (2 j)
      with False have "j \<noteq> i" by auto
      with 2 at [OF 2(1)] show ?thesis by auto
    qed simp
  qed
  show ?thesis
    unfolding queues_ok_def t(1,2)
  proof (intro conjI)
    show "\<forall>q. names t SERVER_QUEUE_NAME = Some q \<longrightarrow> q = 0" using qs sn(1) by (simp add: t)
    show "\<forall>n q. names t n = Some q \<longrightarrow> n = SERVER_QUEUE_NAME \<or>
        (\<exists>i<length (clients s). n = client_q_name (clients t ! i) \<and> x_queue (clients t ! i) = Some q)"
      using named by blast
    show "\<forall>j<length (clients s). x_pc (clients t ! j) = XStart \<longrightarrow> x_queue (clients t ! j) = None"
      using qs at by auto
    show "\<forall>j<length (clients s). x_pc (clients t ! j) \<notin> {XStart, XExit} \<longrightarrow> x_queue (clients t ! j) \<noteq> None"
      using qs at by auto
    show "\<forall>j<length (clients s). \<forall>q. x_queue (clients t ! j) = Some q \<longrightarrow> 0 < q \<and> q < Suc ?q"
      using qs at by (auto simp: less_Suc_eq split: if_splits)
    show "\<forall>j<length (clients s). \<forall>k<length (clients s). \<forall>q.
        x_queue (clients t ! j) = Some q \<and> x_queue (clients t ! k) = Some q \<longrightarrow> j = k"
      using qs at new by (metis (no_types, lifting))
  qed simp
next
  case (OpenOld i q)
  then have "False" using assms(2,3) static_names [OF assms(2) OpenOld(1)]
    unfolding queues_ok_def by (metis option.distinct(1))
  then show ?thesis ..
next
  case (ServerEnd)
  with assms(3) show ?thesis by (simp add: queues_ok_def server_cleanup_def) blast
next
  case (Fail i)
  show ?thesis by (rule queues_step_client [OF assms(3) Fail(1), of "clients t ! i"]) (use Fail in auto)
next
  case (Cleanup i)
  show ?thesis
    by (rule queues_step_client [OF assms(3) Cleanup(1), of "clients t ! i"]) (use Cleanup in \<open>auto simp: client_cleanup_def\<close>)
next
  case (Found i)
  show ?thesis by (rule queues_step_client [OF assms(3) Found(1), of "clients t ! i"]) (use Found in auto)
next
  case (Init i)
  show ?thesis by (rule queues_step_client [OF assms(3) Init(1), of "clients t ! i"]) (use Init in auto)
next
  case (Assigned i q m ms)
  show ?thesis by (rule queues_step_client [OF assms(3) Assigned(1), of "clients t ! i"]) (use Assigned in auto)
next
  case (Wrong i q m ms)
  show ?thesis
    by (rule queues_step_client [OF assms(3) Wrong(1), of "clients t ! i"]) (use Wrong in \<open>auto simp: client_cleanup_def\<close>)
next
  case (Typed i b)
  show ?thesis by (rule queues_step_client [OF assms(3) Typed(1), of "clients t ! i"]) (use Typed in auto)
next
  case (Say i b)
  show ?thesis by (rule queues_step_client [OF assms(3) Say(1), of "clients t ! i"]) (use Say in auto)
next
  case (Show i q m ms)
  show ?thesis by (rule queues_step_client [OF assms(3) Show(1), of "clients t ! i"]) (use Show in \<open>auto split: if_splits\<close>)
qed (use assms(3) in \<open>simp_all add: queues_ok_def\<close>)

section \<open>Numbers\<close>

text \<open>
  Every number under way was given to the queue it travels in, and a running client has a
  number that the server's table maps to its own queue.
\<close>

definition ids_ok :: "chat \<Rightarrow> bool" where
  "ids_ok s \<longleftrightarrow> length (client_queues s) = MAX_CLIENTS \<and> active_clients s \<le> MAX_CLIENTS \<and>
     (\<forall>q k. v_pc s = VReply q k \<longrightarrow> k < active_clients s \<and> client_queues s ! k = Some q) \<and>
     (\<forall>m j. v_pc s = VForward m j \<longrightarrow> m_type m = MSG_TEXT) \<and>
     (\<forall>q. \<forall>m \<in> set (msgs s q). m_type m = MSG_ID_ASSIGN \<longrightarrow>
        (\<exists>k < active_clients s. m_client_id m = int k \<and> client_queues s ! k = Some q)) \<and>
     (\<forall>c \<in> set (clients s). x_pc c = XRun \<longrightarrow>
        (\<exists>k < active_clients s. my_id c = int k \<and> client_queues s ! k = x_queue c))"

lemma ids_okI:
  assumes "length (client_queues s) = MAX_CLIENTS" "active_clients s \<le> MAX_CLIENTS"
    and "\<And>q k. v_pc s = VReply q k \<Longrightarrow> k < active_clients s \<and> client_queues s ! k = Some q"
    and "\<And>m j. v_pc s = VForward m j \<Longrightarrow> m_type m = MSG_TEXT"
    and "\<And>q m. m \<in> set (msgs s q) \<Longrightarrow> m_type m = MSG_ID_ASSIGN \<Longrightarrow>
        \<exists>k < active_clients s. m_client_id m = int k \<and> client_queues s ! k = Some q"
    and "\<And>c. c \<in> set (clients s) \<Longrightarrow> x_pc c = XRun \<Longrightarrow>
        \<exists>k < active_clients s. my_id c = int k \<and> client_queues s ! k = x_queue c"
  shows "ids_ok s"
  using assms by (simp add: ids_ok_def)

lemma ids_okD:
  assumes "ids_ok s"
  shows "length (client_queues s) = MAX_CLIENTS" "active_clients s \<le> MAX_CLIENTS"
    and "v_pc s = VReply q k \<Longrightarrow> k < active_clients s \<and> client_queues s ! k = Some q"
    and "v_pc s = VForward m j \<Longrightarrow> m_type m = MSG_TEXT"
    and "m \<in> set (msgs s q) \<Longrightarrow> m_type m = MSG_ID_ASSIGN \<Longrightarrow>
        \<exists>k < active_clients s. m_client_id m = int k \<and> client_queues s ! k = Some q"
    and "c \<in> set (clients s) \<Longrightarrow> x_pc c = XRun \<Longrightarrow>
        \<exists>k < active_clients s. my_id c = int k \<and> client_queues s ! k = x_queue c"
  using assms by (auto simp: ids_ok_def)

lemma message_types [simp]:
  "m_type (init_message c) = MSG_INIT" "m_type (text_message c) = MSG_TEXT" "m_type (id_reply k) = MSG_ID_ASSIGN"
  "m_client_id (id_reply k) = int k" "m_client_id (text_message c) = my_id c"
  by (simp_all add: init_message_def text_message_def id_reply_def)

text \<open>A step of a client that only takes messages away or adds one that is no number.\<close>

lemma ids_step_client:
  assumes "ids_ok s" "v_pc t = v_pc s" "active_clients t = active_clients s" "client_queues t = client_queues s"
    and "\<And>q m. m \<in> set (msgs t q) \<Longrightarrow> m \<in> set (msgs s q) \<or> m_type m \<noteq> MSG_ID_ASSIGN"
    and "\<And>d. d \<in> set (clients t) \<Longrightarrow> d \<in> set (clients s) \<or> x_pc d \<noteq> XRun \<or>
      (\<exists>k < active_clients s. my_id d = int k \<and> client_queues s ! k = x_queue d)"
  shows "ids_ok t"
  by (rule ids_okI) (use assms ids_okD [OF assms(1)] in \<open>fastforce+\<close>)

lemma ids_step:
  assumes "chat_step a s = Some t" and inv: "ids_ok s"
  shows "ids_ok t"
  using assms(1)
proof (cases rule: chat_step_cases)
  case (Take m ms)
  then show ?thesis
    by (intro ids_okI) (use Take ids_okD [OF inv] in \<open>auto split: message_type.splits if_splits\<close>)
next
  case (Register m q)
  then show ?thesis
    by (intro ids_okI) (use Register ids_okD [OF inv] in \<open>fastforce simp: nth_list_update less_Suc_eq\<close>)+
next
  case (Reply q k)
  then show ?thesis
    by (intro ids_okI) (use Reply ids_okD [OF inv] in \<open>auto split: if_splits\<close>)
next
  case (Forward m i q)
  then show ?thesis
    by (intro ids_okI) (use Forward ids_okD [OF inv] in \<open>auto split: if_splits\<close>)
next
  case (Assigned i q m ms)
  obtain k where k: "k < active_clients s" "m_client_id m = int k" "client_queues s ! k = Some q"
    using ids_okD(5) [OF inv, of m q] Assigned by auto
  show ?thesis
    by (rule ids_step_client [OF inv])
      (use Assigned k in \<open>auto dest!: set_update_subset_insert [THEN subsetD] split: if_splits\<close>)
next
  case (Say i b)
  have "clients s ! i \<in> set (clients s)" using Say(1) by simp
  from ids_okD(6) [OF inv this Say(2)] obtain k
    where k: "k < active_clients s" "my_id (clients s ! i) = int k" "client_queues s ! k = x_queue (clients s ! i)" by blast
  show ?thesis
    by (rule ids_step_client [OF inv])
      (use Say k in \<open>auto dest!: set_update_subset_insert [THEN subsetD] split: if_splits\<close>)
next
  case (Typed i b)
  have "clients s ! i \<in> set (clients s)" using Typed(1) by simp
  from ids_okD(6) [OF inv this Typed(2)] obtain k
    where k: "k < active_clients s" "my_id (clients s ! i) = int k" "client_queues s ! k = x_queue (clients s ! i)" by blast
  show ?thesis
    by (rule ids_step_client [OF inv])
      (use Typed k in \<open>auto dest!: set_update_subset_insert [THEN subsetD] split: if_splits\<close>)
next
  case (Show i q m ms)
  have "clients s ! i \<in> set (clients s)" using Show(1) by simp
  from ids_okD(6) [OF inv this Show(2)] obtain k
    where k: "k < active_clients s" "my_id (clients s ! i) = int k" "client_queues s ! k = x_queue (clients s ! i)" by blast
  show ?thesis
    by (rule ids_step_client [OF inv])
      (use Show k in \<open>auto dest!: set_update_subset_insert [THEN subsetD] split: if_splits\<close>)
qed ((intro ids_okI; use ids_okD [OF inv] in \<open>auto simp: server_cleanup_def; fail\<close>) |
    (rule ids_step_client [OF inv]; auto simp: client_cleanup_def dest!: set_update_subset_insert [THEN subsetD] split: if_splits; fail))+

section \<open>One announcement and one registration per client\<close>

text \<open>The server's table as a map from numbers to queues.\<close>

definition registry :: "chat \<Rightarrow> nat \<Rightarrow> nat option" where
  "registry s k = (if k < active_clients s then client_queues s ! k else None)"

lemma registry_same [simp]:
  "registry (s\<lparr>v_pc := a\<rparr>) = registry s" "registry (s\<lparr>msgs := b\<rparr>) = registry s"
  "registry (s\<lparr>names := c, v_pc := a\<rparr>) = registry s" "registry (s\<lparr>msgs := b, v_pc := a\<rparr>) = registry s"
  "registry (s\<lparr>names := c, next_q := d\<rparr>) = registry s" "registry (s\<lparr>names := c\<rparr>) = registry s"
  "registry (set_client i e s) = registry s" "registry (server_cleanup s) = registry s"
  "registry (client_cleanup i e s) = registry s"
  by (auto simp: registry_def fun_eq_iff server_cleanup_def client_cleanup_def)

lemma server_cleanup_simps [simp]:
  "active_clients (server_cleanup s) = active_clients s" "clients (server_cleanup s) = clients s"
  "msgs (server_cleanup s) = msgs s" "next_q (server_cleanup s) = next_q s" "v_pc (server_cleanup s) = VExit"
  by (simp_all add: server_cleanup_def)

lemma registry_register:
  assumes "ids_ok s" "active_clients s < MAX_CLIENTS"
  shows "registry (s\<lparr>client_queues := (client_queues s)[active_clients s := Some q],
      active_clients := active_clients s + 1, v_pc := a\<rparr>) = (registry s)(active_clients s \<mapsto> q)"
    and "registry s (active_clients s) = None"
  using assms ids_okD(1) [OF assms(1)] by (auto simp: registry_def fun_eq_iff nth_list_update)

lemma registry_mono:
  assumes "chat_step a s = Some t" "ids_ok s" "registry s k = Some q"
  shows "registry t k = Some q"
  using assms(1)
proof (cases rule: chat_step_cases)
  case (Register m p)
  with assms registry_register [OF assms(2) Register(2)] show ?thesis by auto
qed (use assms(3) in auto)

definition announces :: "char list \<Rightarrow> chat \<Rightarrow> nat" where
  "announces n s = length (filter (\<lambda>m. m_type m = MSG_INIT \<and> cstr (m_queue_name m) = n) (msgs s 0)) +
     (case v_pc s of VInit m \<Rightarrow> if cstr (m_queue_name m) = n then 1 else 0 | _ \<Rightarrow> 0)"

definition announced :: "chat \<Rightarrow> client \<Rightarrow> nat" where
  "announced s c = announces (client_q_name c) s + (if x_queue c \<in> Some ` ran (registry s) then 1 else 0)"

definition once_ok :: "chat \<Rightarrow> bool" where
  "once_ok s \<longleftrightarrow> ran (registry s) \<subseteq> {0<..<next_q s} \<and> inj_on (registry s) (dom (registry s)) \<and>
     (\<forall>m. v_pc s = VInit m \<longrightarrow> m_type m = MSG_INIT) \<and>
     (\<forall>m. m \<in> set (msgs s 0) \<or> v_pc s = VInit m \<longrightarrow> m_type m = MSG_INIT \<longrightarrow>
        cstr (m_queue_name m) \<in> client_q_name ` set (clients s)) \<and>
     (\<forall>c \<in> set (clients s). announced s c \<le> (if x_pc c \<in> {XStart, XOpenServer, XSendInit} then 0 else 1)) \<and>
     (\<forall>q. 0 < q \<longrightarrow> q \<notin> ran (registry s) \<longrightarrow> msgs s q = [])"

lemma once_okI:
  assumes "ran (registry s) \<subseteq> {0<..<next_q s}" "inj_on (registry s) (dom (registry s))"
    and "\<And>m. v_pc s = VInit m \<Longrightarrow> m_type m = MSG_INIT"
    and "\<And>m. m \<in> set (msgs s 0) \<or> v_pc s = VInit m \<Longrightarrow> m_type m = MSG_INIT \<Longrightarrow>
        cstr (m_queue_name m) \<in> client_q_name ` set (clients s)"
    and "\<And>c. c \<in> set (clients s) \<Longrightarrow> announced s c \<le> (if x_pc c \<in> {XStart, XOpenServer, XSendInit} then 0 else 1)"
    and "\<And>q. 0 < q \<Longrightarrow> q \<notin> ran (registry s) \<Longrightarrow> msgs s q = []"
  shows "once_ok s"
  using assms unfolding once_ok_def by blast

lemma once_okD:
  assumes "once_ok s"
  shows "ran (registry s) \<subseteq> {0<..<next_q s}" "inj_on (registry s) (dom (registry s))"
    and "v_pc s = VInit m \<Longrightarrow> m_type m = MSG_INIT"
    and "m \<in> set (msgs s 0) \<or> v_pc s = VInit m \<Longrightarrow> m_type m = MSG_INIT \<Longrightarrow>
        cstr (m_queue_name m) \<in> client_q_name ` set (clients s)"
    and "c \<in> set (clients s) \<Longrightarrow> announced s c \<le> (if x_pc c \<in> {XStart, XOpenServer, XSendInit} then 0 else 1)"
    and "0 < q \<Longrightarrow> q \<notin> ran (registry s) \<Longrightarrow> msgs s q = []"
  using assms unfolding once_ok_def by blast+

text \<open>A step of client \<open>i\<close> that changes neither the server's queue nor the server.\<close>

lemma once_step_client:
  assumes o: "once_ok s" and i: "i < length (clients s)" and cl: "clients t = (clients s)[i := c]"
    and c: "client_q_name c = client_q_name (clients s ! i)"
      "x_queue c = x_queue (clients s ! i) \<or> x_queue c = Some (next_q s)"
      "x_pc c \<in> {XStart, XOpenServer, XSendInit} \<Longrightarrow> x_pc (clients s ! i) \<in> {XStart, XOpenServer, XSendInit}"
    and r: "registry t = registry s" and v: "v_pc t = v_pc s" and m0: "msgs t 0 = msgs s 0"
    and m: "\<And>q. 0 < q \<Longrightarrow> msgs s q = [] \<Longrightarrow> msgs t q = []" and nx: "next_q s \<le> next_q t"
  shows "once_ok t"
proof (rule once_okI)
  have an: "announces n t = announces n s" for n by (simp add: announces_def v m0)
  note D = once_okD [OF o]
  have names: "client_q_name ` set (clients t) = client_q_name ` set (clients s)"
  proof -
    have "map client_q_name (clients t) = map client_q_name (clients s)"
      using i c(1) by (simp add: cl map_update list_update_same_conv)
    then show ?thesis by (metis set_map)
  qed
  show "ran (registry t) \<subseteq> {0<..<next_q t}" using D(1) nx by (auto simp: r)
  show "inj_on (registry t) (dom (registry t))" using D(2) by (simp add: r)
  show "m_type k = MSG_INIT" if "v_pc t = VInit k" for k using D(3) that by (simp add: v)
  show "cstr (m_queue_name k) \<in> client_q_name ` set (clients t)"
    if "k \<in> set (msgs t 0) \<or> v_pc t = VInit k" "m_type k = MSG_INIT" for k
    using D(4) that by (simp add: names v m0)
  show "msgs t q = []" if "0 < q" "q \<notin> ran (registry t)" for q using D(6) that m by (simp add: r)
  show "announced t d \<le> (if x_pc d \<in> {XStart, XOpenServer, XSendInit} then 0 else 1)" if "d \<in> set (clients t)" for d
  proof -
    have new: "Some (next_q s) \<notin> Some ` ran (registry s)" using D(1) by auto
    from that consider "d \<in> set (clients s)" | "d = c"
      by (auto simp: cl dest!: set_update_subset_insert [THEN subsetD])
    then show ?thesis
    proof cases
      case 1
      then show ?thesis using D(5) by (simp add: announced_def an r)
    next
      case 2
      have "announced t c \<le> announced s (clients s ! i)"
        using c(1,2) new by (auto simp: announced_def an r)
      then show ?thesis using D(5) [of "clients s ! i"] c(3) i 2 by (auto split: if_splits)
    qed
  qed
qed

text \<open>The clients are told apart by their names and by their queues.\<close>

lemma queues_okD:
  assumes "queues_ok s" "static_ok (clients s)" "c \<in> set (clients s)" "d \<in> set (clients s)"
  shows "client_q_name c = client_q_name d \<Longrightarrow> c = d"
    and "x_queue c = Some q \<Longrightarrow> x_queue d = Some q \<Longrightarrow> c = d"
    and "x_queue c = Some q \<Longrightarrow> 0 < q \<and> q < next_q s"
    and "x_pc c = XStart \<Longrightarrow> x_queue c = None"
    and "names s (client_q_name c) = Some q \<Longrightarrow> x_queue c = Some q"
    and "x_pc c \<notin> {XStart, XExit} \<Longrightarrow> x_queue c \<noteq> None"
proof -
  obtain i j where ij: "i < length (clients s)" "c = clients s ! i" "j < length (clients s)" "d = clients s ! j"
    using assms(3,4) by (auto simp: in_set_conv_nth)
  show "client_q_name c = client_q_name d \<Longrightarrow> c = d"
    using static_names(2) [OF assms(2) ij(1,3)] by (simp add: ij)
  show "x_queue c = Some q \<Longrightarrow> x_queue d = Some q \<Longrightarrow> c = d"
    using assms(1) ij(1,3) unfolding ij(2,4) queues_ok_def by blast
  show "x_queue c = Some q \<Longrightarrow> 0 < q \<and> q < next_q s" "x_pc c = XStart \<Longrightarrow> x_queue c = None"
      "x_pc c \<notin> {XStart, XExit} \<Longrightarrow> x_queue c \<noteq> None"
    using assms(1) ij(1) unfolding ij(2) queues_ok_def by simp_all
  assume n: "names s (client_q_name c) = Some q"
  then obtain k where k: "k < length (clients s)" "client_q_name c = client_q_name (clients s ! k)" "x_queue (clients s ! k) = Some q"
    using assms(1) static_names(1) [OF assms(2) ij(1)] ij(2) unfolding queues_ok_def by blast
  then show "x_queue c = Some q" using static_names(2) [OF assms(2) ij(1) k(1)] by (simp add: ij)
qed

lemma once_register:
  assumes r: "v_pc s = VInit m" "active_clients s < MAX_CLIENTS" "names s (cstr (m_queue_name m)) = Some q"
      "t = s\<lparr>client_queues := (client_queues s)[active_clients s := Some q],
             active_clients := active_clients s + 1, v_pc := VReply q (active_clients s)\<rparr>"
    and st: "static_ok (clients s)" and qs: "queues_ok s" and ids: "ids_ok s" and o: "once_ok s"
  shows "once_ok t"
proof -
  note D = once_okD [OF o] and Q = queues_okD [OF qs st]
  have reg: "registry t = (registry s)(active_clients s \<mapsto> q)" and old: "registry s (active_clients s) = None"
    using registry_register [OF ids r(2)] by (simp_all add: r(4))
  obtain c where c: "c \<in> set (clients s)" "cstr (m_queue_name m) = client_q_name c"
    using D(3,4) r(1) by blast
  have xq: "x_queue c = Some q" by (rule Q(5) [OF c(1) c(1)]) (use r(3) c(2) in simp)
  have "announces (client_q_name c) s \<ge> 1" by (simp add: announces_def r(1) c(2))
  then have fresh: "q \<notin> ran (registry s)"
    using D(5) [OF c(1)] xq by (auto simp: announced_def split: if_splits)
  have nx: "next_q t = next_q s" by (simp add: r(4))
  have an: "announces n s = announces n t + (if client_q_name c = n then 1 else 0)" for n
    by (simp add: announces_def r(1,4) c(2))
  have ran: "ran (registry t) = insert q (ran (registry s))" using old by (simp add: reg)
  have q: "0 < q \<and> q < next_q s" by (rule Q(3) [OF c(1) c(1) xq])
  show ?thesis
  proof (rule once_okI)
    show "ran (registry t) \<subseteq> {0<..<next_q t}" using D(1) q nx by (auto simp: ran)
    show "inj_on (registry t) (dom (registry t))"
      using D(2) fresh old unfolding reg by (auto simp: inj_on_def ran_def dom_def)
    show "m_type k = MSG_INIT" if "v_pc t = VInit k" for k using that by (simp add: r(4))
    show "cstr (m_queue_name k) \<in> client_q_name ` set (clients t)"
      if "k \<in> set (msgs t 0) \<or> v_pc t = VInit k" "m_type k = MSG_INIT" for k
      using D(4) that by (simp add: r(4))
    show "msgs t p = []" if "0 < p" "p \<notin> ran (registry t)" for p using D(6) that ran by (simp add: r(4))
    show "announced t d \<le> (if x_pc d \<in> {XStart, XOpenServer, XSendInit} then 0 else 1)" if d: "d \<in> set (clients t)" for d
    proof (cases "d = c")
      case True
      have "announced t c = announced s c"
        using fresh xq by (auto simp: announced_def an ran)
      then show ?thesis using D(5) [OF c(1)] True by simp
    next
      case False
      have d': "d \<in> set (clients s)" using d by (simp add: r(4))
      have "client_q_name c \<noteq> client_q_name d" "x_queue d \<noteq> Some q"
        using Q(1,2) [OF c(1) d'] xq False by auto
      then have "announced t d = announced s d"
        by (auto simp: announced_def an ran)
      then show ?thesis using D(5) [OF d'] by simp
    qed
  qed
qed

lemma once_init:
  assumes i: "i < length (clients s)" "x_pc (clients s ! i) = XSendInit"
    and t: "t = set_client i ((clients s ! i)\<lparr>x_pc := XWaitReply\<rparr>)
             (s\<lparr>msgs := (msgs s)(0 := msgs s 0 @ [init_message (clients s ! i)])\<rparr>)"
    and st: "static_ok (clients s)" and qs: "queues_ok s" and o: "once_ok s"
  shows "once_ok t"
proof -
  let ?c = "clients s ! i"
  note D = once_okD [OF o] and Q = queues_okD [OF qs st]
  have c: "?c \<in> set (clients s)" using i(1) by simp
  have nm: "cstr (m_queue_name (init_message ?c)) = client_q_name ?c" by (rule static_names(3) [OF st i(1)])
  have names: "client_q_name ` set (clients t) = client_q_name ` set (clients s)"
  proof -
    have "map client_q_name (clients t) = map client_q_name (clients s)"
      using i(1) by (simp add: t map_update list_update_same_conv)
    then show ?thesis by (metis set_map)
  qed
  show ?thesis
  proof (rule once_okI)
    show "ran (registry t) \<subseteq> {0<..<next_q t}" "inj_on (registry t) (dom (registry t))"
      using D(1,2) by (simp_all add: t)
    show "m_type k = MSG_INIT" if "v_pc t = VInit k" for k using that D(3) by (simp add: t)
    show "cstr (m_queue_name k) \<in> client_q_name ` set (clients t)"
      if "k \<in> set (msgs t 0) \<or> v_pc t = VInit k" "m_type k = MSG_INIT" for k
      using D(4) that c nm unfolding names by (auto simp: t)
    show "msgs t p = []" if "0 < p" "p \<notin> ran (registry t)" for p using D(6) that by (simp add: t)
    show "announced t d \<le> (if x_pc d \<in> {XStart, XOpenServer, XSendInit} then 0 else 1)" if d: "d \<in> set (clients t)" for d
    proof -
      obtain j where j: "j < length (clients s)" "d = clients t ! j"
        using d by (auto simp: t in_set_conv_nth)
      consider "d = ?c\<lparr>x_pc := XWaitReply\<rparr>" | "d \<in> set (clients s)" "client_q_name ?c \<noteq> client_q_name d"
        using j static_names(2) [OF st i(1) j(1)] by (cases "j = i") (simp_all add: t)
      then show ?thesis
      proof cases
        case 1
        have "announced t d = Suc (announced s ?c)" using nm 1 by (simp add: announced_def announces_def t)
        then show ?thesis using D(5) [OF c] i(2) 1 by simp
      next
        case 2
        then have "announced t d = announced s d" by (simp add: announced_def announces_def t nm)
        then show ?thesis using D(5) [OF 2(1)] by simp
      qed
    qed
  qed
qed

text \<open>A step of the server or of a sender that registers and announces nobody.\<close>

lemma once_step_server:
  assumes o: "once_ok s" and r: "registry t = registry s" and cl: "clients t = clients s" and nx: "next_q t = next_q s"
    and an: "\<And>n. announces n t \<le> announces n s"
    and v: "\<And>k. v_pc t = VInit k \<Longrightarrow> m_type k = MSG_INIT"
    and m0: "\<And>k. k \<in> set (msgs t 0) \<or> v_pc t = VInit k \<Longrightarrow> m_type k = MSG_INIT \<Longrightarrow>
        k \<in> set (msgs s 0) \<or> v_pc s = VInit k"
    and m: "\<And>q. 0 < q \<Longrightarrow> q \<notin> ran (registry s) \<Longrightarrow> msgs s q = [] \<Longrightarrow> msgs t q = []"
  shows "once_ok t"
proof -
  note D = once_okD [OF o]
  have "announced t c \<le> announced s c" for c using an [of "client_q_name c"] by (simp add: announced_def r)
  then have an: "announced t c \<le> (if x_pc c \<in> {XStart, XOpenServer, XSendInit} then 0 else 1)"
    if "c \<in> set (clients s)" for c using D(5) [OF that] le_trans by blast
  show ?thesis
  proof (rule once_okI)
    show "cstr (m_queue_name k) \<in> client_q_name ` set (clients t)"
      if "k \<in> set (msgs t 0) \<or> v_pc t = VInit k" "m_type k = MSG_INIT" for k
      unfolding cl by (rule D(4) [OF m0 [OF that] that(2)])
  qed (use D(1,2,6) an v m in \<open>simp_all add: r cl nx\<close>)
qed

lemma once_step:
  assumes "chat_step a s = Some t" and st: "static_ok (clients s)" and qs: "queues_ok s" and ids: "ids_ok s"
    and o: "once_ok s"
  shows "once_ok t"
  using assms(1)
proof (cases rule: chat_step_cases)
  case (Take m ms)
  show ?thesis
    by (rule once_step_server [OF o])
      (use Take in \<open>auto simp: announces_def split: message_type.splits if_splits\<close>)
next
  case (Register m q)
  then show ?thesis using st qs ids o by (rule once_register)
next
  case Ready
  then show ?thesis
    by (intro once_step_server [OF o]) (use once_okD(3) [OF o] in \<open>auto simp: announces_def\<close>)
next
  case (Reply q k)
  have "q \<in> ran (registry s)" using ids_okD(3) [OF ids Reply(1)] by (auto simp: registry_def ran_def)
  moreover from this have "q \<noteq> 0" using once_okD(1) [OF o] by auto
  ultimately show ?thesis by (intro once_step_server [OF o]) (use Reply in \<open>auto simp: announces_def\<close>)
next
  case (Forward m i q)
  have "q \<in> ran (registry s)" using Forward by (auto simp: registry_def ran_def)
  moreover from this have "q \<noteq> 0" using once_okD(1) [OF o] by auto
  ultimately show ?thesis by (intro once_step_server [OF o]) (use Forward in \<open>auto simp: announces_def\<close>)
next
  case (Pass m i)
  then show ?thesis by (intro once_step_server [OF o]) (auto simp: announces_def)
next
  case ServerEnd
  then show ?thesis
    by (intro once_step_server [OF o]) (auto simp: announces_def server_cleanup_def registry_def fun_eq_iff)
next
  case (Init i)
  show ?thesis by (rule once_init [OF Init(1,2,4) st qs o])
next
  case (Assigned i q m ms)
  have "q \<noteq> 0" using Assigned(1,3) queues_okD(3) [OF qs st, of "clients s ! i" "clients s ! i"] by auto
  then show ?thesis by (intro once_step_client [OF o Assigned(1), of t "clients t ! i"]) (use Assigned in auto)
next
  case (Wrong i q m ms)
  have "q \<noteq> 0" using Wrong(1,3) queues_okD(3) [OF qs st, of "clients s ! i" "clients s ! i"] by auto
  then show ?thesis
    by (intro once_step_client [OF o Wrong(1), of t "clients t ! i"]) (use Wrong in \<open>auto simp: client_cleanup_def\<close>)
next
  case (Show i q m ms)
  have "q \<noteq> 0" using Show(1,3) queues_okD(3) [OF qs st, of "clients s ! i" "clients s ! i"] by auto
  then show ?thesis
    by (intro once_step_client [OF o Show(1), of t "clients t ! i"]) (use Show in \<open>auto split: if_splits\<close>)
next
  case (Fail i)
  show ?thesis by (intro once_step_client [OF o Fail(1), of t "clients t ! i"]) (use Fail in auto)
next
  case (Open i)
  have reg: "registry t = registry s" by (simp add: Open(4))
  show ?thesis
    by (intro once_step_client [OF o Open(1), of t "clients t ! i"]) (use Open reg in auto)
next
  case (OpenOld i q)
  then have "x_queue (clients s ! i) = Some q"
    using queues_okD(5) [OF qs st, of "clients s ! i" "clients s ! i"] by auto
  then show ?thesis by (intro once_step_client [OF o OpenOld(1), of t "clients t ! i"]) (use OpenOld in auto)
next
  case (Cleanup i)
  show ?thesis
    by (intro once_step_client [OF o Cleanup(1), of t "clients t ! i"]) (use Cleanup in \<open>auto simp: client_cleanup_def\<close>)
next
  case (Found i)
  show ?thesis by (intro once_step_client [OF o Found(1), of t "clients t ! i"]) (use Found in auto)
next
  case Idle
  with o show ?thesis by simp
next
  case (Typed i b)
  show ?thesis by (intro once_step_client [OF o Typed(1), of t "clients t ! i"]) (use Typed in auto)
next
  case (Say i b)
  let ?c = "(clients s ! i)\<lparr>out_text := b\<rparr>"
  let ?u = "s\<lparr>msgs := (msgs s)(0 := msgs s 0 @ [text_message ?c])\<rparr>"
  have u: "once_ok ?u" by (intro once_step_server [OF o]) (use once_okD(3) [OF o] in \<open>auto simp: announces_def\<close>)
  show ?thesis by (intro once_step_client [OF u, of i t ?c]) (use Say in auto)
qed

section \<open>Texts\<close>

text \<open>A text under way to, or shown at, queue \<open>q\<close> carries the number of another registered queue.\<close>

definition from_other :: "chat \<Rightarrow> nat option \<Rightarrow> int \<Rightarrow> bool" where
  "from_other s xq d \<longleftrightarrow> (\<exists>k p. d = int k \<and> registry s k = Some p \<and> xq \<noteq> Some p)"

definition texts_ok :: "chat \<Rightarrow> bool" where
  "texts_ok s \<longleftrightarrow>
     (\<forall>m. m \<in> set (msgs s 0) \<or> (\<exists>j. v_pc s = VForward m j) \<longrightarrow> m_type m = MSG_TEXT \<longrightarrow>
        m_client_id m \<in> int ` dom (registry s)) \<and>
     (\<forall>q m. 0 < q \<longrightarrow> m \<in> set (msgs s q) \<longrightarrow> m_type m = MSG_TEXT \<longrightarrow> from_other s (Some q) (m_client_id m)) \<and>
     (\<forall>c \<in> set (clients s). \<forall>(d, l) \<in> set (shown c). from_other s (x_queue c) d)"

lemma texts_okI:
  assumes "\<And>m. m \<in> set (msgs s 0) \<or> (\<exists>j. v_pc s = VForward m j) \<Longrightarrow> m_type m = MSG_TEXT \<Longrightarrow>
        m_client_id m \<in> int ` dom (registry s)"
    and "\<And>q m. 0 < q \<Longrightarrow> m \<in> set (msgs s q) \<Longrightarrow> m_type m = MSG_TEXT \<Longrightarrow> from_other s (Some q) (m_client_id m)"
    and "\<And>c d l. c \<in> set (clients s) \<Longrightarrow> (d, l) \<in> set (shown c) \<Longrightarrow> from_other s (x_queue c) d"
  shows "texts_ok s"
  using assms unfolding texts_ok_def by blast

lemma texts_okD:
  assumes "texts_ok s"
  shows "m \<in> set (msgs s 0) \<or> (\<exists>j. v_pc s = VForward m j) \<Longrightarrow> m_type m = MSG_TEXT \<Longrightarrow>
        m_client_id m \<in> int ` dom (registry s)"
    and "0 < q \<Longrightarrow> m \<in> set (msgs s q) \<Longrightarrow> m_type m = MSG_TEXT \<Longrightarrow> from_other s (Some q) (m_client_id m)"
    and "c \<in> set (clients s) \<Longrightarrow> (d, l) \<in> set (shown c) \<Longrightarrow> from_other s (x_queue c) d"
  using assms unfolding texts_ok_def by blast+

text \<open>A step of the server, or of a sender.\<close>

lemma texts_step_server:
  assumes reg: "map_le (registry s) (registry t)" and tx: "texts_ok s"
    and cl: "clients t = clients s"
    and v: "\<And>m j. v_pc t = VForward m j \<Longrightarrow> m_type m = MSG_TEXT \<Longrightarrow> m \<in> set (msgs s 0) \<or> (\<exists>j. v_pc s = VForward m j)"
    and m0: "\<And>m. m \<in> set (msgs t 0) \<Longrightarrow> m \<in> set (msgs s 0) \<or> m_type m \<noteq> MSG_TEXT \<or> m_client_id m \<in> int ` dom (registry s)"
    and mq: "\<And>q m. 0 < q \<Longrightarrow> m \<in> set (msgs t q) \<Longrightarrow> m \<in> set (msgs s q) \<or> m_type m \<noteq> MSG_TEXT \<or>
        from_other s (Some q) (m_client_id m)"
  shows "texts_ok t"
proof (rule texts_okI)
  note D = texts_okD [OF tx]
  have mono: "from_other s xq d \<Longrightarrow> from_other t xq d" for xq d using reg unfolding from_other_def map_le_def by (metis domI)
  have dom: "m_client_id m \<in> int ` dom (registry s) \<Longrightarrow> m_client_id m \<in> int ` dom (registry t)" for m
    using map_le_implies_dom_le [OF reg] by blast
  show "m_client_id m \<in> int ` dom (registry t)"
    if "m \<in> set (msgs t 0) \<or> (\<exists>j. v_pc t = VForward m j)" "m_type m = MSG_TEXT" for m
    using that D(1) dom v m0 by blast
  show "from_other t (Some q) (m_client_id m)" if "0 < q" "m \<in> set (msgs t q)" "m_type m = MSG_TEXT" for q m
    using that D(2) mono mq by blast
  show "from_other t (x_queue c) d" if "c \<in> set (clients t)" "(d, l) \<in> set (shown c)" for c d l
    using that D(3) mono by (auto simp: cl)
qed

text \<open>A step of client \<open>i\<close>, which sends no text.\<close>

lemma texts_step_client:
  assumes reg: "map_le (registry s) (registry t)" and tx: "texts_ok s"
    and i: "i < length (clients s)" and cl: "clients t = (clients s)[i := c]" and v: "v_pc t = v_pc s"
    and m: "\<And>q m. m \<in> set (msgs t q) \<Longrightarrow> m \<in> set (msgs s q) \<or> m_type m \<noteq> MSG_TEXT"
    and xq: "x_queue c = x_queue (clients s ! i) \<or> shown c = []"
    and sh: "\<And>d l. (d, l) \<in> set (shown c) \<Longrightarrow> (d, l) \<in> set (shown (clients s ! i)) \<or> from_other s (x_queue c) d"
  shows "texts_ok t"
proof (rule texts_okI)
  note D = texts_okD [OF tx]
  have mono: "from_other s xq d \<Longrightarrow> from_other t xq d" for xq d using reg unfolding from_other_def map_le_def by (metis domI)
  have dom: "m_client_id m \<in> int ` dom (registry s) \<Longrightarrow> m_client_id m \<in> int ` dom (registry t)" for m
    using map_le_implies_dom_le [OF reg] by blast
  show "m_client_id k \<in> int ` dom (registry t)"
    if "k \<in> set (msgs t 0) \<or> (\<exists>j. v_pc t = VForward k j)" "m_type k = MSG_TEXT" for k
    using that D(1) dom m unfolding v by blast
  show "from_other t (Some q) (m_client_id k)" if "0 < q" "k \<in> set (msgs t q)" "m_type k = MSG_TEXT" for q k
    using that D(2) mono m by blast
  show "from_other t (x_queue d) e" if "d \<in> set (clients t)" "(e, l) \<in> set (shown d)" for d e l
  proof -
    have "d = c \<or> d \<in> set (clients s)"
      using that(1) by (auto simp: cl dest!: set_update_subset_insert [THEN subsetD])
    moreover have "clients s ! i \<in> set (clients s)" using i by simp
    ultimately show ?thesis using that(2) D(3) mono xq sh by (metis empty_iff list.set(1))
  qed
qed

text \<open>
  What a step adds: a text of a running client to the server's queue, a forwarded text to
  a queue that is not the sender's, a received text to what a client has shown.
\<close>

lemma texts_step:
  assumes step: "chat_step a s = Some t" and st: "static_ok (clients s)" and qs: "queues_ok s" and ids: "ids_ok s"
    and o: "once_ok s" and tx: "texts_ok s" and fresh: "\<forall>c \<in> set (clients s). x_pc c = XStart \<longrightarrow> shown c = []"
  shows "texts_ok t"
proof -
  note D = texts_okD [OF tx]
  have le: "map_le (registry s) (registry t)" using registry_mono [OF step ids] by (auto simp: map_le_def)
  note srv = texts_step_server [OF le tx] and cli = texts_step_client [OF le tx]
  show ?thesis
    using step
  proof (cases rule: chat_step_cases)
    case (Forward m i q)
    have q: "registry s i = Some q" using Forward by (simp add: registry_def)
    have ty: "m_type m = MSG_TEXT" by (rule ids_okD(4) [OF ids Forward(1)])
    then obtain k p where k: "m_client_id m = int k" "registry s k = Some p"
      using D(1) Forward(1) by blast
    then have "p \<noteq> q"
      using once_okD(2) [OF o] q Forward(4) by (metis domI inj_onD)
    then have "from_other s (Some q) (m_client_id m)" using k by (auto simp: from_other_def)
    moreover have "q \<noteq> 0" using once_okD(1) [OF o] q by (auto simp: ran_def)
    ultimately show ?thesis by (intro srv) (use Forward in \<open>auto split: if_splits\<close>)
  next
    case (Typed i b)
    then show ?thesis by (intro cli [OF Typed(1), of "clients t ! i"]) (use Typed in auto)
  next
    case (Say i b)
    let ?c = "(clients s ! i)\<lparr>out_text := b\<rparr>"
    let ?u = "s\<lparr>msgs := (msgs s)(0 := msgs s 0 @ [text_message ?c])\<rparr>"
    have c: "clients s ! i \<in> set (clients s)" using Say(1) by simp
    obtain k p where k: "my_id (clients s ! i) = int k" "registry s k = Some p"
      using ids_okD(6) [OF ids c Say(2)] queues_okD(6) [OF qs st c c] Say(2) by (auto simp: registry_def)
    then have "my_id (clients s ! i) \<in> int ` dom (registry s)" by (simp add: domI)
    then have u: "texts_ok ?u"
      by (intro texts_step_server [OF _ tx]) (auto split: if_splits)
    show ?thesis
      by (rule texts_step_client [OF _ u, of t i ?c]) (use Say texts_okD(3) [OF tx c] in auto)
  next
    case (Show i q m ms)
    have c: "clients s ! i \<in> set (clients s)" using Show(1) by simp
    have "0 < q" using queues_okD(3) [OF qs st c c Show(3)] by simp
    then have "m_type m = MSG_TEXT \<Longrightarrow> from_other s (Some q) (m_client_id m)" using D(2) Show(4) by simp
    then show ?thesis
      by (intro cli [OF Show(1), of "clients t ! i"]) (use Show in \<open>auto split: if_splits\<close>)
  next
    case (Open i)
    then have "shown (clients s ! i) = []" using fresh by simp
    then show ?thesis by (intro cli [OF Open(1), of "clients t ! i"]) (use Open in auto)
  next
    case (OpenOld i q)
    then have "shown (clients s ! i) = []" using fresh by simp
    then show ?thesis by (intro cli [OF OpenOld(1), of "clients t ! i"]) (use OpenOld in auto)
  next
    case (Cleanup i)
    then show ?thesis by (intro cli [OF Cleanup(1), of "clients t ! i"]) (use Cleanup in \<open>auto simp: client_cleanup_def\<close>)
  next
    case (Wrong i q m ms)
    then show ?thesis
      by (intro cli [OF Wrong(1), of "clients t ! i"]) (use Wrong in \<open>auto simp: client_cleanup_def split: if_splits\<close>)
  next
    case (Init i)
    then show ?thesis by (intro cli [OF Init(1), of "clients t ! i"]) (use Init in \<open>auto split: if_splits\<close>)
  next
    case (Assigned i q m ms)
    then show ?thesis by (intro cli [OF Assigned(1), of "clients t ! i"]) (use Assigned in \<open>auto split: if_splits\<close>)
  next
    case (Fail i)
    then show ?thesis by (intro cli [OF Fail(1), of "clients t ! i"]) (use Fail in auto)
  next
    case (Found i)
    then show ?thesis by (intro cli [OF Found(1), of "clients t ! i"]) (use Found in auto)
  next
    case (Take m ms)
    then show ?thesis by (intro srv) (auto split: message_type.splits if_splits)
  qed (intro srv; auto simp: server_cleanup_def split: if_splits; fail)+
qed

section \<open>All invariants together\<close>

definition chat_ok :: "chat \<Rightarrow> bool" where
  "chat_ok s \<longleftrightarrow> static_ok (clients s) \<and> queues_ok s \<and> ids_ok s \<and> once_ok s \<and> texts_ok s \<and>
     (\<forall>c \<in> set (clients s). x_pc c = XStart \<longrightarrow> shown c = [])"

lemma silent_step:
  assumes "chat_step a s = Some t" "\<forall>c \<in> set (clients s). x_pc c = XStart \<longrightarrow> shown c = []"
  shows "\<forall>c \<in> set (clients t). x_pc c = XStart \<longrightarrow> shown c = []"
  using assms(1)
  by (cases rule: chat_step_cases)
    (use assms(2) in \<open>auto simp: server_cleanup_def client_cleanup_def
       dest!: set_update_subset_insert [THEN subsetD] split: if_splits\<close>)

lemma chat_ok_step: "chat_step a s = Some t \<Longrightarrow> chat_ok s \<Longrightarrow> chat_ok t"
  unfolding chat_ok_def
  using static_step queues_step ids_step once_step texts_step silent_step by blast

lemma chat_ok_start:
  assumes "fresh_clients cs"
  shows "chat_ok (chat_start cs)"
proof -
  have r: "registry (chat_start cs) = Map.empty" by (simp add: registry_def chat_start_def fun_eq_iff)
  have f: "x_pc c = XStart" "x_queue c = None" "shown c = []" "pid c < 2 ^ 31" if "c \<in> set cs" for c
    using assms that by (simp_all add: fresh_clients_def)
  have "queues_ok (chat_start cs)"
    using f by (auto simp: queues_ok_def chat_start_def)
  moreover have "ids_ok (chat_start cs)" using f by (auto simp: ids_ok_def chat_start_def)
  moreover have "once_ok (chat_start cs)"
    by (rule once_okI) (use f in \<open>auto simp: r announced_def announces_def, auto simp: chat_start_def\<close>)
  moreover have "texts_ok (chat_start cs)"
    by (rule texts_okI) (use f in \<open>auto simp: chat_start_def\<close>)
  moreover have "static_ok (clients (chat_start cs))"
    using assms by (auto simp: static_ok_def chat_start_def fresh_clients_def)
  ultimately show ?thesis using f by (simp add: chat_ok_def chat_start_def)
qed

lemma chat_ok_from: "chat_reach s t \<Longrightarrow> chat_ok s \<Longrightarrow> chat_ok t"
  by (induction rule: chat_reach.induct) (auto intro: chat_ok_step)

lemma chat_ok_reach: "chat_reach (chat_start cs) s \<Longrightarrow> fresh_clients cs \<Longrightarrow> chat_ok s"
  using chat_ok_from chat_ok_start by blast

section \<open>Properties\<close>

text \<open>
  C34. The numbers the server gives are between 0 and 9, and two running clients never have
  the same number.
\<close>

theorem chat_ids_unique:
  assumes "fresh_clients cs" "chat_reach (chat_start cs) s"
    and "i < length (clients s)" "x_pc (clients s ! i) = XRun"
    and "j < length (clients s)" "x_pc (clients s ! j) = XRun"
  shows "0 \<le> my_id (clients s ! i) \<and> my_id (clients s ! i) < int MAX_CLIENTS \<and>
    (my_id (clients s ! i) = my_id (clients s ! j) \<longleftrightarrow> i = j)"
proof -
  have "chat_ok s" using chat_ok_reach assms(1,2) by blast
  then have ok: "queues_ok s" "ids_ok s" "static_ok (clients s)" by (simp_all add: chat_ok_def)
  have c: "clients s ! i \<in> set (clients s)" "clients s ! j \<in> set (clients s)" using assms(3,5) by simp_all
  obtain k l where k: "k < active_clients s" "my_id (clients s ! i) = int k" "client_queues s ! k = x_queue (clients s ! i)"
    and l: "my_id (clients s ! j) = int l" "client_queues s ! l = x_queue (clients s ! j)"
    using ids_okD(6) [OF ok(2) c(1) assms(4)] ids_okD(6) [OF ok(2) c(2) assms(6)] by blast
  obtain q where q: "x_queue (clients s ! i) = Some q"
    using queues_okD(6) [OF ok(1,3) c(1,1)] assms(4) by auto
  have "i = j" if "k = l"
    using ok(1) q that k(3) l(2) assms(3,5) unfolding queues_ok_def by metis
  then show ?thesis using k ids_okD(2) [OF ok(2)] l(1) by auto
qed

text \<open>
  C36. Nobody sees his own words: every text a running client has shown carries the number of
  another client.
\<close>

theorem chat_no_echo:
  assumes "fresh_clients cs" "chat_reach (chat_start cs) s"
    and "c \<in> set (clients s)" "x_pc c = XRun" "(d, line) \<in> set (shown c)"
  shows "d \<noteq> my_id c"
proof -
  have "chat_ok s" using chat_ok_reach assms(1,2) by blast
  then have ok: "ids_ok s" "texts_ok s" by (simp_all add: chat_ok_def)
  obtain k where "k < active_clients s" "my_id c = int k" "client_queues s ! k = x_queue c"
    using ids_okD(6) [OF ok(1) assms(3,4)] by blast
  then show ?thesis using texts_okD(3) [OF ok(2) assms(3,5)] by (auto simp: from_other_def registry_def)
qed

text \<open>The forwarding loop from client \<open>i\<close> on, while there is room in every queue.\<close>

definition delivered :: "chat \<Rightarrow> nat \<Rightarrow> int \<Rightarrow> nat \<Rightarrow> bool" where
  "delivered s i d q \<longleftrightarrow> (\<exists>k \<ge> i. registry s k = Some q \<and> int k \<noteq> d)"

lemma forward_loop:
  assumes "v_pc s = VForward m i" "i \<le> active_clients s" "inj_on (registry s) (dom (registry s))"
    and "\<And>q. delivered s i (m_client_id m) q \<Longrightarrow> length (msgs s q) < MAX_MSG"
  shows "\<exists>t. chat_run (replicate (active_clients s - i + 1) (Server False)) s = Some t \<and> v_pc t = VReceive \<and>
    clients t = clients s \<and> registry t = registry s \<and>
    (\<forall>q. msgs t q = msgs s q @ (if delivered s i (m_client_id m) q then [m] else []))"
  using assms
proof (induction "active_clients s - i" arbitrary: s i)
  case 0
  then have "chat_step (Server False) s = Some (s\<lparr>v_pc := VReceive\<rparr>)" "i = active_clients s"
    by (simp_all add: chat_step_def server_next_def)
  moreover have "\<not> delivered s i (m_client_id m) q" for q
    using \<open>i = _\<close> by (auto simp: delivered_def registry_def)
  ultimately show ?case using 0 by simp
next
  case (Suc n)
  then have i: "i < active_clients s" by simp
  let ?d = "m_client_id m"
  have len: "active_clients s - i = Suc n" "active_clients s - Suc i = n" using Suc(2) by simp_all
  let ?add = "\<lambda>q. if registry s i = Some q \<and> int i \<noteq> ?d then [m] else []"
  obtain u where u: "chat_step (Server False) s = Some u" "v_pc u = VForward m (Suc i)" "clients u = clients s"
    "registry u = registry s" "active_clients u = active_clients s" "\<And>q. msgs u q = msgs s q @ ?add q"
  proof (cases "registry s i = None \<or> int i = ?d")
    case True
    then have "chat_step (Server False) s = Some (s\<lparr>v_pc := VForward m (Suc i)\<rparr>)"
      using Suc.prems(1) i by (auto simp: chat_step_def server_next_def registry_def split: option.splits)
    from that [OF this] True show thesis by auto
  next
    case False
    then obtain q where q: "registry s i = Some q" "int i \<noteq> ?d" by auto
    then have "length (msgs s q) < MAX_MSG" using Suc.prems(4) by (auto simp: delivered_def)
    then have "chat_step (Server False) s = Some (s\<lparr>msgs := (msgs s)(q := msgs s q @ [m]), v_pc := VForward m (Suc i)\<rparr>)"
      using Suc.prems(1) i q by (auto simp: chat_step_def server_next_def registry_def mq_send_def)
    from that [OF this] q show thesis by auto
  qed
  have split: "delivered s i ?d q \<longleftrightarrow> delivered u (Suc i) ?d q \<or> registry s i = Some q \<and> int i \<noteq> ?d" for q
    unfolding delivered_def u(4) by (metis Suc_leD le_neq_implies_less less_eq_Suc_le order_refl)
  have once: "delivered u (Suc i) ?d q \<Longrightarrow> registry s i \<noteq> Some q" for q
    using Suc.prems(3) unfolding delivered_def u(4) by (metis Suc_n_not_le_n domI inj_onD)
  have "length (msgs u q) < MAX_MSG" if "delivered u (Suc i) ?d q" for q
    using that once Suc.prems(4) by (simp add: u(6) split)
  then obtain t where t: "chat_run (replicate (n + 1) (Server False)) u = Some t" "v_pc t = VReceive"
    "clients t = clients s" "registry t = registry s"
    "\<And>q. msgs t q = msgs u q @ (if delivered u (Suc i) ?d q then [m] else [])"
    using Suc.hyps(1) [of u "Suc i"] len(2) u Suc.prems(3) i by auto
  have "chat_run (replicate (active_clients s - i + 1) (Server False)) s = Some t"
    using t(1) u(1) by (simp add: len(1))
  moreover have "msgs t q = msgs s q @ (if delivered s i ?d q then [m] else [])" for q
    using once [of q] by (auto simp: t(5) u(6) split)
  ultimately show ?case using t by blast
qed

text \<open>
  C35. A forwarded text reaches everybody else exactly once: with room in the queues, the
  server's loop ends after one step for each registered client and one more; then every
  registered queue but the sender's has the text as its last message, once, and no other
  queue has changed.
\<close>

theorem chat_forwards_to_all_others:
  assumes "fresh_clients cs" "chat_reach (chat_start cs) s" "v_pc s = VForward m 0"
    and "\<And>q. q \<in> ran (registry s) \<Longrightarrow> length (msgs s q) < MAX_MSG"
  shows "\<exists>t. chat_run (replicate (active_clients s + 1) (Server False)) s = Some t \<and> v_pc t = VReceive \<and>
    (\<forall>q. msgs t q = msgs s q @ (if \<exists>k. registry s k = Some q \<and> int k \<noteq> m_client_id m
      then [m] else []))"
proof -
  have "chat_ok s" using chat_ok_reach assms(1,2) by blast
  then have inj: "inj_on (registry s) (dom (registry s))" by (simp add: chat_ok_def once_ok_def)
  show ?thesis
    using forward_loop [OF assms(3) le0 inj] assms(4) by (fastforce simp: delivered_def ran_def)
qed

lemma starve_step:
  assumes "chat_step a s = Some t" "chat_ok s" "active_clients s = MAX_CLIENTS"
    and i: "i < length (clients s)" "x_queue (clients s ! i) = Some q" "q \<notin> ran (registry s)"
    and x: "x_pc (clients s ! i) \<in> {XWaitReply, XExit}"
  shows "active_clients t = MAX_CLIENTS \<and> length (clients t) = length (clients s) \<and>
    x_queue (clients t ! i) = Some q \<and> q \<notin> ran (registry t) \<and> x_pc (clients t ! i) \<in> {XWaitReply, XExit}"
proof -
  have ok: "once_ok s" "queues_ok s" "static_ok (clients s)" using assms(2) by (simp_all add: chat_ok_def)
  have c: "clients s ! i \<in> set (clients s)" using i(1) by simp
  have "0 < q" using queues_okD(3) [OF ok(2,3) c c i(2)] by simp
  then have e: "msgs s q = []" using once_okD(6) [OF ok(1)] i(3) by blast
  show ?thesis
    using assms(1)
    by (cases rule: chat_step_cases)
      (use assms e in \<open>auto simp: client_cleanup_def nth_list_update\<close>)
qed

text \<open>
  C37. The eleventh client waits for ever: once ten clients are registered, a client that is
  not among them and waits for the reply to its announcement never gets one; its receive
  stays blocked until a signal ends it.
\<close>

theorem chat_full_starves:
  assumes "fresh_clients cs" "chat_reach (chat_start cs) s" "active_clients s = MAX_CLIENTS"
    and "i < length (clients s)" "x_pc (clients s ! i) = XWaitReply"
    and "x_queue (clients s ! i) \<notin> Some ` ran (registry s)" "chat_reach s t"
  shows "x_pc (clients t ! i) = XExit \<or>
    x_pc (clients t ! i) = XWaitReply \<and> chat_step (Client False i) t = None"
proof -
  have ok: "chat_ok s" using chat_ok_reach assms(1,2) by blast
  have c: "clients s ! i \<in> set (clients s)" using assms(4) by simp
  obtain q where q: "x_queue (clients s ! i) = Some q"
    using queues_okD(6) [of s, OF _ _ c c] ok assms(5) by (auto simp: chat_ok_def)
  have "chat_ok t \<and> active_clients t = MAX_CLIENTS \<and> length (clients t) = length (clients s) \<and>
      x_queue (clients t ! i) = Some q \<and> q \<notin> ran (registry t) \<and> x_pc (clients t ! i) \<in> {XWaitReply, XExit}"
    using assms(7)
  proof induction
    case start
    then show ?case using ok assms(3-6) q by auto
  next
    case (step u a t)
    then show ?case using starve_step [OF step(2), of i q] chat_ok_step [OF step(2)] assms(4) by auto
  qed
  note t = this
  then have ok: "once_ok t" "queues_ok t" "static_ok (clients t)" by (simp_all add: chat_ok_def)
  have c: "clients t ! i \<in> set (clients t)" using t assms(4) by simp
  have "0 < q" using queues_okD(3) [OF ok(2,3) c c] t by simp
  then have "msgs t q = []" using once_okD(6) [OF ok(1)] t by blast
  with t assms(4) show ?thesis by (auto simp: chat_step_def client_next_def Let_def)
qed

lemma blocked_step:
  assumes "chat_step a s = Some t" "chat_ok s" "v_pc s = VForward m k" "registry s k = Some q" "int k \<noteq> m_client_id m"
    and "length (msgs s q) = MAX_MSG" "i < length (clients s)" "x_queue (clients s ! i) = Some q" "x_pc (clients s ! i) = XExit"
  shows "v_pc t = VExit \<or> v_pc t = VForward m k \<and> registry t = registry s \<and> length (msgs t q) = MAX_MSG \<and>
    length (clients t) = length (clients s) \<and> x_queue (clients t ! i) = Some q \<and> x_pc (clients t ! i) = XExit"
proof -
  have ok: "once_ok s" "queues_ok s" using assms(2) by (simp_all add: chat_ok_def)
  have "q \<in> ran (registry s)" using assms(4) by (auto simp: ran_def)
  then have q: "q \<noteq> 0" using once_okD(1) [OF ok(1)] by auto
  have k: "k < active_clients s" "client_queues s ! k = Some q"
    using assms(4) by (auto simp: registry_def split: if_splits)
  have other: "x_queue (clients s ! j) \<noteq> Some q" if "j < length (clients s)" "x_pc (clients s ! j) \<noteq> XExit" for j
    using ok(2) that assms(7,8,9) unfolding queues_ok_def by metis
  show ?thesis
    using assms(1)
    by (cases rule: chat_step_cases)
      (use assms q k other in \<open>auto simp: server_cleanup_def client_cleanup_def nth_list_update split: if_splits\<close>)
qed

text \<open>
  C38. A client that ends stays registered.  When its queue is full and the server has a text
  for it, the send waits for ever: no later step lets the server go on, whatever the other
  clients do, and only a signal ends it.
\<close>

theorem chat_full_queue_blocks:
  assumes "fresh_clients cs" "chat_reach (chat_start cs) s" "v_pc s = VForward m k"
    and "registry s k = x_queue (clients s ! i)" "int k \<noteq> m_client_id m" "i < length (clients s)"
    and "x_pc (clients s ! i) = XExit" "x_queue (clients s ! i) = Some q" "length (msgs s q) = MAX_MSG" "chat_reach s t"
  shows "v_pc t = VExit \<or> v_pc t = VForward m k \<and> chat_step (Server False) t = None"
proof -
  have ok: "chat_ok s" using chat_ok_reach assms(1,2) by blast
  have "chat_ok t \<and> (v_pc t = VExit \<or> v_pc t = VForward m k \<and> registry t k = Some q \<and> length (msgs t q) = MAX_MSG \<and>
    i < length (clients t) \<and> x_queue (clients t ! i) = Some q \<and> x_pc (clients t ! i) = XExit)"
    using assms(10)
  proof induction
    case start
    then show ?case using ok assms by simp
  next
    case (step u a t)
    have t: "chat_ok t" using chat_ok_step [OF step(2)] step(3) by blast
    show ?case
    proof (cases "v_pc u = VExit")
      case True
      from step(2) have "v_pc t = VExit" by (cases rule: chat_step_cases) (use True in \<open>auto simp: client_cleanup_def\<close>)
      with t show ?thesis by blast
    next
      case False
      with step(3) blocked_step [OF step(2), of m k q i] assms(5) t show ?thesis by auto
    qed
  qed
  then show ?thesis
    using assms(5) by (auto simp: chat_step_def server_next_def registry_def mq_send_def split: if_splits)
qed

section \<open>Concrete runs\<close>

definition new_client :: "nat \<Rightarrow> client" where
  "new_client p = \<lparr>pid = p, x_pc = XStart, x_queue = None, my_id = 0, out_text = [], shown = []\<rparr>"

text \<open>Client \<open>i\<close> announces itself; the server takes the announcement and answers; the client reads the answer.\<close>

definition join :: "nat \<Rightarrow> chat_act list" where
  "join i = replicate 3 (Client False i) @ replicate 3 (Server False) @ [Client False i]"

definition pair_of_clients :: "client list" where "pair_of_clients = [new_client 1, new_client 2]"

lemma fresh_pair: "fresh_clients pair_of_clients"
  by (simp add: fresh_clients_def pair_of_clients_def new_client_def)

theorem chat_ids_unique_witness:
  "\<exists>s. chat_run (join 0 @ join 1) (chat_start pair_of_clients) = Some s \<and>
     my_id (clients s ! 0) \<noteq> my_id (clients s ! 1)"
proof -
  have "map_option (\<lambda>s. map x_pc (clients s)) (chat_run (join 0 @ join 1) (chat_start pair_of_clients)) = Some [XRun, XRun]"
    by code_simp
  then obtain s where s: "chat_run (join 0 @ join 1) (chat_start pair_of_clients) = Some s" "map x_pc (clients s) = [XRun, XRun]"
    by auto
  then have l: "length (clients s) = 2" by (metis length_map length_Cons list.size(3) numeral_2_eq_2)
  then have "x_pc (clients s ! 0) = XRun" "x_pc (clients s ! 1) = XRun"
    using s(2) nth_map [of 0 "clients s" x_pc] nth_map [of 1 "clients s" x_pc] by simp_all
  then show ?thesis
    using chat_ids_unique [OF fresh_pair chat_run_reach [OF s(1)], of 0 1] l s(1) by auto
qed

lemma reach_view:
  assumes "map_option f (chat_run as (chat_start cs)) = Some v"
  obtains s where "chat_run as (chat_start cs) = Some s" "chat_reach (chat_start cs) s" "f s = v"
  using assms chat_run_reach by (cases "chat_run as (chat_start cs)") auto

theorem chat_no_echo_witness:
  "\<exists>s. chat_run (join 0 @ join 1 @ [Line (Some ''hi'') 0] @ replicate 4 (Server False) @ [Receive 1])
       (chat_start pair_of_clients) = Some s \<and>
     shown (clients s ! 1) = [(0, ''hi'')] \<and> 0 \<noteq> my_id (clients s ! 1)"
proof -
  let ?as = "join 0 @ join 1 @ [Line (Some ''hi'') 0] @ replicate 4 (Server False) @ [Receive 1]"
  have "map_option (\<lambda>s. (length (clients s), x_pc (clients s ! 1), shown (clients s ! 1)))
      (chat_run ?as (chat_start pair_of_clients)) = Some (2, XRun, [(0, ''hi'')])"
    by code_simp
  then obtain s where s: "chat_run ?as (chat_start pair_of_clients) = Some s" "chat_reach (chat_start pair_of_clients) s"
      "(length (clients s), x_pc (clients s ! 1), shown (clients s ! 1)) = (2, XRun, [(0, ''hi'')])"
    by (rule reach_view)
  then have "0 \<noteq> my_id (clients s ! 1)"
    by (intro chat_no_echo [OF fresh_pair s(2), of "clients s ! 1" 0 "''hi''"]) auto
  with s show ?thesis by auto
qed

theorem chat_forwards_to_all_others_witness:
  "\<exists>s m t. chat_run (join 0 @ join 1 @ [Line (Some ''hi'') 0, Server False]) (chat_start pair_of_clients) = Some s \<and>
     v_pc s = VForward m 0 \<and> chat_run (replicate 3 (Server False)) s = Some t \<and> v_pc t = VReceive \<and>
     length (msgs t 2) = 1 \<and> length (msgs t 1) = 0"
proof -
  let ?as = "join 0 @ join 1 @ [Line (Some ''hi'') 0, Server False]"
  have "map_option (\<lambda>s. (case v_pc s of VForward m i \<Rightarrow> (m_client_id m, i) | _ \<Rightarrow> (9, 9), active_clients s,
      take 2 (client_queues s), msgs s 1, msgs s 2)) (chat_run ?as (chat_start pair_of_clients))
      = Some ((0, 0), 2, [Some 1, Some 2], [], [])"
    by code_simp
  then obtain s where s: "chat_run ?as (chat_start pair_of_clients) = Some s" "chat_reach (chat_start pair_of_clients) s"
      "(case v_pc s of VForward m i \<Rightarrow> (m_client_id m, i) | _ \<Rightarrow> (9, 9), active_clients s,
      take 2 (client_queues s), msgs s 1, msgs s 2) = ((0, 0), 2, [Some 1, Some 2], [], [])"
    by (rule reach_view)
  then obtain m where m: "v_pc s = VForward m 0" "m_client_id m = 0" by (auto split: chat_srv_pc.splits)
  have q: "client_queues s ! 0 = Some 1" "client_queues s ! 1 = Some 2"
    using s(3) nth_take [of 0 2 "client_queues s"] nth_take [of 1 2 "client_queues s"] by simp_all
  have r: "registry s = [0 \<mapsto> 1, 1 \<mapsto> 2]"
    using s(3) q by (auto simp: registry_def fun_eq_iff less_2_cases_iff)
  have "ran (registry s) = {1, 2}" by (auto simp: r)
  then have room: "\<And>q. q \<in> ran (registry s) \<Longrightarrow> length (msgs s q) < MAX_MSG" using s(3) by (auto simp: MAX_MSG_def)
  have "active_clients s + 1 = 3" using s(3) by simp
  from chat_forwards_to_all_others [OF fresh_pair s(2) m(1) room, unfolded this m(2)]
  obtain t where t: "chat_run (replicate 3 (Server False)) s = Some t" "v_pc t = VReceive"
    "\<And>q. msgs t q = msgs s q @ (if \<exists>k. registry s k = Some q \<and> int k \<noteq> 0 then [m] else [])"
    by (auto simp: numeral_3_eq_3)
  have "\<exists>k. registry s k = Some 2 \<and> int k \<noteq> 0" "\<not> (\<exists>k. registry s k = Some 1 \<and> int k \<noteq> 0)"
    by (auto simp: r)
  then have "length (msgs t 2) = 1" "length (msgs t 1) = 0" using s(3) t(3) [of 2] t(3) [of 1] by auto
  with s(1) m(1) t(1,2) show ?thesis by blast
qed

definition crowd :: "client list" where "crowd = map new_client [1, 2, 3, 4, 5, 6, 7, 8, 9, 10, 11]"

definition crowded :: "chat_act list" where
  "crowded = concat (map join [0..<10]) @ replicate 3 (Client False 10) @ replicate 2 (Server False)"

theorem chat_full_starves_witness:
  "\<exists>s. chat_run crowded (chat_start crowd) = Some s \<and> v_pc s = VReceive \<and> msgs s 0 = [] \<and>
     x_pc (clients s ! 10) = XWaitReply \<and> chat_step (Client False 10) s = None"
proof -
  have "map_option (\<lambda>s. (active_clients s, length (clients s), x_pc (clients s ! 10), x_queue (clients s ! 10), client_queues s,
      v_pc s, msgs s 0))
      (chat_run crowded (chat_start crowd)) = Some (MAX_CLIENTS, 11, XWaitReply, Some 11, map Some [1, 2, 3, 4, 5, 6, 7, 8, 9, 10],
      VReceive, [])"
    by code_simp
  then obtain s where s: "chat_run crowded (chat_start crowd) = Some s" "chat_reach (chat_start crowd) s"
      "(active_clients s, length (clients s), x_pc (clients s ! 10), x_queue (clients s ! 10), client_queues s, v_pc s, msgs s 0)
        = (MAX_CLIENTS, 11, XWaitReply, Some 11, map Some [1, 2, 3, 4, 5, 6, 7, 8, 9, 10], VReceive, [])"
    by (rule reach_view)
  have f: "fresh_clients crowd" by (simp add: fresh_clients_def crowd_def new_client_def)
  have "Some (11 :: nat) \<notin> set (map Some [1, 2, 3, 4, 5, 6, 7, 8, 9, 10])" by simp
  then have "registry s k \<noteq> Some 11" for k
    using s(3) nth_mem [of k "client_queues s"] by (auto simp: registry_def MAX_CLIENTS_def)
  then have "x_queue (clients s ! 10) \<notin> Some ` ran (registry s)" using s(3) by (auto simp: ran_def)
  with chat_full_starves [OF f s(2) _ _ _ _ chat_reach.start, of 10] s(1,3) show ?thesis by auto
qed

definition flooded :: "chat_act list" where
  "flooded = join 0 @ join 1 @ [KillClient 1] @
     concat (replicate 10 ([Line (Some ''hi'') 0] @ replicate 4 (Server False))) @
     [Line (Some ''hi'') 0] @ replicate 2 (Server False)"

theorem chat_full_queue_blocks_witness:
  "\<exists>s m. chat_run flooded (chat_start pair_of_clients) = Some s \<and> v_pc s = VForward m 1 \<and>
     chat_step (Server False) s = None"
proof -
  have "map_option (\<lambda>s. (case v_pc s of VForward m i \<Rightarrow> (m_client_id m, i) | _ \<Rightarrow> (9, 9), active_clients s, length (clients s),
      client_queues s ! 1, length (msgs s 2), x_pc (clients s ! 1), x_queue (clients s ! 1)))
      (chat_run flooded (chat_start pair_of_clients)) = Some ((0, 1), 2, 2, Some 2, MAX_MSG, XExit, Some 2)"
    by code_simp
  then obtain s where s: "chat_run flooded (chat_start pair_of_clients) = Some s" "chat_reach (chat_start pair_of_clients) s"
      "(case v_pc s of VForward m i \<Rightarrow> (m_client_id m, i) | _ \<Rightarrow> (9, 9), active_clients s, length (clients s),
      client_queues s ! 1, length (msgs s 2), x_pc (clients s ! 1), x_queue (clients s ! 1)) =
      ((0, 1), 2, 2, Some 2, MAX_MSG, XExit, Some 2)"
    by (rule reach_view)
  then obtain m where m: "v_pc s = VForward m 1" "m_client_id m = 0" by (auto split: chat_srv_pc.splits)
  have r: "registry s 1 = x_queue (clients s ! 1)" using s(3) by (simp add: registry_def)
  from chat_full_queue_blocks [OF fresh_pair s(2) m(1) r _ _ _ _ _ chat_reach.start, of 2] m(2) s(3)
  have "chat_step (Server False) s = None" using m by auto
  with s(1) m(1) show ?thesis by blast
qed

end
