(* ===== verification/Lab5Common.thy ===== *)
theory Lab5Common
  imports CLib SemBuffer
begin

text \<open>
  What the three tasks of lab5 share (their \<open>common.h\<close> and the print loop of their
  consumers): the random task texts and the reading of a task text character by character.
\<close>

section \<open>Random task texts\<close>

definition charset :: "char list" where
  "charset = ''ABCDEFGHIJKLMNOPQRSTUVWXYZabcdefghijklmnopqrstuvwxyz0123456789''"

text \<open>\<open>TASK_LEN\<close>: ten characters and the terminating zero.\<close>

definition TASK_LEN :: nat where "TASK_LEN = 11"

lemma charset_length [simp]: "length charset = 62"
  by (simp add: charset_def)

lemma charset_no_NUL [simp]: "NUL \<notin> set charset"
  by (simp add: charset_def)

function gen_loop :: "nat \<Rightarrow> nat \<Rightarrow> char list \<Rightarrow> rng \<Rightarrow> char list \<times> rng" where
  "gen_loop i n str r =
     (if i < n then
        (let (v, r') = c_rand r; key = v mod length charset
         in gen_loop (Suc i) n (str[i := charset ! key]) r')
      else (str, r))"
  by pat_completeness auto
termination by (relation "measure (\<lambda>(i, n, _). n - i)") auto

declare gen_loop.simps [simp del]

definition generate_random_string :: "char list \<Rightarrow> nat \<Rightarrow> rng \<Rightarrow> char list \<times> rng" where
  "generate_random_string str n r =
     (let (str', r') = gen_loop 0 n str r in (str'[n := NUL], r'))"

text \<open>The shape of a task text of \<open>n\<close> characters.\<close>

definition is_text :: "nat \<Rightarrow> char list \<Rightarrow> bool" where
  "is_text n t \<longleftrightarrow> length t = Suc n \<and> t ! n = NUL \<and> set (take n t) \<subseteq> set charset"

lemma gen_loop_length [simp]: "length (fst (gen_loop i n str r)) = length str"
proof (induction i n str r rule: gen_loop.induct)
  case (1 i n str r)
  then show ?case
    by (subst gen_loop.simps) (auto simp: Let_def split: prod.splits)
qed

lemma gen_loop_nth:
  assumes "n \<le> length str" "k < n" "i \<le> k \<or> str ! k \<in> set charset"
  shows "fst (gen_loop i n str r) ! k \<in> set charset"
  using assms
proof (induction i n str r rule: gen_loop.induct)
  case (1 i n str r)
  show ?case
  proof (cases "i < n")
    case True
    obtain v r' where v: "c_rand r = (v, r')" by fastforce
    have "charset ! (v mod 62) \<in> set charset" by (intro nth_mem) simp
    then have "Suc i \<le> k \<or> str[i := charset ! (v mod 62)] ! k \<in> set charset"
      using "1.prems" True by (cases "k = i") (auto simp: nth_list_update)
    with 1 True v show ?thesis by (subst gen_loop.simps) (simp add: Let_def)
  next
    case False
    with "1.prems" show ?thesis by (subst gen_loop.simps) simp
  qed
qed

lemma generate_random_string_text:
  assumes "length str = Suc n"
  shows "is_text n (fst (generate_random_string str n r))"
proof -
  let ?g = "fst (gen_loop 0 n str r)"
  have "set (take n (?g[n := NUL])) \<subseteq> set charset"
    using assms gen_loop_nth [of n str _ 0 r] by (auto simp: set_conv_nth)
  then show ?thesis
    using assms by (simp add: is_text_def generate_random_string_def split_beta Let_def)
qed

lemma is_text_split:
  assumes "is_text n t"
  shows "t = take n t @ [NUL]" and "length (take n t) = n" and "NUL \<notin> set (take n t)"
proof -
  show "t = take n t @ [NUL]"
    using assms take_Suc_conv_app_nth [of n t] by (simp add: is_text_def)
  show "length (take n t) = n" and "NUL \<notin> set (take n t)"
    using assms charset_no_NUL by (auto simp: is_text_def)
qed

lemma cstr_is_text: "is_text n t \<Longrightarrow> cstr t = take n t"
  using is_text_split [of n t] cstr_append_NUL [of "take n t" "[]"] by simp

text \<open>Copying a text with \<open>strncpy(.., .., TASK_LEN)\<close> into an array of that size is exact.\<close>

lemma strncpy_text [simp]:
  "is_text n t \<Longrightarrow> length dst = Suc n \<Longrightarrow> c_strncpy dst t (Suc n) = t"
  using is_text_split [of n t] by (intro c_strncpy_full) auto

section \<open>Reading a text up to its terminator\<close>

text \<open>
  \<open>for (int j = 0; task_str[j] != 0; j++) putchar(task_str[j])\<close>: the characters printed,
  or \<open>None\<close> when the loop would read past the end of the array.
\<close>

function print_loop :: "nat \<Rightarrow> char list \<Rightarrow> string option" where
  "print_loop j t =
     (if length t \<le> j then None
      else if t ! j = NUL then Some []
      else map_option (Cons (t ! j)) (print_loop (Suc j) t))"
  by pat_completeness auto
termination by (relation "measure (\<lambda>(j, t). length t - j)") auto

declare print_loop.simps [simp del]

lemma print_loop_cstr: "NUL \<in> set (drop j t) \<Longrightarrow> print_loop j t = Some (cstr (drop j t))"
proof (induction j t rule: print_loop.induct)
  case (1 j t)
  then have j: "j < length t" by (cases "j < length t") auto
  then have d: "drop j t = t ! j # drop (Suc j) t" by (simp add: Cons_nth_drop_Suc)
  show ?case
  proof (cases "t ! j = NUL")
    case True
    with j d show ?thesis by (subst print_loop.simps) (simp add: cstr_def)
  next
    case False
    with 1 j d show ?thesis by (subst print_loop.simps) (simp add: cstr_def)
  qed
qed

lemma print_loop_text: "is_text n t \<Longrightarrow> print_loop 0 t = Some (take n t)"
proof -
  assume t: "is_text n t"
  then have "NUL \<in> set t" using is_text_split(1) [OF t] by (metis in_set_conv_decomp)
  with t show ?thesis by (simp add: print_loop_cstr cstr_is_text)
qed

section \<open>A circular queue of task texts\<close>

text \<open>
  \<open>text_ring k b h t q\<close>: the array \<open>b\<close> of \<open>k\<close> task buffers, read from index \<open>h\<close> and written
  at index \<open>t\<close>, holds the texts \<open>q\<close>.
\<close>

definition text_ring :: "nat \<Rightarrow> char list list \<Rightarrow> nat \<Rightarrow> nat \<Rightarrow> char list list \<Rightarrow> bool" where
  "text_ring k b h t q \<longleftrightarrow>
     length b = k \<and> (\<forall>x \<in> set b. length x = TASK_LEN) \<and> (\<forall>x \<in> set q. is_text 10 x) \<and> ring_view b h t q"

lemma text_ring_empty:
  "h < k \<Longrightarrow> text_ring k (replicate k (replicate TASK_LEN NUL)) h h []"
  by (simp add: text_ring_def ring_view_empty)

lemma text_ring_bounds: "text_ring k b h t q \<Longrightarrow> h < k \<and> t < k \<and> length q \<le> k \<and> length b = k"
  using ring_view_bounds [of b h t q] by (auto simp: text_ring_def)

lemma text_ring_write:
  assumes "text_ring k b h t q" "length q < k" "is_text 10 x"
  shows "text_ring k (b[t := c_strncpy (b ! t) x TASK_LEN]) h t q"
    and "b[t := c_strncpy (b ! t) x TASK_LEN] ! t = x"
proof -
  have v: "ring_view b h t q" "length q < length b"
    using assms by (auto simp: text_ring_def)
  have "b ! t \<in> set b"
    using ring_view_bounds [OF v(1)] by simp
  then have c: "c_strncpy (b ! t) x TASK_LEN = x"
    using assms strncpy_text [of 10 x] by (simp add: text_ring_def TASK_LEN_def)
  show "text_ring k (b[t := c_strncpy (b ! t) x TASK_LEN]) h t q"
    using assms ring_view_write(1) [OF v] c
    by (auto simp: text_ring_def is_text_def TASK_LEN_def dest!: set_update_subset_insert [THEN subsetD])
  show "b[t := c_strncpy (b ! t) x TASK_LEN] ! t = x"
    using ring_view_write(2) [OF v] c by simp
qed

lemma text_ring_advance_tail:
  assumes "text_ring k b h t q" "length q < k" "b ! t = x" "is_text 10 x"
  shows "text_ring k b h ((t + 1) mod k) (q @ [x])"
  using assms ring_view_advance_tail [of b h t q] by (auto simp: text_ring_def)

lemma text_ring_advance_head:
  assumes "text_ring k b h t q" "q \<noteq> []"
  shows "text_ring k b ((h + 1) mod k) t (tl q)"
  using assms ring_view_advance_head [of b h t q] by (auto simp: text_ring_def dest: list.set_sel(2))

text \<open>Reading the oldest text into a local array.\<close>

lemma text_ring_read:
  assumes "text_ring k b h t q" "q \<noteq> []"
  shows "is_text 10 (hd q)" and "length (hd q) = TASK_LEN" and "b ! h = hd q"
    and "length dst = TASK_LEN \<Longrightarrow> c_strncpy dst (b ! h) TASK_LEN = hd q"
proof -
  have "hd q \<in> set q" using assms(2) by simp
  with assms(1) show t: "is_text 10 (hd q)" by (simp add: text_ring_def)
  then show "length (hd q) = TASK_LEN" by (simp add: is_text_def TASK_LEN_def)
  show h: "b ! h = hd q" using assms ring_view_hd [of b h t q] by (simp add: text_ring_def)
  show "length dst = TASK_LEN \<Longrightarrow> c_strncpy dst (b ! h) TASK_LEN = hd q"
    using strncpy_text [OF t, of dst] h by (simp add: TASK_LEN_def)
qed

end
