(* ===== verification/Lab5Zad1.thy ===== *)
theory Lab5Zad1
  imports Lab5Common
begin

text \<open>
  lab5/zad1: the bounded buffer with one circular queue.  Each process of the model runs
  the statements of \<open>producer.c\<close> or \<open>consumer.c\<close> one at a time; any number of each kind
  is interleaved by the scheduler of \<open>SemBuffer\<close>.  The history of events (what is
  generated, inserted, taken and printed) is compared with an abstract bounded FIFO queue.
\<close>

section \<open>The shared memory and the processes\<close>

definition z1_K :: nat where "z1_K = 5"

record z1_shm =
  z1_buffer :: "char list list"
  z1_head :: nat
  z1_tail :: nat

datatype z1_event =
    Generated "char list"
  | Inserted "char list" nat
  | Taken "char list"
  | Printed "string option"
  | Finished

datatype z1_ppc = PGen | PWaitEmpty | PWaitMutex | PCopy | PLog | PAdvance | PPostMutex | PPostFull | PSleep | PEnd

datatype z1_cpc = CWaitFull | CWaitMutex | CCopy | CAdvance | CPostMutex | CPostEmpty | CPrint

record z1_producer =
  p_pc :: z1_ppc
  p_i :: nat
  p_task :: "char list"
  p_rng :: rng

record z1_consumer =
  c_pc :: z1_cpc
  c_task :: "char list"

datatype z1_proc = Producer z1_producer | Consumer z1_consumer

section \<open>The producer's loop\<close>

text \<open>
  \<open>producer.c\<close>, statement by statement: the loop test with the generation of a text, the
  two waits, the copy, the message, the index, the two posts, the random pause.
\<close>

definition z1_producer_step ::
    "z1_producer \<Rightarrow> sems \<Rightarrow> z1_shm \<Rightarrow> (z1_event list \<times> z1_producer \<times> sems \<times> z1_shm) option" where
  "z1_producer_step p v m = (case p_pc p of
     PGen \<Rightarrow>
       if p_i p < 10 then
         (let (t, r) = generate_random_string (p_task p) (TASK_LEN - 1) (p_rng p)
          in Some ([Generated t], p\<lparr>p_task := t, p_rng := r, p_pc := PWaitEmpty\<rparr>, v, m))
       else Some ([Finished], p\<lparr>p_pc := PEnd\<rparr>, v, m)
   | PWaitEmpty \<Rightarrow> map_option (\<lambda>v'. ([], p\<lparr>p_pc := PWaitMutex\<rparr>, v', m)) (sem_wait Empty v)
   | PWaitMutex \<Rightarrow> map_option (\<lambda>v'. ([], p\<lparr>p_pc := PCopy\<rparr>, v', m)) (sem_wait Mutex v)
   | PCopy \<Rightarrow>
       Some ([], p\<lparr>p_pc := PLog\<rparr>, v,
             m\<lparr>z1_buffer := (z1_buffer m)[z1_tail m :=
                  c_strncpy (z1_buffer m ! z1_tail m) (p_task p) TASK_LEN]\<rparr>)
   | PLog \<Rightarrow> Some ([Inserted (p_task p) (z1_tail m)], p\<lparr>p_pc := PAdvance\<rparr>, v, m)
   | PAdvance \<Rightarrow> Some ([], p\<lparr>p_pc := PPostMutex\<rparr>, v, m\<lparr>z1_tail := (z1_tail m + 1) mod z1_K\<rparr>)
   | PPostMutex \<Rightarrow> Some ([], p\<lparr>p_pc := PPostFull\<rparr>, sem_post Mutex v, m)
   | PPostFull \<Rightarrow> Some ([], p\<lparr>p_pc := PSleep\<rparr>, sem_post Full v, m)
   | PSleep \<Rightarrow>
       (let (d, r) = c_rand (p_rng p)
        in Some ([], p\<lparr>p_i := p_i p + 1, p_rng := r, p_pc := PGen\<rparr>, v, m))
   | PEnd \<Rightarrow> None)"

section \<open>The consumer's loop\<close>

definition z1_consumer_step ::
    "z1_consumer \<Rightarrow> sems \<Rightarrow> z1_shm \<Rightarrow> (z1_event list \<times> z1_consumer \<times> sems \<times> z1_shm) option" where
  "z1_consumer_step c v m = (case c_pc c of
     CWaitFull \<Rightarrow> map_option (\<lambda>v'. ([], c\<lparr>c_pc := CWaitMutex\<rparr>, v', m)) (sem_wait Full v)
   | CWaitMutex \<Rightarrow> map_option (\<lambda>v'. ([], c\<lparr>c_pc := CCopy\<rparr>, v', m)) (sem_wait Mutex v)
   | CCopy \<Rightarrow>
       Some ([], c\<lparr>c_task := c_strncpy (c_task c) (z1_buffer m ! z1_head m) TASK_LEN,
                   c_pc := CAdvance\<rparr>, v, m)
   | CAdvance \<Rightarrow>
       Some ([Taken (c_task c)], c\<lparr>c_pc := CPostMutex\<rparr>, v, m\<lparr>z1_head := (z1_head m + 1) mod z1_K\<rparr>)
   | CPostMutex \<Rightarrow> Some ([], c\<lparr>c_pc := CPostEmpty\<rparr>, sem_post Mutex v, m)
   | CPostEmpty \<Rightarrow> Some ([], c\<lparr>c_pc := CPrint\<rparr>, sem_post Empty v, m)
   | CPrint \<Rightarrow> Some ([Printed (print_loop 0 (c_task c))], c\<lparr>c_pc := CWaitFull\<rparr>, v, m))"

definition z1_step :: "(z1_proc, z1_shm, z1_event) pstep" where
  "z1_step p v m = (case p of
     Producer x \<Rightarrow> map_option (\<lambda>(es, x', v', m'). (es, Producer x', v', m')) (z1_producer_step x v m)
   | Consumer x \<Rightarrow> map_option (\<lambda>(es, x', v', m'). (es, Consumer x', v', m')) (z1_consumer_step x v m))"

text \<open>
  The state after set-up: a new shared memory object is filled with zeros, the
  semaphores have the values given to \<open>sem_open\<close>; local arrays of a process may hold
  anything of the right size.
\<close>

definition z1_mem0 :: z1_shm where
  "z1_mem0 = \<lparr>z1_buffer = replicate z1_K (replicate TASK_LEN NUL), z1_head = 0, z1_tail = 0\<rparr>"

primrec z1_fresh :: "z1_proc \<Rightarrow> bool" where
  "z1_fresh (Producer p) \<longleftrightarrow> p_pc p = PGen \<and> p_i p = 0 \<and> length (p_task p) = TASK_LEN"
| "z1_fresh (Consumer c) \<longleftrightarrow> c_pc c = CWaitFull \<and> length (c_task c) = TASK_LEN"

definition z1_start :: "z1_proc list \<Rightarrow> (z1_proc, z1_shm, z1_event) bsys" where
  "z1_start ps = \<lparr>procs = ps, sem = sems_init z1_K, mem = z1_mem0, hist = [], killed = {}\<rparr>"

section \<open>The abstract queue\<close>

text \<open>
  A bounded FIFO queue of capacity \<open>K\<close> that also counts insertions: it accepts an event
  or refuses it (\<open>None\<close>).  The \<open>n\<close>-th insertion must report slot \<open>n mod K\<close>.
\<close>

fun fifo_accept :: "z1_event \<Rightarrow> char list list \<times> nat \<Rightarrow> (char list list \<times> nat) option" where
  "fifo_accept (Inserted t k) (q, n) =
     (if length q < z1_K \<and> k = n mod z1_K then Some (q @ [t], Suc n) else None)"
| "fifo_accept (Taken t) (q, n) = (if q \<noteq> [] \<and> hd q = t then Some (tl q, n) else None)"
| "fifo_accept (Printed r) (q, n) = (if r \<noteq> None then Some (q, n) else None)"
| "fifo_accept (Generated t) (q, n) = (if is_text 10 t then Some (q, n) else None)"
| "fifo_accept Finished (q, n) = Some (q, n)"

fun fifo_run :: "z1_event list \<Rightarrow> char list list \<times> nat \<Rightarrow> (char list list \<times> nat) option" where
  "fifo_run [] q = Some q"
| "fifo_run (e # es) q = (case fifo_accept e q of None \<Rightarrow> None | Some q' \<Rightarrow> fifo_run es q')"

lemma fifo_run_append:
  "fifo_run (es @ fs) q = (case fifo_run es q of None \<Rightarrow> None | Some q' \<Rightarrow> fifo_run fs q')"
  by (induction es arbitrary: q) (auto split: option.splits)

text \<open>The texts inserted and taken by a history, in order.\<close>

definition z1_inserted :: "z1_event list \<Rightarrow> char list list" where
  "z1_inserted h = concat (map (\<lambda>e. case e of Inserted t k \<Rightarrow> [t] | _ \<Rightarrow> []) h)"

definition z1_taken :: "z1_event list \<Rightarrow> char list list" where
  "z1_taken h = concat (map (\<lambda>e. case e of Taken t \<Rightarrow> [t] | _ \<Rightarrow> []) h)"

lemma z1_history_simps [simp]:
  "z1_inserted [] = []" "z1_taken [] = []"
  "z1_inserted (h @ h') = z1_inserted h @ z1_inserted h'"
  "z1_taken (h @ h') = z1_taken h @ z1_taken h'"
  "z1_inserted (e # h) = (case e of Inserted t k \<Rightarrow> [t] | _ \<Rightarrow> []) @ z1_inserted h"
  "z1_taken (e # h) = (case e of Taken t \<Rightarrow> [t] | _ \<Rightarrow> []) @ z1_taken h"
  by (simp_all add: z1_inserted_def z1_taken_def)

text \<open>What an accepted history says: first in, first out, and no insertion is lost.\<close>

lemma fifo_run_contents:
  "fifo_run h (q0, n0) = Some (q, n) \<Longrightarrow> q0 @ z1_inserted h = z1_taken h @ q"
proof (induction h arbitrary: q0 n0)
  case Nil
  then show ?case by simp
next
  case (Cons e h)
  then show ?case by (cases e; cases q0) (auto split: if_splits dest!: Cons.IH)
qed

lemma fifo_run_count:
  "fifo_run h (q0, n0) = Some (q, n) \<Longrightarrow> n = n0 + length (z1_inserted h)"
proof (induction h arbitrary: q0 n0)
  case Nil
  then show ?case by simp
next
  case (Cons e h)
  then show ?case by (cases e) (auto split: if_splits dest!: Cons.IH)
qed

section \<open>The protocol of the two loops\<close>

primrec z1_cs :: "z1_proc \<Rightarrow> bool" where
  "z1_cs (Producer p) \<longleftrightarrow> p_pc p \<in> {PCopy, PLog, PAdvance, PPostMutex}"
| "z1_cs (Consumer c) \<longleftrightarrow> c_pc c \<in> {CCopy, CAdvance, CPostMutex}"

primrec z1_tok :: "z1_proc \<Rightarrow> nat" where
  "z1_tok (Producer p) =
     one_if (p_pc p \<in> {PWaitMutex, PCopy, PLog, PAdvance, PPostMutex, PPostFull})"
| "z1_tok (Consumer c) =
     one_if (c_pc c \<in> {CWaitMutex, CCopy, CAdvance, CPostMutex, CPostEmpty})"

primrec z1_hold :: "z1_proc \<Rightarrow> nat" where
  "z1_hold (Producer p) = one_if (p_pc p \<in> {PAdvance, PPostMutex, PPostFull})"
| "z1_hold (Consumer c) = one_if (c_pc c \<in> {CWaitMutex, CCopy, CAdvance})"

definition z1_ring_ok :: "z1_shm \<Rightarrow> char list list \<Rightarrow> nat \<Rightarrow> bool" where
  "z1_ring_ok m q n \<longleftrightarrow>
     text_ring z1_K (z1_buffer m) (z1_head m) (z1_tail m) q \<and> z1_tail m = n mod z1_K"

definition z1_RI :: "z1_shm \<Rightarrow> z1_event list \<Rightarrow> bool" where
  "z1_RI m h \<longleftrightarrow> (\<exists>q n. fifo_run h ([], 0) = Some (q, n) \<and> z1_ring_ok m q n)"

primrec z1_LI :: "z1_proc \<Rightarrow> z1_shm \<Rightarrow> z1_event list \<Rightarrow> bool" where
  "z1_LI (Producer p) m h \<longleftrightarrow> is_text 10 (p_task p) \<and>
     (case p_pc p of
        PLog \<Rightarrow> z1_RI m h \<and> z1_buffer m ! z1_tail m = p_task p
      | PAdvance \<Rightarrow> (\<exists>q n. fifo_run h ([], 0) = Some (q @ [p_task p], Suc n) \<and> z1_ring_ok m q n \<and>
                         length q < z1_K \<and> z1_buffer m ! z1_tail m = p_task p)
      | _ \<Rightarrow> z1_RI m h)"
| "z1_LI (Consumer c) m h \<longleftrightarrow> length (c_task c) = TASK_LEN \<and> z1_RI m h \<and>
     (case c_pc c of
        CAdvance \<Rightarrow> is_text 10 (c_task c) \<and> c_task c = z1_buffer m ! z1_head m
      | CPostMutex \<Rightarrow> is_text 10 (c_task c)
      | _ \<Rightarrow> True)"

primrec z1_PI :: "z1_proc \<Rightarrow> bool" where
  "z1_PI (Producer p) \<longleftrightarrow> length (p_task p) = TASK_LEN \<and>
     (p_pc p \<in> {PWaitEmpty, PWaitMutex} \<longrightarrow> is_text 10 (p_task p))"
| "z1_PI (Consumer c) \<longleftrightarrow> length (c_task c) = TASK_LEN \<and>
     (c_pc c \<in> {CPostEmpty, CPrint} \<longrightarrow> is_text 10 (c_task c))"

primrec z1_waits :: "z1_proc \<Rightarrow> semid option" where
  "z1_waits (Producer p) =
     (case p_pc p of PWaitEmpty \<Rightarrow> Some Empty | PWaitMutex \<Rightarrow> Some Mutex | _ \<Rightarrow> None)"
| "z1_waits (Consumer c) =
     (case c_pc c of CWaitFull \<Rightarrow> Some Full | CWaitMutex \<Rightarrow> Some Mutex | _ \<Rightarrow> None)"

primrec z1_ended :: "z1_proc \<Rightarrow> bool" where
  "z1_ended (Producer p) \<longleftrightarrow> p_pc p = PEnd"
| "z1_ended (Consumer c) \<longleftrightarrow> False"

lemmas z1_step_defs = z1_step_def z1_producer_step_def z1_consumer_step_def

text \<open>The same step, seen through the statement each process is at.\<close>

lemma z1_ledgers:
  assumes "z1_step p v m = Some (es, p', v', m')"
  shows "v' Mutex + one_if (z1_cs p') = v Mutex + one_if (z1_cs p) \<and>
    v' Empty + v' Full + z1_tok p' = v Empty + v Full + z1_tok p \<and>
    v' Full + length (z1_taken es) + z1_hold p' = v Full + z1_hold p + length (z1_inserted es)"
proof (cases p)
  case (Producer x)
  with assms show ?thesis
    by (cases "p_pc x") (auto simp: z1_step_defs sem_post_def Let_def split: if_splits prod.splits
      dest!: sem_wait_SomeD)
next
  case (Consumer x)
  with assms show ?thesis
    by (cases "c_pc x") (auto simp: z1_step_defs sem_post_def dest!: sem_wait_SomeD)
qed

text \<open>Outside the critical section a step leaves the memory alone and emits harmless events.\<close>

lemma z1_outside:
  assumes "z1_step p v m = Some (es, p', v', m')" "\<not> z1_cs p" "z1_PI p" "\<not> z1_cs p'"
  shows "z1_PI p' \<and> m' = m \<and> (\<forall>q. fifo_run es q = Some q)"
proof (cases p)
  case (Producer x)
  show ?thesis
  proof (cases "p_pc x")
    case PGen
    obtain t r where g: "generate_random_string (p_task x) (TASK_LEN - 1) (p_rng x) = (t, r)"
      by fastforce
    have "is_text 10 t"
      using generate_random_string_text [of "p_task x" 10 "p_rng x"] g Producer assms(3)
      by (simp add: TASK_LEN_def)
    with g Producer PGen assms show ?thesis
      by (auto simp: z1_step_defs is_text_def TASK_LEN_def split: if_splits)
  qed (use Producer assms in \<open>auto simp: z1_step_defs split: prod.splits dest!: sem_wait_SomeD\<close>)
next
  case (Consumer x)
  with assms show ?thesis
    by (cases "c_pc x") (auto simp: z1_step_defs print_loop_text dest!: sem_wait_SomeD)
qed

lemma z1_run_frame:
  assumes "\<forall>q. fifo_run es q = Some q"
  shows "fifo_run (h @ es) q = fifo_run h q"
  using assms by (auto simp: fifo_run_append split: option.splits)

lemma z1_frame:
  assumes "\<forall>q. fifo_run es q = Some q"
  shows "z1_RI m (h @ es) = z1_RI m h" and "z1_LI q m (h @ es) = z1_LI q m h"
proof -
  show RI: "z1_RI m (h @ es) = z1_RI m h"
    by (simp add: z1_RI_def z1_run_frame [OF assms])
  show "z1_LI q m (h @ es) = z1_LI q m h"
    by (cases q) (auto simp: RI z1_run_frame [OF assms] split: z1_ppc.splits)
qed

lemma z1_enter:
  assumes "z1_step p v m = Some (es, p', v', m')" "\<not> z1_cs p" "z1_PI p" "z1_cs p'" "z1_RI m h"
  shows "z1_LI p' m' (h @ es)"
proof (cases p)
  case (Producer x)
  with assms show ?thesis
    by (cases "p_pc x") (auto simp: z1_step_defs Let_def split: if_splits prod.splits)
next
  case (Consumer x)
  with assms show ?thesis by (cases "c_pc x") (auto simp: z1_step_defs)
qed

text \<open>Inside the critical section.\<close>

lemma z1_run_length:
  "fifo_run h ([], 0) = Some (q, n) \<Longrightarrow>
     length (z1_inserted h) = length (z1_taken h) + length q \<and> n = length (z1_inserted h)"
  using fifo_run_contents [of h "[]" 0 q n] fifo_run_count [of h "[]" 0 q n] by simp

lemma z1_inside_producer:
  assumes st: "z1_producer_step x v m = Some (es, x', v', m')"
    and LI: "z1_LI (Producer x) m h" and cs: "z1_cs (Producer x)"
    and room: "v Empty + length (z1_inserted h) + (z1_tok (Producer x) - z1_hold (Producer x))
                 \<le> z1_K + length (z1_taken h)"
  shows "if z1_cs (Producer x') then z1_LI (Producer x') m' (h @ es)
         else z1_RI m' (h @ es) \<and> z1_PI (Producer x')"
proof -
  have t: "is_text 10 (p_task x)" using LI by simp
  from cs consider "p_pc x = PCopy" | "p_pc x = PLog" | "p_pc x = PAdvance" | "p_pc x = PPostMutex"
    by auto
  then show ?thesis
  proof cases
    case 1
    with LI obtain q n where q: "fifo_run h ([], 0) = Some (q, n)" "z1_ring_ok m q n"
      by (auto simp: z1_RI_def)
    have "length q < z1_K" using room 1 z1_run_length [OF q(1)] by simp
    with q(2) t have "z1_ring_ok m' q n \<and> z1_buffer m' ! z1_tail m' = p_task x"
      using 1 st text_ring_write [of z1_K "z1_buffer m" "z1_head m" "z1_tail m" q "p_task x"]
      by (auto simp: z1_producer_step_def z1_ring_ok_def)
    with 1 st q(1) t show ?thesis by (auto simp: z1_producer_step_def z1_RI_def)
  next
    case 2
    with LI obtain q n where q: "fifo_run h ([], 0) = Some (q, n)" "z1_ring_ok m q n"
      "z1_buffer m ! z1_tail m = p_task x"
      by (auto simp: z1_RI_def)
    have "length q < z1_K" using room 2 z1_run_length [OF q(1)] by simp
    with 2 st q t show ?thesis
      by (auto simp: z1_producer_step_def fifo_run_append z1_ring_ok_def)
  next
    case 3
    with LI obtain q n where q: "fifo_run h ([], 0) = Some (q @ [p_task x], Suc n)" "z1_ring_ok m q n"
      "length q < z1_K" "z1_buffer m ! z1_tail m = p_task x"
      by auto
    then have "z1_ring_ok m' (q @ [p_task x]) (Suc n)"
      using 3 st t text_ring_advance_tail [of z1_K "z1_buffer m" "z1_head m" "z1_tail m" q "p_task x"]
      by (auto simp: z1_producer_step_def z1_ring_ok_def mod_Suc_eq)
    with 3 st q(1) t show ?thesis by (auto simp: z1_producer_step_def z1_RI_def)
  next
    case 4
    with LI st t show ?thesis by (auto simp: z1_producer_step_def is_text_def TASK_LEN_def)
  qed
qed

lemma z1_inside_consumer:
  assumes st: "z1_consumer_step x v m = Some (es, x', v', m')"
    and LI: "z1_LI (Consumer x) m h" and cs: "z1_cs (Consumer x)"
    and some: "v Full + z1_hold (Consumer x) + length (z1_taken h) \<le> length (z1_inserted h)"
  shows "if z1_cs (Consumer x') then z1_LI (Consumer x') m' (h @ es)
         else z1_RI m' (h @ es) \<and> z1_PI (Consumer x')"
proof -
  obtain q n where q: "fifo_run h ([], 0) = Some (q, n)" "z1_ring_ok m q n"
    using LI by (auto simp: z1_RI_def)
  from cs consider "c_pc x = CCopy" | "c_pc x = CAdvance" | "c_pc x = CPostMutex" by auto
  then show ?thesis
  proof cases
    case 1
    have "q \<noteq> []" using some 1 z1_run_length [OF q(1)] by auto
    with 1 st LI q(2) show ?thesis
      using text_ring_read [of z1_K "z1_buffer m" "z1_head m" "z1_tail m" q]
      by (auto simp: z1_consumer_step_def z1_ring_ok_def)
  next
    case 2
    have ne: "q \<noteq> []" using some 2 z1_run_length [OF q(1)] by auto
    have "z1_ring_ok m' (tl q) n" "c_task x = hd q"
      using 2 st LI q(2) ne text_ring_read(3) [of z1_K "z1_buffer m" "z1_head m" "z1_tail m" q]
        text_ring_advance_head [of z1_K "z1_buffer m" "z1_head m" "z1_tail m" q]
      by (auto simp: z1_consumer_step_def z1_ring_ok_def)
    with 2 st LI ne q(1) show ?thesis
      by (auto simp: z1_consumer_step_def z1_RI_def fifo_run_append)
  next
    case 3
    with LI st show ?thesis by (auto simp: z1_consumer_step_def)
  qed
qed

lemma z1_blocked:
  assumes "z1_step p v m = None"
  shows "z1_ended p \<or> (\<exists>k. z1_waits p = Some k \<and> v k = 0)"
proof (cases p)
  case (Producer x)
  with assms show ?thesis
    by (cases "p_pc x") (auto simp: z1_step_defs split: if_splits prod.splits)
next
  case (Consumer x)
  with assms show ?thesis by (cases "c_pc x") (auto simp: z1_step_defs)
qed

lemma z1_hold_le_tok: "z1_hold p \<le> z1_tok p"
proof (cases p)
  case (Producer x)
  then show ?thesis by (cases "p_pc x") simp_all
next
  case (Consumer x)
  then show ?thesis by (cases "c_pc x") simp_all
qed

lemma z1_waits_outside:
  assumes "z1_waits p = Some k"
  shows "\<not> z1_cs p \<and> (k \<noteq> Mutex \<longrightarrow> z1_tok p = 0)"
proof (cases p)
  case (Producer x)
  with assms show ?thesis by (cases "p_pc x") auto
next
  case (Consumer x)
  with assms show ?thesis by (cases "c_pc x") auto
qed

interpretation z1: sem_buffer_progress z1_step z1_cs z1_tok z1_hold
    "\<lambda>h. length (z1_taken h)" "\<lambda>h. length (z1_inserted h)" z1_K z1_RI z1_LI z1_PI z1_waits z1_ended
proof unfold_locales
  fix p v m es p' v' m' h
  assume st: "z1_step p v m = Some (es, p', v', m')"
  note l = z1_ledgers [OF st]
  show "v' Mutex + one_if (z1_cs p') + 1 = v Mutex + one_if (z1_cs p) + 1"
    and "v' Empty + v' Full + z1_tok p' + z1_K = v Empty + v Full + z1_tok p + z1_K"
    and "v' Full + length (z1_taken (h @ es)) + z1_hold p' + length (z1_inserted h) =
         v Full + length (z1_taken h) + z1_hold p + length (z1_inserted (h @ es))"
    using l by simp_all
  assume out: "\<not> z1_cs p" and PI: "z1_PI p"
  show "z1_LI p' m' (h @ es)" if "z1_cs p'" "z1_RI m h"
    by (rule z1_enter [OF st out PI that])
  assume "\<not> z1_cs p'"
  from z1_outside [OF st out PI this]
  show "z1_PI p' \<and> m' = m \<and> (z1_RI m h \<longrightarrow> z1_RI m (h @ es)) \<and>
      (\<forall>q. z1_LI q m h \<longrightarrow> z1_LI q m (h @ es))"
    by (simp add: z1_frame)
next
  fix p v m es p' v' m' h
  assume st: "z1_step p v m = Some (es, p', v', m')" and a: "z1_cs p" "z1_LI p m h"
    "v Empty + length (z1_inserted h) + (z1_tok p - z1_hold p) \<le> z1_K + length (z1_taken h)"
    "v Full + z1_hold p + length (z1_taken h) \<le> length (z1_inserted h)"
  show "if z1_cs p' then z1_LI p' m' (h @ es) else z1_RI m' (h @ es) \<and> z1_PI p'"
  proof (cases p)
    case (Producer x)
    with st obtain x' where x': "p' = Producer x'" "z1_producer_step x v m = Some (es, x', v', m')"
      by (auto simp: z1_step_def)
    show ?thesis
      unfolding x'(1) by (rule z1_inside_producer [OF x'(2)]) (use a in \<open>simp_all only: Producer\<close>)
  next
    case (Consumer x)
    with st obtain x' where x': "p' = Consumer x'" "z1_consumer_step x v m = Some (es, x', v', m')"
      by (auto simp: z1_step_def)
    show ?thesis
      unfolding x'(1) by (rule z1_inside_consumer [OF x'(2)]) (use a in \<open>simp_all only: Consumer\<close>)
  qed
next
  show "z1_hold p \<le> z1_tok p" for p by (rule z1_hold_le_tok)
  show "z1_ended p \<or> (\<exists>k. z1_waits p = Some k \<and> v k = 0)" if "z1_step p v m = None" for p v m
    using that by (rule z1_blocked)
  show "\<not> z1_cs p \<and> (k \<noteq> Mutex \<longrightarrow> z1_tok p = 0)" if "z1_waits p = Some k" for p k
    using that by (rule z1_waits_outside)
  show "\<not> z1_cs p \<and> z1_tok p = 0" if "z1_ended p" for p
    using that by (cases p) auto
qed

section \<open>What was generated, inserted, taken and printed\<close>

definition z1_generated :: "z1_event list \<Rightarrow> char list list" where
  "z1_generated h = concat (map (\<lambda>e. case e of Generated t \<Rightarrow> [t] | _ \<Rightarrow> []) h)"

definition z1_printed :: "z1_event list \<Rightarrow> string option list" where
  "z1_printed h = concat (map (\<lambda>e. case e of Printed r \<Rightarrow> [r] | _ \<Rightarrow> []) h)"

lemma z1_output_simps [simp]:
  "z1_generated [] = []" "z1_printed [] = []"
  "z1_generated (h @ h') = z1_generated h @ z1_generated h'"
  "z1_printed (h @ h') = z1_printed h @ z1_printed h'"
  "z1_generated (e # h) = (case e of Generated t \<Rightarrow> [t] | _ \<Rightarrow> []) @ z1_generated h"
  "z1_printed (e # h) = (case e of Printed r \<Rightarrow> [r] | _ \<Rightarrow> []) @ z1_printed h"
  by (simp_all add: z1_generated_def z1_printed_def)

text \<open>The insertions a producer has done, the text it has not inserted, the text not printed.\<close>

primrec z1_done :: "z1_proc \<Rightarrow> nat" where
  "z1_done (Producer p) = p_i p + one_if (p_pc p \<in> {PAdvance, PPostMutex, PPostFull, PSleep})"
| "z1_done (Consumer c) = 0"

primrec z1_unsent :: "z1_proc \<Rightarrow> char list multiset" where
  "z1_unsent (Producer p) =
     (if p_pc p \<in> {PWaitEmpty, PWaitMutex, PCopy, PLog} then {#p_task p#} else {#})"
| "z1_unsent (Consumer c) = {#}"

primrec z1_unprinted :: "z1_proc \<Rightarrow> string option multiset" where
  "z1_unprinted (Producer p) = {#}"
| "z1_unprinted (Consumer c) =
     (if c_pc c \<in> {CPostMutex, CPostEmpty, CPrint} then {#print_loop 0 (c_task c)#} else {#})"

primrec z1_round_ok :: "z1_proc \<Rightarrow> bool" where
  "z1_round_ok (Producer p) \<longleftrightarrow> p_i p \<le> 10 \<and> (p_pc p \<notin> {PGen, PEnd} \<longrightarrow> p_i p < 10) \<and>
     (p_pc p = PEnd \<longrightarrow> p_i p = 10)"
| "z1_round_ok (Consumer c) \<longleftrightarrow> True"

lemma z1_flow:
  assumes "z1_step p v m = Some (es, p', v', m')"
  shows "z1_done p' = z1_done p + length (z1_inserted es) \<and>
    mset (z1_inserted es) + z1_unsent p' = z1_unsent p + mset (z1_generated es) \<and>
    mset (z1_printed es) + z1_unprinted p' = z1_unprinted p + mset (map (print_loop 0) (z1_taken es)) \<and>
    (z1_round_ok p \<longrightarrow> z1_round_ok p')"
proof (cases p)
  case (Producer x)
  with assms show ?thesis
    by (cases "p_pc x") (auto simp: z1_step_defs split: if_splits prod.splits)
next
  case (Consumer x)
  with assms show ?thesis
    by (cases "c_pc x") (auto simp: z1_step_defs)
qed

interpretation z1_rounds: ledger z1_step "\<lambda>_ _. 0" z1_done "\<lambda>_ h. length (z1_inserted h)"
  by unfold_locales (use z1_flow in \<open>fastforce\<close>)

interpretation z1_sending: ledger z1_step "\<lambda>_ h. mset (z1_inserted h)" z1_unsent
    "\<lambda>_ h. mset (z1_generated h)"
  by unfold_locales (use z1_flow in \<open>fastforce simp: ac_simps\<close>)

interpretation z1_printing: ledger z1_step "\<lambda>_ h. mset (z1_printed h)" z1_unprinted
    "\<lambda>_ h. mset (map (print_loop 0) (z1_taken h))"
  by unfold_locales (use z1_flow in \<open>fastforce simp: ac_simps\<close>)

interpretation z1_round: local_invariant z1_step z1_round_ok
  by unfold_locales (use z1_flow in blast)

lemma fifo_run_generated:
  "fifo_run h q0 = Some q \<Longrightarrow> t \<in> set (z1_generated h) \<Longrightarrow> is_text 10 t"
proof (induction h arbitrary: q0)
  case Nil
  then show ?case by simp
next
  case (Cons e h)
  obtain q1 n1 where "q0 = (q1, n1)" by fastforce
  with Cons show ?case by (cases e) (auto split: if_splits)
qed

section \<open>Facts about every reachable state\<close>

lemma z1_fresh_simps:
  assumes "z1_fresh p"
  shows "\<not> z1_cs p" "z1_tok p = 0" "z1_PI p" "z1_done p = 0" "z1_unsent p = {#}"
    "z1_unprinted p = {#}" "z1_round_ok p"
  using assms by (cases p; simp)+

lemma z1_started: "\<forall>p \<in> set ps. z1_fresh p \<Longrightarrow> z1.started (z1_start ps)"
proof -
  have "z1_ring_ok z1_mem0 [] 0"
    by (simp add: z1_ring_ok_def z1_mem0_def z1_K_def text_ring_empty)
  then have "z1_RI z1_mem0 []" by (auto simp: z1_RI_def)
  then show "\<forall>p \<in> set ps. z1_fresh p \<Longrightarrow> z1.started (z1_start ps)"
    by (simp add: z1.started_def z1_start_def z1_fresh_simps)
qed

lemma z1_flow_reach:
  assumes r: "sreach z1_step (z1_start ps) s" and f: "\<forall>p \<in> set ps. z1_fresh p"
  shows "sum_list (map z1_done (procs s)) = length (z1_inserted (hist s))"
    and "mset (z1_inserted (hist s)) + sum_list (map z1_unsent (procs s)) = mset (z1_generated (hist s))"
    and "mset (z1_printed (hist s)) + sum_list (map z1_unprinted (procs s))
           = mset (map (print_loop 0) (z1_taken (hist s)))"
    and "\<forall>p \<in> set (procs s). z1_round_ok p"
proof -
  have z: "sum_list (map z1_done ps) = 0" "sum_list (map z1_unsent ps) = {#}"
    "sum_list (map z1_unprinted ps) = {#}"
    using f by (auto intro!: sum_list_map_zero simp: z1_fresh_simps)
  have "0 + sum_list (map z1_done (procs s)) = length (z1_inserted (hist s))"
    by (rule z1_rounds.ledger_reach [OF r]) (simp add: z1_start_def z)
  then show "sum_list (map z1_done (procs s)) = length (z1_inserted (hist s))" by simp
  show "mset (z1_inserted (hist s)) + sum_list (map z1_unsent (procs s)) = mset (z1_generated (hist s))"
    by (rule z1_sending.ledger_reach [OF r]) (simp add: z1_start_def z)
  show "mset (z1_printed (hist s)) + sum_list (map z1_unprinted (procs s))
           = mset (map (print_loop 0) (z1_taken (hist s)))"
    by (rule z1_printing.ledger_reach [OF r]) (simp add: z1_start_def z)
  show "\<forall>p \<in> set (procs s). z1_round_ok p"
    by (rule z1_round.local_reach [OF r]) (simp add: z1_start_def f z1_fresh_simps)
qed

text \<open>The history is accepted by the abstract queue, also in the middle of a critical section.\<close>

lemma z1_LI_accepted: "z1_LI p m h \<Longrightarrow> \<exists>q n. fifo_run h ([], 0) = Some (q, n) \<and> (\<forall>t \<in> set q. is_text 10 t)"
proof (cases p)
  case (Producer x)
  assume "z1_LI p m h"
  with Producer show ?thesis
    by (cases "p_pc x = PAdvance") (fastforce simp: z1_RI_def z1_ring_ok_def text_ring_def split: z1_ppc.splits)+
next
  case (Consumer x)
  assume "z1_LI p m h"
  with Consumer show ?thesis by (auto simp: z1_RI_def z1_ring_ok_def text_ring_def)
qed

lemma z1_accepted:
  assumes "sreach z1_step (z1_start ps) s" "\<forall>p \<in> set ps. z1_fresh p"
  shows "\<exists>q n. fifo_run (hist s) ([], 0) = Some (q, n) \<and> (\<forall>t \<in> set q. is_text 10 t) \<and>
    (sem s Mutex \<noteq> 0 \<longrightarrow> z1_ring_ok (mem s) q n)"
proof -
  note st = z1_started [OF assms(2)]
  have d: "z1.data_ok s" by (rule z1.data_reach [OF assms(1) st])
  show ?thesis
  proof (cases "\<exists>p \<in> set (procs s). z1_cs p")
    case True
    then obtain i where i: "i < length (procs s)" "z1_cs (procs s ! i)" by (auto simp: in_set_conv_nth)
    then have "z1_LI (procs s ! i) (mem s) (hist s)" using d nth_mem by (auto simp: z1.data_ok_def)
    moreover have "sem s Mutex = 0" by (rule z1.cs_mutex_0 [OF z1.counts_reach [OF assms(1) st] i])
    ultimately show ?thesis using z1_LI_accepted by auto
  next
    case False
    with d have "z1_RI (mem s) (hist s)" by (simp add: z1.data_ok_def)
    then show ?thesis by (auto simp: z1_RI_def z1_ring_ok_def text_ring_def)
  qed
qed

lemma z1_start_length: "sreach z1_step (z1_start ps) s \<Longrightarrow> length (procs s) = length ps"
  by (drule sreach_length) (simp add: z1_start_def)

text \<open>Which of the two programs a process runs.\<close>

primrec z1_is_producer :: "z1_proc \<Rightarrow> bool" where
  "z1_is_producer (Producer p) = True"
| "z1_is_producer (Consumer c) = False"

text \<open>Every text inserted was generated.\<close>

lemma z1_inserted_text:
  assumes "sreach z1_step (z1_start ps) s" "\<forall>p \<in> set ps. z1_fresh p" "t \<in> set (z1_inserted (hist s))"
  shows "is_text 10 t"
proof -
  obtain q n where q: "fifo_run (hist s) ([], 0) = Some (q, n)" using z1_accepted [OF assms(1,2)] by blast
  have "mset (z1_inserted (hist s)) \<subseteq># mset (z1_generated (hist s))"
    using z1_flow_reach(2) [OF assms(1,2)] by (metis mset_subset_eq_add_left)
  with assms(3) have "t \<in> set (z1_generated (hist s))" by (auto dest: mset_subset_eqD)
  with fifo_run_generated [OF q] show ?thesis .
qed

lemma z1_cs_tok: "z1_tok p = 0 \<Longrightarrow> \<not> z1_cs p"
  by (cases p) auto

section \<open>Concrete runs\<close>

text \<open>One round of the producer followed by one round of the consumer.\<close>

definition z1_round_trip :: "action list" where
  "z1_round_trip = replicate 9 (Run 0) @ replicate 7 (Run 1)"

definition z1_full_run :: "action list" where
  "z1_full_run = concat (replicate 10 z1_round_trip) @ [Run 0]"

definition z1_demo_procs :: "z1_proc list" where
  "z1_demo_procs =
     [Producer \<lparr>p_pc = PGen, p_i = 0, p_task = replicate 11 NUL,
                p_rng = \<lparr>rand_vals = (\<lambda>n. 7 * n), rand_pos = 0\<rparr>\<rparr>,
      Consumer \<lparr>c_pc = CWaitFull, c_task = replicate 11 NUL\<rparr>]"

lemma z1_demo_fresh: "\<forall>p \<in> set z1_demo_procs. z1_fresh p"
  by (simp add: z1_demo_procs_def TASK_LEN_def)

section \<open>Properties\<close>

text \<open>
  C1. Refinement: whatever the interleaving of any number of producers and consumers, and
  whichever of them are ended by signals, the history of the system is one the abstract
  bounded FIFO queue accepts: a text is inserted only while fewer than K texts are queued,
  into the slot the queue assigns, texts are taken in the order they were inserted, no
  consumer reads past the end of a text, and whenever the mutex is free the array and the
  two indices of the shared memory hold exactly the queued texts.
\<close>

theorem z1_refines_fifo:
  assumes "sreach z1_step (z1_start ps) s" and "\<forall>p \<in> set ps. z1_fresh p"
  shows "\<exists>q n. fifo_run (hist s) ([], 0) = Some (q, n) \<and>
           z1_inserted (hist s) = z1_taken (hist s) @ q \<and> length q \<le> z1_K \<and>
           (sem s Mutex \<noteq> 0 \<longrightarrow> z1_ring_ok (mem s) q n)"
proof -
  obtain q n where q: "fifo_run (hist s) ([], 0) = Some (q, n)"
    and ring: "sem s Mutex \<noteq> 0 \<longrightarrow> z1_ring_ok (mem s) q n"
    using z1_accepted [OF assms] by blast
  have "length (z1_inserted (hist s)) \<le> z1_K + length (z1_taken (hist s))"
    using z1.items_le_cap [OF z1.counts_reach [OF assms(1) z1_started [OF assms(2)]]] by simp
  with q ring fifo_run_contents [OF q] show ?thesis by auto
qed

theorem z1_refines_fifo_witness:
  "\<exists>s. sreach z1_step (z1_start z1_demo_procs) s \<and> length (hist s) = 4 \<and> sem s Mutex = 1 \<and>
      (\<exists>q n. fifo_run (hist s) ([], 0) = Some (q, n) \<and> z1_inserted (hist s) = z1_taken (hist s) @ q \<and>
         length q \<le> z1_K \<and> z1_ring_ok (mem s) q n)"
proof -
  have "case run_sched z1_step z1_round_trip (z1_start z1_demo_procs) of
      None \<Rightarrow> False | Some s \<Rightarrow> length (hist s) = 4 \<and> sem s Mutex = 1" by code_simp
  then obtain s where "sreach z1_step (z1_start z1_demo_procs) s" "length (hist s) = 4 \<and> sem s Mutex = 1"
    by (rule run_sched_reaches)
  with z1_refines_fifo [OF _ z1_demo_fresh] show ?thesis by fastforce
qed

text \<open>
  Mutual exclusion: at most one process is between \<open>sem_wait(mutex)\<close> and
  \<open>sem_post(mutex)\<close>, and while one is, the value of the mutex is zero.
\<close>

theorem z1_mutual_exclusion:
  assumes "sreach z1_step (z1_start ps) s" and "\<forall>p \<in> set ps. z1_fresh p"
    and "i < length ps" "z1_cs (procs s ! i)"
  shows "sem s Mutex = 0 \<and> (\<forall>j < length ps. z1_cs (procs s ! j) \<longrightarrow> j = i)"
proof -
  have c: "z1.counts_ok s" by (rule z1.counts_reach [OF assms(1) z1_started [OF assms(2)]])
  have l: "length (procs s) = length ps" by (rule z1_start_length [OF assms(1)])
  with z1.cs_mutex_0 [OF c] z1.cs_unique [OF c] assms(3,4) show ?thesis by simp
qed

theorem z1_mutual_exclusion_witness:
  "\<exists>s. sreach z1_step (z1_start z1_demo_procs) s \<and> z1_cs (procs s ! 0) \<and> sem s Mutex = 0"
proof -
  have "case run_sched z1_step (replicate 4 (Run 0)) (z1_start z1_demo_procs) of
      None \<Rightarrow> False | Some s \<Rightarrow> z1_cs (procs s ! 0)" by code_simp
  then obtain s where r: "sreach z1_step (z1_start z1_demo_procs) s" and c: "z1_cs (procs s ! 0)"
    by (rule run_sched_reaches)
  have "0 < length z1_demo_procs" by (simp add: z1_demo_procs_def)
  from z1_mutual_exclusion [OF r z1_demo_fresh this c] r c show ?thesis by blast
qed

text \<open>
  C8. Delivery and absence of deadlock: suppose no living process can move, a consumer is
  alive, and the processes that signals have ended were ended while they held no slot (a
  producer before \<open>sem_wait(empty)\<close> or after \<open>sem_post(full)\<close>, a consumer before
  \<open>sem_wait(full)\<close> or after \<open>sem_post(empty)\<close>).  Then every living producer has done its ten
  rounds, everything inserted has been taken, in order, and what the consumers printed is
  exactly what was inserted; only a text that an ended producer had generated and not
  inserted, or an ended consumer had taken and not printed, is missing.  Without signals
  there are no ended processes, the sums over them are zero, and everything generated is
  printed.
\<close>

theorem z1_delivery:
  assumes "sreach z1_step (z1_start ps) s" and "\<forall>p \<in> set ps. z1_fresh p"
    and "stuck z1_step s" and "\<exists>p \<in> set (alive s). \<not> z1_is_producer p"
    and "\<forall>p \<in> set (dead s). z1_tok p = 0"
  shows "length (z1_inserted (hist s)) = 10 * length (filter z1_is_producer (alive s)) + sum_list (map z1_done (dead s)) \<and>
    z1_taken (hist s) = z1_inserted (hist s) \<and>
    mset (z1_generated (hist s)) = mset (z1_inserted (hist s)) + sum_list (map z1_unsent (dead s)) \<and>
    mset (z1_printed (hist s)) + sum_list (map z1_unprinted (dead s))
      = mset (map (\<lambda>t. Some (take 10 t)) (z1_inserted (hist s)))"
proof -
  let ?P = z1_is_producer and ?h = "hist s"
  note st = z1_started [OF assms(2)] and fl = z1_flow_reach [OF assms(1,2)]
  have none: "z1_step p (sem s) (mem s) = None" if "p \<in> set (alive s)" for p
    using assms(3) that by (simp add: stuck_def)
  have d: "\<forall>p \<in> set (dead s). \<not> z1_cs p \<and> z1_tok p = 0" using assms(5) z1_cs_tok by blast
  have a: "\<forall>p \<in> set (alive s). z1_step p (sem s) (mem s) = None \<or> \<not> z1_cs p \<and> z1_tok p = 0"
    using none by blast
  note rest = z1.at_rest [OF assms(1) st d a]
  have at: "z1_ended p \<or> z1_waits p = Some Empty \<and> sem s Empty = 0 \<or> z1_waits p = Some Full \<and> sem s Full = 0"
    if "p \<in> set (alive s)" for p
    using rest(4) [OF _ none [OF that]] that set_procs [of s] by blast
  obtain c where "Consumer c \<in> set (alive s)"
    using assms(4) by (metis (full_types) z1_is_producer.simps(1) z1_proc.exhaust)
  from at [OF this] have full: "sem s Full = 0" by (auto split: z1_cpc.splits)
  then have ne: "sem s Empty \<noteq> 0" using rest(2) by (simp add: z1_K_def)
  have loc: "z1_done p = (if ?P p then 10 else 0) \<and> z1_unsent p = {#} \<and> z1_unprinted p = {#}"
    if "p \<in> set (alive s)" for p
  proof -
    have "z1_round_ok p" using fl(4) that by (simp add: set_procs)
    then show ?thesis using at [OF that] ne by (cases p) (auto split: z1_ppc.splits z1_cpc.splits)
  qed
  have ins: "length (z1_inserted ?h) = 10 * length (filter ?P (alive s)) + sum_list (map z1_done (dead s))"
    using fl(1) sum_list_map_count [of "alive s" z1_done ?P 10] loc by (simp add: sum_procs)
  obtain q n where q: "fifo_run ?h ([], 0) = Some (q, n)" using z1_accepted [OF assms(1,2)] by blast
  have tk: "z1_taken ?h = z1_inserted ?h" using fifo_run_contents [OF q] rest(3) full by simp
  have gen: "mset (z1_generated ?h) = mset (z1_inserted ?h) + sum_list (map z1_unsent (dead s))"
    using fl(2) sum_list_map_zero [of "alive s" z1_unsent] loc by (simp add: sum_procs)
  have "mset (z1_printed ?h) + sum_list (map z1_unprinted (dead s)) = image_mset (print_loop 0) (mset (z1_inserted ?h))"
    using fl(3) sum_list_map_zero [of "alive s" z1_unprinted] loc tk by (simp add: sum_procs)
  also have "\<dots> = image_mset (\<lambda>t. Some (take 10 t)) (mset (z1_inserted ?h))"
    by (rule image_mset_cong) (use z1_inserted_text [OF assms(1,2)] print_loop_text in auto)
  finally show ?thesis using ins tk gen by simp
qed

text \<open>A second producer is ended by a signal when it has generated a text and is about to wait for a slot.\<close>

definition z1_three_procs :: "z1_proc list" where
  "z1_three_procs = z1_demo_procs @ [hd z1_demo_procs]"

primrec z1_waiting_at_start :: "z1_proc \<Rightarrow> bool" where
  "z1_waiting_at_start (Producer p) \<longleftrightarrow> p_pc p = PWaitEmpty \<and> p_i p = 0"
| "z1_waiting_at_start (Consumer c) \<longleftrightarrow> False"

fun z1_one_dead :: "z1_proc list \<Rightarrow> z1_proc list \<Rightarrow> bool" where
  "z1_one_dead [p, c] [k] \<longleftrightarrow> z1_is_producer p \<and> \<not> z1_is_producer c \<and> z1_waiting_at_start k"
| "z1_one_dead _ _ \<longleftrightarrow> False"

fun_cases z1_one_deadE: "z1_one_dead ps ks"

theorem z1_delivery_witness:
  "\<exists>s. sreach z1_step (z1_start z1_three_procs) s \<and> length (z1_inserted (hist s)) = 10 \<and>
       z1_taken (hist s) = z1_inserted (hist s) \<and> length (z1_generated (hist s)) = 11 \<and>
       mset (z1_printed (hist s)) = mset (map (\<lambda>t. Some (take 10 t)) (z1_inserted (hist s)))"
proof -
  have "case run_sched z1_step ([Run 2, Kill 2] @ z1_full_run) (z1_start z1_three_procs) of
      None \<Rightarrow> False | Some s \<Rightarrow> stuck z1_step s \<and> z1_one_dead (alive s) (dead s)" by code_simp
  then obtain s where r: "sreach z1_step (z1_start z1_three_procs) s"
    and s: "stuck z1_step s \<and> z1_one_dead (alive s) (dead s)" by (rule run_sched_reaches)
  from s obtain p c k where p: "alive s = [p, c]" "z1_is_producer p" "\<not> z1_is_producer c"
    and k: "dead s = [k]" "z1_waiting_at_start k" by (auto elim!: z1_one_deadE)
  have z: "z1_tok k = 0" "z1_done k = 0" "size (z1_unsent k) = 1" "z1_unprinted k = {#}"
    using k(2) by (cases k; simp)+
  have f: "\<forall>p \<in> set z1_three_procs. z1_fresh p"
    using z1_demo_fresh by (simp add: z1_three_procs_def z1_demo_procs_def)
  have d: "length (z1_inserted (hist s)) = 10" "z1_taken (hist s) = z1_inserted (hist s)"
    "mset (z1_generated (hist s)) = mset (z1_inserted (hist s)) + z1_unsent k"
    "mset (z1_printed (hist s)) = mset (map (\<lambda>t. Some (take 10 t)) (z1_inserted (hist s)))"
    using z1_delivery [OF r f conjunct1 [OF s]] p k z by simp_all
  have "length (z1_generated (hist s)) = 11" using arg_cong [OF d(3), of size] d(1) z(3) by simp
  with d r show ?thesis by blast
qed

text \<open>
  A signal in the critical section: when process \<open>i\<close> has been ended between
  \<open>sem_wait(mutex)\<close> and \<open>sem_post(mutex)\<close>, the mutex is zero in every later state and no
  other process ever enters its critical section.  The handlers of the programs close
  their semaphores and do not post them.
\<close>

theorem z1_killed_in_cs_blocks_all:
  assumes "sreach z1_step (z1_start ps) s" and "\<forall>p \<in> set ps. z1_fresh p"
    and "i \<in> killed s" "i < length ps" "z1_cs (procs s ! i)" and "sreach z1_step s t"
  shows "sem t Mutex = 0 \<and> (\<forall>j < length ps. j \<noteq> i \<longrightarrow> \<not> z1_cs (procs t ! j))"
proof -
  have l: "length (procs s) = length ps" "length (procs t) = length ps"
    using z1_start_length [OF assms(1)] z1_start_length [OF sreach_trans [OF assms(6,1)]] by simp_all
  note b = z1.killed_in_cs_blocks [OF assms(1) z1_started [OF assms(2)] assms(3) _ assms(5,6)]
  have "sem t Mutex = 0"
    by (rule z1.cs_mutex_0 [OF z1.counts_reach [OF sreach_trans [OF assms(6,1)] z1_started [OF assms(2)]]])
      (use assms l sreach_killed_frozen [OF assms(6,3)] in auto)
  with b(2) l assms(4) show ?thesis by simp
qed

theorem z1_killed_in_cs_blocks_all_witness:
  "\<exists>s. sreach z1_step (z1_start z1_demo_procs) s \<and> 1 \<in> killed s \<and>
     (\<forall>t. sreach z1_step s t \<longrightarrow> sem t Mutex = 0 \<and> \<not> z1_cs (procs t ! 0))"
proof -
  have "case run_sched z1_step (replicate 9 (Run 0) @ replicate 3 (Run 1) @ [Kill 1])
      (z1_start z1_demo_procs) of
      None \<Rightarrow> False | Some s \<Rightarrow> 1 \<in> killed s \<and> z1_cs (procs s ! 1)" by code_simp
  then obtain s where r: "sreach z1_step (z1_start z1_demo_procs) s"
    and c: "1 \<in> killed s \<and> z1_cs (procs s ! 1)" by (rule run_sched_reaches)
  have l: "1 < length z1_demo_procs" "0 < length z1_demo_procs" by (simp_all add: z1_demo_procs_def)
  from z1_killed_in_cs_blocks_all [OF r z1_demo_fresh _ l(1)] c l r show ?thesis by (metis zero_neq_one)
qed

end
