(* ===== verification/Lab5Zad3.thy ===== *)
theory Lab5Zad3
  imports Lab5Common
begin

text \<open>
  lab5/zad2 and lab5/zad3: two circular queues (PRIORITY and NORMAL) behind the same three
  semaphores, and in zad3 the manager that ages NORMAL texts and monitors the counters.
  \<open>producer.c\<close>, \<open>consumer.c\<close> and \<open>common.h\<close> of the two directories are the same programs
  (only the names of the kernel objects differ), so zad2 is the system without a manager.
  Counts are the C \<open>int\<close>s; indices are natural numbers, as they only ever hold the value of
  an expression \<open>(i + 1) % K\<close> or the initial zero.
\<close>

section \<open>The shared memory and the processes\<close>

definition z3_K :: nat where "z3_K = 10"

record z3_shm =
  priority_queue :: "char list list"
  priority_head :: nat
  priority_tail :: nat
  priority_count :: int
  normal_queue :: "char list list"
  normal_head :: nat
  normal_tail :: nat
  normal_count :: int

text \<open>The boolean of an event tells the PRIORITY queue from the NORMAL one.\<close>

datatype z3_event =
    ZCreated bool "char list"
  | ZInserted bool "char list"
  | ZTaken bool "char list"
  | ZPrinted bool "string option"
  | ZAged "char list"
  | ZNoAging
  | ZReport nat nat int int bool
  | ZFinished

datatype z3_ppc = QGen | QWaitEmpty | QWaitMutex | QCopy | QAdvance | QCount | QPostMutex | QPostFull | QSleep | QEnd

datatype z3_cpc = DWaitFull | DWaitMutex | DTest | DCopy | DAdvance | DCount | DPostMutex | DPostEmpty | DPrint

datatype z3_mpc = MSleep | MWaitMutex | MTest | MCopy | MAdvance | MDecN | MAppend | MAdvanceP | MIncP
  | MGetEmpty | MGetFull | MReport | MPostMutex

record z3_producer =
  q_pc :: z3_ppc
  q_i :: nat
  q_task :: "char list"
  q_prio :: bool
  q_rng :: rng

record z3_consumer =
  d_pc :: z3_cpc
  d_task :: "char list"
  d_prio :: bool

record z3_manager =
  m_pc :: z3_mpc
  m_aging :: "char list"
  m_empty :: nat
  m_full :: nat

datatype z3_proc = ZProducer z3_producer | ZConsumer z3_consumer | ZManager z3_manager

section \<open>The producer's loop\<close>

definition z3_producer_step ::
    "z3_producer \<Rightarrow> sems \<Rightarrow> z3_shm \<Rightarrow> (z3_event list \<times> z3_producer \<times> sems \<times> z3_shm) option" where
  "z3_producer_step p v m = (case q_pc p of
     QGen \<Rightarrow>
       if q_i p < 15 then
         (let (t, r) = generate_random_string (q_task p) (TASK_LEN - 1) (q_rng p);
              (x, r') = c_rand r;
              prio = (x mod 100 < 30)
          in Some ([ZCreated prio t], p\<lparr>q_task := t, q_prio := prio, q_rng := r', q_pc := QWaitEmpty\<rparr>, v, m))
       else Some ([ZFinished], p\<lparr>q_pc := QEnd\<rparr>, v, m)
   | QWaitEmpty \<Rightarrow> map_option (\<lambda>v'. ([], p\<lparr>q_pc := QWaitMutex\<rparr>, v', m)) (sem_wait Empty v)
   | QWaitMutex \<Rightarrow> map_option (\<lambda>v'. ([], p\<lparr>q_pc := QCopy\<rparr>, v', m)) (sem_wait Mutex v)
   | QCopy \<Rightarrow> Some ([], p\<lparr>q_pc := QAdvance\<rparr>, v,
       if q_prio p
       then m\<lparr>priority_queue := (priority_queue m)[priority_tail m :=
                c_strncpy (priority_queue m ! priority_tail m) (q_task p) TASK_LEN]\<rparr>
       else m\<lparr>normal_queue := (normal_queue m)[normal_tail m :=
                c_strncpy (normal_queue m ! normal_tail m) (q_task p) TASK_LEN]\<rparr>)
   | QAdvance \<Rightarrow> Some ([], p\<lparr>q_pc := QCount\<rparr>, v,
       if q_prio p then m\<lparr>priority_tail := (priority_tail m + 1) mod z3_K\<rparr>
       else m\<lparr>normal_tail := (normal_tail m + 1) mod z3_K\<rparr>)
   | QCount \<Rightarrow> Some ([ZInserted (q_prio p) (q_task p)], p\<lparr>q_pc := QPostMutex\<rparr>, v,
       if q_prio p then m\<lparr>priority_count := priority_count m + 1\<rparr>
       else m\<lparr>normal_count := normal_count m + 1\<rparr>)
   | QPostMutex \<Rightarrow> Some ([], p\<lparr>q_pc := QPostFull\<rparr>, sem_post Mutex v, m)
   | QPostFull \<Rightarrow> Some ([], p\<lparr>q_pc := QSleep\<rparr>, sem_post Full v, m)
   | QSleep \<Rightarrow>
       (let (d, r) = c_rand (q_rng p)
        in Some ([], p\<lparr>q_i := q_i p + 1, q_rng := r, q_pc := QGen\<rparr>, v, m))
   | QEnd \<Rightarrow> None)"

section \<open>The consumer's loop\<close>

text \<open>\<open>d_prio\<close> records the branch taken, which the code keeps as \<open>queue_source\<close>.\<close>

definition z3_consumer_step ::
    "z3_consumer \<Rightarrow> sems \<Rightarrow> z3_shm \<Rightarrow> (z3_event list \<times> z3_consumer \<times> sems \<times> z3_shm) option" where
  "z3_consumer_step c v m = (case d_pc c of
     DWaitFull \<Rightarrow> map_option (\<lambda>v'. ([], c\<lparr>d_pc := DWaitMutex\<rparr>, v', m)) (sem_wait Full v)
   | DWaitMutex \<Rightarrow> map_option (\<lambda>v'. ([], c\<lparr>d_pc := DTest\<rparr>, v', m)) (sem_wait Mutex v)
   | DTest \<Rightarrow> Some ([], c\<lparr>d_prio := (priority_count m > 0), d_pc := DCopy\<rparr>, v, m)
   | DCopy \<Rightarrow> Some ([], c\<lparr>d_pc := DAdvance, d_task :=
       (if d_prio c then c_strncpy (d_task c) (priority_queue m ! priority_head m) TASK_LEN
        else c_strncpy (d_task c) (normal_queue m ! normal_head m) TASK_LEN)\<rparr>, v, m)
   | DAdvance \<Rightarrow> Some ([], c\<lparr>d_pc := DCount\<rparr>, v,
       if d_prio c then m\<lparr>priority_head := (priority_head m + 1) mod z3_K\<rparr>
       else m\<lparr>normal_head := (normal_head m + 1) mod z3_K\<rparr>)
   | DCount \<Rightarrow> Some ([ZTaken (d_prio c) (d_task c)], c\<lparr>d_pc := DPostMutex\<rparr>, v,
       if d_prio c then m\<lparr>priority_count := priority_count m - 1\<rparr>
       else m\<lparr>normal_count := normal_count m - 1\<rparr>)
   | DPostMutex \<Rightarrow> Some ([], c\<lparr>d_pc := DPostEmpty\<rparr>, sem_post Mutex v, m)
   | DPostEmpty \<Rightarrow> Some ([], c\<lparr>d_pc := DPrint\<rparr>, sem_post Empty v, m)
   | DPrint \<Rightarrow> Some ([ZPrinted (d_prio c) (print_loop 0 (d_task c))], c\<lparr>d_pc := DWaitFull\<rparr>, v, m))"

section \<open>The manager's loop\<close>

text \<open>
  \<open>manager.c\<close>: it takes the mutex only, moves the oldest NORMAL text to the PRIORITY queue
  if there is one, reads the two counting semaphores and prints the monitor's report, with
  a warning when the number of queued texts differs from the value of \<open>full\<close>.
\<close>

definition z3_manager_step ::
    "z3_manager \<Rightarrow> sems \<Rightarrow> z3_shm \<Rightarrow> (z3_event list \<times> z3_manager \<times> sems \<times> z3_shm) option" where
  "z3_manager_step a v m = (case m_pc a of
     MSleep \<Rightarrow> Some ([], a\<lparr>m_pc := MWaitMutex\<rparr>, v, m)
   | MWaitMutex \<Rightarrow> map_option (\<lambda>v'. ([], a\<lparr>m_pc := MTest\<rparr>, v', m)) (sem_wait Mutex v)
   | MTest \<Rightarrow>
       if normal_count m > 0 then Some ([], a\<lparr>m_pc := MCopy\<rparr>, v, m)
       else Some ([ZNoAging], a\<lparr>m_pc := MGetEmpty\<rparr>, v, m)
   | MCopy \<Rightarrow> Some ([], a\<lparr>m_aging := c_strncpy (m_aging a) (normal_queue m ! normal_head m) TASK_LEN,
                         m_pc := MAdvance\<rparr>, v, m)
   | MAdvance \<Rightarrow> Some ([], a\<lparr>m_pc := MDecN\<rparr>, v, m\<lparr>normal_head := (normal_head m + 1) mod z3_K\<rparr>)
   | MDecN \<Rightarrow> Some ([], a\<lparr>m_pc := MAppend\<rparr>, v, m\<lparr>normal_count := normal_count m - 1\<rparr>)
   | MAppend \<Rightarrow> Some ([], a\<lparr>m_pc := MAdvanceP\<rparr>, v,
       m\<lparr>priority_queue := (priority_queue m)[priority_tail m :=
           c_strncpy (priority_queue m ! priority_tail m) (m_aging a) TASK_LEN]\<rparr>)
   | MAdvanceP \<Rightarrow> Some ([], a\<lparr>m_pc := MIncP\<rparr>, v, m\<lparr>priority_tail := (priority_tail m + 1) mod z3_K\<rparr>)
   | MIncP \<Rightarrow> Some ([ZAged (m_aging a)], a\<lparr>m_pc := MGetEmpty\<rparr>, v, m\<lparr>priority_count := priority_count m + 1\<rparr>)
   | MGetEmpty \<Rightarrow> Some ([], a\<lparr>m_empty := sem_getvalue Empty v, m_pc := MGetFull\<rparr>, v, m)
   | MGetFull \<Rightarrow> Some ([], a\<lparr>m_full := sem_getvalue Full v, m_pc := MReport\<rparr>, v, m)
   | MReport \<Rightarrow>
       (let total = priority_count m + normal_count m
        in Some ([ZReport (m_empty a) (m_full a) (priority_count m) (normal_count m)
                    (total \<noteq> int (m_full a))], a\<lparr>m_pc := MPostMutex\<rparr>, v, m))
   | MPostMutex \<Rightarrow> Some ([], a\<lparr>m_pc := MSleep\<rparr>, sem_post Mutex v, m))"

definition z3_step :: "(z3_proc, z3_shm, z3_event) pstep" where
  "z3_step p v m = (case p of
     ZProducer x \<Rightarrow> map_option (\<lambda>(es, x', v', m'). (es, ZProducer x', v', m')) (z3_producer_step x v m)
   | ZConsumer x \<Rightarrow> map_option (\<lambda>(es, x', v', m'). (es, ZConsumer x', v', m')) (z3_consumer_step x v m)
   | ZManager x \<Rightarrow> map_option (\<lambda>(es, x', v', m'). (es, ZManager x', v', m')) (z3_manager_step x v m))"

text \<open>
  zad2: the producer and the consumer have the same text there; its shared memory is the
  same record.
\<close>

definition z2_producer_step where "z2_producer_step = z3_producer_step"

definition z2_consumer_step where "z2_consumer_step = z3_consumer_step"

definition z3_mem0 :: z3_shm where
  "z3_mem0 = \<lparr>priority_queue = replicate z3_K (replicate TASK_LEN NUL), priority_head = 0,
     priority_tail = 0, priority_count = 0, normal_queue = replicate z3_K (replicate TASK_LEN NUL),
     normal_head = 0, normal_tail = 0, normal_count = 0\<rparr>"

primrec z3_fresh :: "z3_proc \<Rightarrow> bool" where
  "z3_fresh (ZProducer p) \<longleftrightarrow> q_pc p = QGen \<and> q_i p = 0 \<and> length (q_task p) = TASK_LEN"
| "z3_fresh (ZConsumer c) \<longleftrightarrow> d_pc c = DWaitFull \<and> length (d_task c) = TASK_LEN"
| "z3_fresh (ZManager a) \<longleftrightarrow> m_pc a = MSleep \<and> length (m_aging a) = TASK_LEN"

definition z3_start :: "z3_proc list \<Rightarrow> (z3_proc, z3_shm, z3_event) bsys" where
  "z3_start ps = \<lparr>procs = ps, sem = sems_init z3_K, mem = z3_mem0, hist = [], killed = {}\<rparr>"

section \<open>The abstract pair of queues\<close>

text \<open>
  A pair of FIFO queues of total capacity K.  A consumer takes from NORMAL only when
  PRIORITY is empty; ageing moves the oldest NORMAL text to the end of PRIORITY, and is
  skipped only when NORMAL is empty; a report shows the lengths of the queues, and counter
  values that never exceed what they stand for.
\<close>

fun z3_accept :: "z3_event \<Rightarrow> char list list \<times> char list list \<Rightarrow> (char list list \<times> char list list) option" where
  "z3_accept (ZCreated b t) (p, n) = (if is_text 10 t then Some (p, n) else None)"
| "z3_accept (ZInserted b t) (p, n) =
     (if length p + length n < z3_K then Some (if b then (p @ [t], n) else (p, n @ [t])) else None)"
| "z3_accept (ZTaken b t) (p, n) =
     (if b then (if p \<noteq> [] \<and> hd p = t then Some (tl p, n) else None)
      else if p = [] \<and> n \<noteq> [] \<and> hd n = t then Some (p, tl n) else None)"
| "z3_accept (ZPrinted b r) (p, n) = (if r \<noteq> None then Some (p, n) else None)"
| "z3_accept (ZAged t) (p, n) = (if n \<noteq> [] \<and> hd n = t then Some (p @ [t], tl n) else None)"
| "z3_accept ZNoAging (p, n) = (if n = [] then Some (p, n) else None)"
| "z3_accept (ZReport e f pc nc w) (p, n) =
     (if pc = int (length p) \<and> nc = int (length n) \<and> f \<le> length p + length n \<and>
         e + length p + length n \<le> z3_K \<and> w = (pc + nc \<noteq> int f)
      then Some (p, n) else None)"
| "z3_accept ZFinished (p, n) = Some (p, n)"

fun z3_run :: "z3_event list \<Rightarrow> char list list \<times> char list list \<Rightarrow> (char list list \<times> char list list) option" where
  "z3_run [] q = Some q"
| "z3_run (e # es) q = (case z3_accept e q of None \<Rightarrow> None | Some q' \<Rightarrow> z3_run es q')"

lemma z3_run_append:
  "z3_run (es @ fs) q = (case z3_run es q of None \<Rightarrow> None | Some q' \<Rightarrow> z3_run fs q')"
  by (induction es arbitrary: q) (auto split: option.splits)

section \<open>The protocol of the three loops\<close>

primrec z3_cs :: "z3_proc \<Rightarrow> bool" where
  "z3_cs (ZProducer p) \<longleftrightarrow> q_pc p \<in> {QCopy, QAdvance, QCount, QPostMutex}"
| "z3_cs (ZConsumer c) \<longleftrightarrow> d_pc c \<in> {DTest, DCopy, DAdvance, DCount, DPostMutex}"
| "z3_cs (ZManager a) \<longleftrightarrow> m_pc a \<notin> {MSleep, MWaitMutex}"

primrec z3_tok :: "z3_proc \<Rightarrow> nat" where
  "z3_tok (ZProducer p) =
     one_if (q_pc p \<in> {QWaitMutex, QCopy, QAdvance, QCount, QPostMutex, QPostFull})"
| "z3_tok (ZConsumer c) =
     one_if (d_pc c \<in> {DWaitMutex, DTest, DCopy, DAdvance, DCount, DPostMutex, DPostEmpty})"
| "z3_tok (ZManager a) = 0"

primrec z3_hold :: "z3_proc \<Rightarrow> nat" where
  "z3_hold (ZProducer p) = one_if (q_pc p \<in> {QPostMutex, QPostFull})"
| "z3_hold (ZConsumer c) = one_if (d_pc c \<in> {DWaitMutex, DTest, DCopy, DAdvance, DCount})"
| "z3_hold (ZManager a) = 0"

primrec z3_waits :: "z3_proc \<Rightarrow> semid option" where
  "z3_waits (ZProducer p) =
     (case q_pc p of QWaitEmpty \<Rightarrow> Some Empty | QWaitMutex \<Rightarrow> Some Mutex | _ \<Rightarrow> None)"
| "z3_waits (ZConsumer c) =
     (case d_pc c of DWaitFull \<Rightarrow> Some Full | DWaitMutex \<Rightarrow> Some Mutex | _ \<Rightarrow> None)"
| "z3_waits (ZManager a) = (case m_pc a of MWaitMutex \<Rightarrow> Some Mutex | _ \<Rightarrow> None)"

primrec z3_ended :: "z3_proc \<Rightarrow> bool" where
  "z3_ended (ZProducer p) \<longleftrightarrow> q_pc p = QEnd"
| "z3_ended (ZConsumer c) \<longleftrightarrow> False"
| "z3_ended (ZManager a) \<longleftrightarrow> False"

text \<open>
  \<open>z3_view m p n\<close>: the memory holds the PRIORITY texts \<open>p\<close> and the NORMAL texts \<open>n\<close>.  In
  the middle of an update one count lags behind its indices; the invariant of that
  statement is the view of the memory with the count corrected.
\<close>

definition z3_view :: "z3_shm \<Rightarrow> char list list \<Rightarrow> char list list \<Rightarrow> bool" where
  "z3_view m p n \<longleftrightarrow>
     text_ring z3_K (priority_queue m) (priority_head m) (priority_tail m) p \<and>
     text_ring z3_K (normal_queue m) (normal_head m) (normal_tail m) n \<and>
     priority_count m = int (length p) \<and> normal_count m = int (length n)"

definition z3_RI :: "z3_shm \<Rightarrow> z3_event list \<Rightarrow> bool" where
  "z3_RI m h \<longleftrightarrow> (\<exists>p n. z3_run h ([], []) = Some (p, n) \<and> z3_view m p n)"

definition z3_count :: "bool \<Rightarrow> int \<Rightarrow> z3_shm \<Rightarrow> z3_shm" where
  "z3_count b d m = (if b then m\<lparr>priority_count := priority_count m + d\<rparr>
                     else m\<lparr>normal_count := normal_count m + d\<rparr>)"

definition z3_slot :: "bool \<Rightarrow> z3_shm \<Rightarrow> char list" where
  "z3_slot b m = (if b then priority_queue m ! priority_tail m else normal_queue m ! normal_tail m)"

definition z3_add :: "bool \<Rightarrow> char list \<Rightarrow> char list list \<times> char list list \<Rightarrow> char list list \<times> char list list" where
  "z3_add b t q = (if b then (fst q @ [t], snd q) else (fst q, snd q @ [t]))"

definition z3_drop :: "bool \<Rightarrow> char list list \<times> char list list \<Rightarrow> char list list \<times> char list list" where
  "z3_drop b q = (if b then (tl (fst q), snd q) else (fst q, tl (snd q)))"

definition z3_front :: "bool \<Rightarrow> char list list \<times> char list list \<Rightarrow> char list list" where
  "z3_front b q = (if b then fst q else snd q)"

definition z3_holds :: "z3_shm \<Rightarrow> char list list \<times> char list list \<Rightarrow> bool" where
  "z3_holds m q \<longleftrightarrow> z3_view m (fst q) (snd q)"

primrec z3_PLI :: "z3_ppc \<Rightarrow> z3_producer \<Rightarrow> z3_shm \<Rightarrow> char list list \<times> char list list \<Rightarrow> bool" where
  "z3_PLI QGen p m q = False"
| "z3_PLI QWaitEmpty p m q = False"
| "z3_PLI QWaitMutex p m q = False"
| "z3_PLI QCopy p m q = z3_holds m q"
| "z3_PLI QAdvance p m q = (z3_holds m q \<and> z3_slot (q_prio p) m = q_task p)"
| "z3_PLI QCount p m q = z3_holds (z3_count (q_prio p) 1 m) (z3_add (q_prio p) (q_task p) q)"
| "z3_PLI QPostMutex p m q = z3_holds m q"
| "z3_PLI QPostFull p m q = False"
| "z3_PLI QSleep p m q = False"
| "z3_PLI QEnd p m q = False"

primrec z3_CLI :: "z3_cpc \<Rightarrow> z3_consumer \<Rightarrow> z3_shm \<Rightarrow> char list list \<times> char list list \<Rightarrow> bool" where
  "z3_CLI DWaitFull c m q = False"
| "z3_CLI DWaitMutex c m q = False"
| "z3_CLI DTest c m q = z3_holds m q"
| "z3_CLI DCopy c m q = (z3_holds m q \<and> d_prio c = (fst q \<noteq> []))"
| "z3_CLI DAdvance c m q = (z3_holds m q \<and> d_prio c = (fst q \<noteq> []) \<and> d_task c = hd (z3_front (d_prio c) q))"
| "z3_CLI DCount c m q =
     (z3_holds (z3_count (d_prio c) (-1) m) (z3_drop (d_prio c) q) \<and> d_prio c = (fst q \<noteq> []) \<and>
      d_task c = hd (z3_front (d_prio c) q) \<and> is_text 10 (d_task c))"
| "z3_CLI DPostMutex c m q = (z3_holds m q \<and> is_text 10 (d_task c))"
| "z3_CLI DPostEmpty c m q = False"
| "z3_CLI DPrint c m q = False"

primrec z3_MLI :: "z3_mpc \<Rightarrow> z3_manager \<Rightarrow> z3_shm \<Rightarrow> char list list \<times> char list list \<Rightarrow> bool" where
  "z3_MLI MSleep a m q = False"
| "z3_MLI MWaitMutex a m q = False"
| "z3_MLI MTest a m q = z3_holds m q"
| "z3_MLI MCopy a m q = (z3_holds m q \<and> snd q \<noteq> [])"
| "z3_MLI MAdvance a m q = (z3_holds m q \<and> snd q \<noteq> [] \<and> m_aging a = hd (snd q))"
| "z3_MLI MDecN a m q =
     (z3_holds (z3_count False (-1) m) (z3_drop False q) \<and> snd q \<noteq> [] \<and> m_aging a = hd (snd q) \<and>
      is_text 10 (m_aging a))"
| "z3_MLI MAppend a m q =
     (z3_holds m (z3_drop False q) \<and> snd q \<noteq> [] \<and> m_aging a = hd (snd q) \<and> is_text 10 (m_aging a))"
| "z3_MLI MAdvanceP a m q =
     (z3_holds m (z3_drop False q) \<and> snd q \<noteq> [] \<and> m_aging a = hd (snd q) \<and> is_text 10 (m_aging a) \<and>
      z3_slot True m = m_aging a)"
| "z3_MLI MIncP a m q =
     (z3_holds (z3_count True 1 m) (z3_add True (m_aging a) (z3_drop False q)) \<and> snd q \<noteq> [] \<and>
      m_aging a = hd (snd q))"
| "z3_MLI MGetEmpty a m q = z3_holds m q"
| "z3_MLI MGetFull a m q = (z3_holds m q \<and> m_empty a + length (fst q) + length (snd q) \<le> z3_K)"
| "z3_MLI MReport a m q =
     (z3_holds m q \<and> m_empty a + length (fst q) + length (snd q) \<le> z3_K \<and>
      m_full a \<le> length (fst q) + length (snd q))"
| "z3_MLI MPostMutex a m q = z3_holds m q"

primrec z3_PI :: "z3_proc \<Rightarrow> bool" where
  "z3_PI (ZProducer p) \<longleftrightarrow> length (q_task p) = TASK_LEN \<and>
     (q_pc p \<in> {QWaitEmpty, QWaitMutex, QCopy, QAdvance, QCount, QPostMutex} \<longrightarrow> is_text 10 (q_task p))"
| "z3_PI (ZConsumer c) \<longleftrightarrow> length (d_task c) = TASK_LEN \<and>
     (d_pc c \<in> {DPostEmpty, DPrint} \<longrightarrow> is_text 10 (d_task c))"
| "z3_PI (ZManager a) \<longleftrightarrow> length (m_aging a) = TASK_LEN"

primrec z3_at :: "z3_proc \<Rightarrow> z3_shm \<Rightarrow> char list list \<times> char list list \<Rightarrow> bool" where
  "z3_at (ZProducer p) m q \<longleftrightarrow> z3_PLI (q_pc p) p m q"
| "z3_at (ZConsumer c) m q \<longleftrightarrow> z3_CLI (d_pc c) c m q"
| "z3_at (ZManager a) m q \<longleftrightarrow> z3_MLI (m_pc a) a m q"

definition z3_LI :: "z3_proc \<Rightarrow> z3_shm \<Rightarrow> z3_event list \<Rightarrow> bool" where
  "z3_LI p m h \<longleftrightarrow> z3_PI p \<and> (\<exists>q. z3_run h ([], []) = Some q \<and> z3_at p m q)"

section \<open>What one statement does to the queues\<close>

lemmas z3_mem_defs = z3_holds_def z3_view_def z3_count_def z3_slot_def z3_add_def z3_drop_def z3_front_def

lemma z3_write:
  assumes "z3_holds m q" "length (z3_front b q) < z3_K" "is_text 10 t"
    and m': "m' = (if b
       then m\<lparr>priority_queue := (priority_queue m)[priority_tail m :=
                c_strncpy (priority_queue m ! priority_tail m) t TASK_LEN]\<rparr>
       else m\<lparr>normal_queue := (normal_queue m)[normal_tail m :=
                c_strncpy (normal_queue m ! normal_tail m) t TASK_LEN]\<rparr>)"
  shows "z3_holds m' q" and "z3_slot b m' = t"
  using assms
    text_ring_write [of z3_K "priority_queue m" "priority_head m" "priority_tail m" "fst q" t]
    text_ring_write [of z3_K "normal_queue m" "normal_head m" "normal_tail m" "snd q" t]
  by (cases b; simp add: z3_mem_defs)+

lemma z3_advance_tail:
  assumes "z3_holds m q" "length (z3_front b q) < z3_K" "is_text 10 t" "z3_slot b m = t"
    and m': "m' = (if b then m\<lparr>priority_tail := (priority_tail m + 1) mod z3_K\<rparr>
       else m\<lparr>normal_tail := (normal_tail m + 1) mod z3_K\<rparr>)"
  shows "z3_holds (z3_count b 1 m') (z3_add b t q)"
  using assms
    text_ring_advance_tail [of z3_K "priority_queue m" "priority_head m" "priority_tail m" "fst q" t]
    text_ring_advance_tail [of z3_K "normal_queue m" "normal_head m" "normal_tail m" "snd q" t]
  by (cases b) (simp_all add: z3_mem_defs)

lemma z3_advance_head:
  assumes "z3_holds m q" "z3_front b q \<noteq> []"
    and m': "m' = (if b then m\<lparr>priority_head := (priority_head m + 1) mod z3_K\<rparr>
       else m\<lparr>normal_head := (normal_head m + 1) mod z3_K\<rparr>)"
  shows "z3_holds (z3_count b (- 1) m') (z3_drop b q)"
  using assms
    text_ring_advance_head [of z3_K "priority_queue m" "priority_head m" "priority_tail m" "fst q"]
    text_ring_advance_head [of z3_K "normal_queue m" "normal_head m" "normal_tail m" "snd q"]
  by (cases b; cases "fst q"; cases "snd q") (simp_all add: z3_mem_defs)

lemma z3_read:
  assumes "z3_holds m q" "z3_front b q \<noteq> []" "length dst = TASK_LEN"
  shows "(if b then c_strncpy dst (priority_queue m ! priority_head m) TASK_LEN
          else c_strncpy dst (normal_queue m ! normal_head m) TASK_LEN) = hd (z3_front b q)"
    and "is_text 10 (hd (z3_front b q))" and "length (hd (z3_front b q)) = TASK_LEN"
  using assms
    text_ring_read(1,2) [of z3_K "priority_queue m" "priority_head m" "priority_tail m" "fst q"]
    text_ring_read(4) [of z3_K "priority_queue m" "priority_head m" "priority_tail m" "fst q" dst]
    text_ring_read(1,2) [of z3_K "normal_queue m" "normal_head m" "normal_tail m" "snd q"]
    text_ring_read(4) [of z3_K "normal_queue m" "normal_head m" "normal_tail m" "snd q" dst]
  by (cases b; simp add: z3_mem_defs)+

lemma z3_count_update:
  "(if b then m\<lparr>priority_count := priority_count m + 1\<rparr> else m\<lparr>normal_count := normal_count m + 1\<rparr>)
     = z3_count b 1 m"
  "(if b then m\<lparr>priority_count := priority_count m - 1\<rparr> else m\<lparr>normal_count := normal_count m - 1\<rparr>)
     = z3_count b (- 1) m"
  by (simp_all add: z3_count_def)

lemma z3_holds_counts:
  "z3_holds m q \<Longrightarrow> (priority_count m > 0) = (fst q \<noteq> []) \<and> (normal_count m > 0) = (snd q \<noteq> [])"
  by (auto simp: z3_mem_defs)

section \<open>Texts inserted and taken\<close>

definition z3_inserted :: "z3_event list \<Rightarrow> char list list" where
  "z3_inserted h = concat (map (\<lambda>e. case e of ZInserted b t \<Rightarrow> [t] | _ \<Rightarrow> []) h)"

definition z3_taken :: "z3_event list \<Rightarrow> char list list" where
  "z3_taken h = concat (map (\<lambda>e. case e of ZTaken b t \<Rightarrow> [t] | _ \<Rightarrow> []) h)"

definition z3_generated :: "z3_event list \<Rightarrow> char list list" where
  "z3_generated h = concat (map (\<lambda>e. case e of ZCreated b t \<Rightarrow> [t] | _ \<Rightarrow> []) h)"

definition z3_printed :: "z3_event list \<Rightarrow> string option list" where
  "z3_printed h = concat (map (\<lambda>e. case e of ZPrinted b r \<Rightarrow> [r] | _ \<Rightarrow> []) h)"

lemma z3_history_simps [simp]:
  "z3_inserted [] = []" "z3_taken [] = []" "z3_generated [] = []" "z3_printed [] = []"
  "z3_inserted (h @ h') = z3_inserted h @ z3_inserted h'"
  "z3_taken (h @ h') = z3_taken h @ z3_taken h'"
  "z3_generated (h @ h') = z3_generated h @ z3_generated h'"
  "z3_printed (h @ h') = z3_printed h @ z3_printed h'"
  "z3_inserted (e # h) = (case e of ZInserted b t \<Rightarrow> [t] | _ \<Rightarrow> []) @ z3_inserted h"
  "z3_taken (e # h) = (case e of ZTaken b t \<Rightarrow> [t] | _ \<Rightarrow> []) @ z3_taken h"
  "z3_generated (e # h) = (case e of ZCreated b t \<Rightarrow> [t] | _ \<Rightarrow> []) @ z3_generated h"
  "z3_printed (e # h) = (case e of ZPrinted b r \<Rightarrow> [r] | _ \<Rightarrow> []) @ z3_printed h"
  by (simp_all add: z3_inserted_def z3_taken_def z3_generated_def z3_printed_def)

lemma z3_accept_cases:
  assumes "z3_accept e (p, n) = Some (p', n')"
  shows "mset p + mset n + mset (z3_inserted [e]) = mset (z3_taken [e]) + mset p' + mset n'"
  using assms by (cases e; cases p; cases n) (auto split: if_splits)

text \<open>No text is lost or duplicated: inserted = taken + queued, as multisets.\<close>

lemma z3_run_contents:
  "z3_run h (p, n) = Some (p', n') \<Longrightarrow>
     mset p + mset n + mset (z3_inserted h) = mset (z3_taken h) + mset p' + mset n'"
proof (induction h arbitrary: p n)
  case Nil
  then show ?case by simp
next
  case (Cons e h)
  then obtain p1 n1 where a: "z3_accept e (p, n) = Some (p1, n1)" and r: "z3_run h (p1, n1) = Some (p', n')"
    by (auto split: option.splits)
  from z3_accept_cases [OF a] Cons.IH [OF r] show ?case
    by (simp add: ac_simps)
qed

lemma z3_run_length:
  "z3_run h ([], []) = Some (p, n) \<Longrightarrow>
     length (z3_inserted h) = length (z3_taken h) + length p + length n"
  using arg_cong [OF z3_run_contents [of h "[]" "[]" p n], where f = size] by simp

section \<open>Steps\<close>

lemmas z3_step_defs = z3_step_def z3_producer_step_def z3_consumer_step_def z3_manager_step_def

lemma z3_ledgers:
  assumes "z3_step p v m = Some (es, p', v', m')"
  shows "v' Mutex + one_if (z3_cs p') = v Mutex + one_if (z3_cs p) \<and>
    v' Empty + v' Full + z3_tok p' = v Empty + v Full + z3_tok p \<and>
    v' Full + length (z3_taken es) + z3_hold p' = v Full + z3_hold p + length (z3_inserted es)"
proof (cases p)
  case (ZProducer x)
  with assms show ?thesis
    by (cases "q_pc x") (auto simp: z3_step_defs sem_post_def Let_def split: if_splits prod.splits
      dest!: sem_wait_SomeD)
next
  case (ZConsumer x)
  with assms show ?thesis
    by (cases "d_pc x") (auto simp: z3_step_defs sem_post_def dest!: sem_wait_SomeD)
next
  case (ZManager x)
  with assms show ?thesis
    by (cases "m_pc x") (auto simp: z3_step_defs sem_post_def Let_def split: if_splits
      dest!: sem_wait_SomeD)
qed

lemma z3_outside:
  assumes "z3_step p v m = Some (es, p', v', m')" "\<not> z3_cs p" "z3_PI p" "\<not> z3_cs p'"
  shows "z3_PI p' \<and> m' = m \<and> (\<forall>q. z3_run es q = Some q)"
proof (cases p)
  case (ZProducer x)
  show ?thesis
  proof (cases "q_pc x")
    case QGen
    obtain t r where g: "generate_random_string (q_task x) (TASK_LEN - 1) (q_rng x) = (t, r)"
      by fastforce
    have "is_text 10 t"
      using generate_random_string_text [of "q_task x" 10 "q_rng x"] g ZProducer assms(3)
      by (simp add: TASK_LEN_def)
    with g ZProducer QGen assms show ?thesis
      by (auto simp: z3_step_defs Let_def is_text_def TASK_LEN_def split: if_splits prod.splits)
  qed (use ZProducer assms in \<open>auto simp: z3_step_defs split: prod.splits dest!: sem_wait_SomeD\<close>)
next
  case (ZConsumer x)
  with assms show ?thesis
    by (cases "d_pc x") (auto simp: z3_step_defs print_loop_text dest!: sem_wait_SomeD)
next
  case (ZManager x)
  with assms show ?thesis
    by (cases "m_pc x") (auto simp: z3_step_defs dest!: sem_wait_SomeD)
qed

lemma z3_run_frame:
  assumes "\<forall>q. z3_run es q = Some q"
  shows "z3_run (h @ es) q = z3_run h q"
  using assms by (auto simp: z3_run_append split: option.splits)

lemma z3_frame:
  assumes "\<forall>q. z3_run es q = Some q"
  shows "z3_RI m (h @ es) = z3_RI m h" and "z3_LI p m (h @ es) = z3_LI p m h"
  by (simp_all add: z3_RI_def z3_LI_def z3_run_frame [OF assms])

lemma z3_RI_holds: "z3_RI m h \<longleftrightarrow> (\<exists>q. z3_run h ([], []) = Some q \<and> z3_holds m q)"
  by (auto simp: z3_RI_def z3_holds_def)

lemma z3_enter:
  assumes "z3_step p v m = Some (es, p', v', m')" "\<not> z3_cs p" "z3_PI p" "z3_cs p'" "z3_RI m h"
  shows "z3_LI p' m' (h @ es)"
proof (cases p)
  case (ZProducer x)
  with assms show ?thesis
    by (cases "q_pc x") (auto simp: z3_step_defs Let_def z3_LI_def z3_RI_holds split: if_splits prod.splits)
next
  case (ZConsumer x)
  with assms show ?thesis by (cases "d_pc x") (auto simp: z3_step_defs z3_LI_def z3_RI_holds)
next
  case (ZManager x)
  with assms show ?thesis by (cases "m_pc x") (auto simp: z3_step_defs z3_LI_def z3_RI_holds)
qed

text \<open>
  Inside the critical section.  \<open>z3_next p' m' h'\<close> is what the next statement may rely on.
\<close>

definition z3_next :: "z3_proc \<Rightarrow> z3_shm \<Rightarrow> z3_event list \<Rightarrow> bool" where
  "z3_next p m h \<longleftrightarrow> (if z3_cs p then z3_LI p m h else z3_RI m h \<and> z3_PI p)"

lemma z3_inside_producer:
  assumes st: "z3_producer_step x v m = Some (es, x', v', m')"
    and q: "z3_run h ([], []) = Some q" and at: "z3_PLI (q_pc x) x m q" and PI: "z3_PI (ZProducer x)"
    and room: "q_pc x \<noteq> QPostMutex \<Longrightarrow> length (fst q) + length (snd q) < z3_K"
  shows "z3_next (ZProducer x') m' (h @ es)"
proof -
  have fr: "q_pc x \<noteq> QPostMutex \<Longrightarrow> length (z3_front (q_prio x) q) < z3_K"
    using room by (auto simp: z3_front_def)
  have "q_pc x \<in> {QCopy, QAdvance, QCount, QPostMutex}" using at by (cases "q_pc x") auto
  then consider "q_pc x = QCopy" | "q_pc x = QAdvance" | "q_pc x = QCount" | "q_pc x = QPostMutex" by auto
  then show ?thesis
  proof cases
    case 1
    with at PI have h: "z3_holds m q" and t: "is_text 10 (q_task x)" by simp_all
    have ex: "x' = x\<lparr>q_pc := QAdvance\<rparr>" "es = []" using 1 st by (auto simp: z3_producer_step_def)
    have "z3_holds m' q" "z3_slot (q_prio x) m' = q_task x"
      by (rule z3_write [OF h fr t]; use 1 st in \<open>simp add: z3_producer_step_def\<close>)+
    with ex 1 PI q show ?thesis by (simp add: z3_next_def z3_LI_def)
  next
    case 2
    with at PI have h: "z3_holds m q" "z3_slot (q_prio x) m = q_task x" and t: "is_text 10 (q_task x)"
      by simp_all
    have ex: "x' = x\<lparr>q_pc := QCount\<rparr>" "es = []" using 2 st by (auto simp: z3_producer_step_def)
    have "z3_holds (z3_count (q_prio x) 1 m') (z3_add (q_prio x) (q_task x) q)"
      by (rule z3_advance_tail [OF h(1) fr t h(2)]; use 2 st in \<open>simp add: z3_producer_step_def\<close>)
    with ex 2 PI q show ?thesis by (simp add: z3_next_def z3_LI_def)
  next
    case 3
    then have ex: "x' = x\<lparr>q_pc := QPostMutex\<rparr>" "es = [ZInserted (q_prio x) (q_task x)]"
      "m' = z3_count (q_prio x) 1 m"
      using st by (auto simp: z3_producer_step_def z3_count_update)
    have "z3_run (h @ es) ([], []) = Some (z3_add (q_prio x) (q_task x) q)"
      using q room 3 ex by (cases q) (simp add: z3_run_append z3_add_def)
    with ex 3 PI at show ?thesis by (simp add: z3_next_def z3_LI_def)
  next
    case 4
    with st at PI q show ?thesis
      by (auto simp: z3_producer_step_def z3_next_def z3_RI_holds)
  qed
qed

lemma z3_inside_consumer:
  assumes st: "z3_consumer_step x v m = Some (es, x', v', m')"
    and q: "z3_run h ([], []) = Some q" and at: "z3_CLI (d_pc x) x m q" and PI: "z3_PI (ZConsumer x)"
    and some: "d_pc x \<noteq> DPostMutex \<Longrightarrow> fst q \<noteq> [] \<or> snd q \<noteq> []"
  shows "z3_next (ZConsumer x') m' (h @ es)"
proof -
  have fr: "z3_front (d_prio x) q \<noteq> []" if "d_pc x \<noteq> DPostMutex" "d_prio x = (fst q \<noteq> [])"
    using some [OF that(1)] that(2) by (auto simp: z3_front_def)
  have len: "length (d_task x) = TASK_LEN" using PI by simp
  have "d_pc x \<in> {DTest, DCopy, DAdvance, DCount, DPostMutex}" using at by (cases "d_pc x") auto
  then consider "d_pc x = DTest" | "d_pc x = DCopy" | "d_pc x = DAdvance" | "d_pc x = DCount"
    | "d_pc x = DPostMutex" by auto
  then show ?thesis
  proof cases
    case 1
    with st at PI q show ?thesis
      using z3_holds_counts [of m q] by (auto simp: z3_consumer_step_def z3_next_def z3_LI_def)
  next
    case 2
    with at have h: "z3_holds m q" "d_prio x = (fst q \<noteq> [])" by simp_all
    have ne: "z3_front (d_prio x) q \<noteq> []" using fr 2 h(2) by simp
    note rd = z3_read [OF h(1) ne len]
    have "x' = x\<lparr>d_pc := DAdvance, d_task := hd (z3_front (d_prio x) q)\<rparr>" "es = []" "m' = m"
      using 2 st rd(1) by (auto simp: z3_consumer_step_def)
    with 2 h rd(3) q show ?thesis by (simp add: z3_next_def z3_LI_def)
  next
    case 3
    with at have h: "z3_holds m q" "d_prio x = (fst q \<noteq> [])" "d_task x = hd (z3_front (d_prio x) q)"
      by simp_all
    have ne: "z3_front (d_prio x) q \<noteq> []" using fr 3 h(2) by simp
    have ex: "x' = x\<lparr>d_pc := DCount\<rparr>" "es = []" using 3 st by (auto simp: z3_consumer_step_def)
    have "z3_holds (z3_count (d_prio x) (- 1) m') (z3_drop (d_prio x) q)"
      by (rule z3_advance_head [OF h(1) ne]) (use 3 st in \<open>simp add: z3_consumer_step_def\<close>)
    with ex 3 h z3_read(2) [OF h(1) ne len] q len show ?thesis by (simp add: z3_next_def z3_LI_def)
  next
    case 4
    then have ex: "x' = x\<lparr>d_pc := DPostMutex\<rparr>" "es = [ZTaken (d_prio x) (d_task x)]"
      "m' = z3_count (d_prio x) (- 1) m"
      using st by (auto simp: z3_consumer_step_def z3_count_update)
    have "z3_front (d_prio x) q \<noteq> []" using fr 4 at by simp
    then have "z3_run (h @ es) ([], []) = Some (z3_drop (d_prio x) q)"
      using q 4 ex at by (cases q) (auto simp: z3_run_append z3_drop_def z3_front_def)
    moreover have "z3_holds (z3_count (d_prio x) (- 1) m) (z3_drop (d_prio x) q)" "is_text 10 (d_task x)"
      using at [unfolded 4 z3_CLI.simps] by blast+
    ultimately show ?thesis using ex 4 len by (simp add: z3_next_def z3_LI_def)
  next
    case 5
    with st at PI q show ?thesis
      by (auto simp: z3_consumer_step_def z3_next_def z3_RI_holds)
  qed
qed

text \<open>The manager: its copy of the oldest NORMAL text is in neither queue for three statements.\<close>

lemma z3_aging_steps:
  assumes st: "z3_manager_step x v m = Some (es, x', v', m')"
    and q: "z3_run h ([], []) = Some q" and at: "z3_MLI (m_pc x) x m q" and PI: "z3_PI (ZManager x)"
    and all: "length (fst q) + length (snd q) \<le> z3_K"
    and pc: "m_pc x \<in> {MCopy, MAdvance, MDecN, MAppend, MAdvanceP, MIncP}"
  shows "z3_next (ZManager x') m' (h @ es)"
proof -
  have len: "length (m_aging x) = TASK_LEN" using PI by simp
  have ne: "z3_front False q \<noteq> []" using at pc by (auto simp: z3_front_def)
  then have room: "length (z3_front True (z3_drop False q)) < z3_K"
    using all by (cases "snd q") (auto simp: z3_front_def z3_drop_def)
  from pc consider "m_pc x = MCopy" | "m_pc x = MAdvance" | "m_pc x = MDecN" | "m_pc x = MAppend"
    | "m_pc x = MAdvanceP" | "m_pc x = MIncP" by auto
  then show ?thesis
  proof cases
    case 1
    with at have h: "z3_holds m q" "snd q \<noteq> []" by simp_all
    note rd = z3_read [OF h(1) ne len]
    have "x' = x\<lparr>m_pc := MAdvance, m_aging := hd (snd q)\<rparr>" "es = []" "m' = m"
      using 1 st rd(1) by (auto simp: z3_manager_step_def z3_front_def)
    with 1 h rd(3) q show ?thesis by (simp add: z3_next_def z3_LI_def z3_front_def)
  next
    case 2
    with at have h: "z3_holds m q" "snd q \<noteq> []" "m_aging x = hd (snd q)" by simp_all
    have ex: "x' = x\<lparr>m_pc := MDecN\<rparr>" "es = []" using 2 st by (auto simp: z3_manager_step_def)
    have "z3_holds (z3_count False (- 1) m') (z3_drop False q)"
      by (rule z3_advance_head [OF h(1) ne]) (use 2 st in \<open>simp add: z3_manager_step_def\<close>)
    with ex 2 h z3_read(2) [OF h(1) ne len] q len show ?thesis
      by (simp add: z3_next_def z3_LI_def z3_front_def)
  next
    case 3
    with st at PI q show ?thesis
      by (auto simp: z3_manager_step_def z3_next_def z3_LI_def z3_count_def)
  next
    case 4
    then have h: "z3_holds m (z3_drop False q)" and t: "is_text 10 (m_aging x)"
      using at [unfolded 4 z3_MLI.simps] by blast+
    have ex: "x' = x\<lparr>m_pc := MAdvanceP\<rparr>" "es = []" using 4 st by (auto simp: z3_manager_step_def)
    have "z3_holds m' (z3_drop False q)" "z3_slot True m' = m_aging x"
      by (rule z3_write [OF h room t]; use 4 st in \<open>simp add: z3_manager_step_def\<close>)+
    with ex 4 at PI q show ?thesis by (auto simp: z3_next_def z3_LI_def)
  next
    case 5
    then have h: "z3_holds m (z3_drop False q)" "z3_slot True m = m_aging x"
      and t: "is_text 10 (m_aging x)"
      using at [unfolded 5 z3_MLI.simps] by blast+
    have ex: "x' = x\<lparr>m_pc := MIncP\<rparr>" "es = []" using 5 st by (auto simp: z3_manager_step_def)
    have "z3_holds (z3_count True 1 m') (z3_add True (m_aging x) (z3_drop False q))"
      by (rule z3_advance_tail [OF h(1) room t h(2)]) (use 5 st in \<open>simp add: z3_manager_step_def\<close>)
    with ex 5 at PI q show ?thesis by (simp add: z3_next_def z3_LI_def)
  next
    case 6
    then have ex: "x' = x\<lparr>m_pc := MGetEmpty\<rparr>" "es = [ZAged (m_aging x)]" "m' = z3_count True 1 m"
      using st by (auto simp: z3_manager_step_def z3_count_def)
    have "z3_run (h @ es) ([], []) = Some (z3_add True (m_aging x) (z3_drop False q))"
      using q 6 ex at by (cases q) (auto simp: z3_run_append z3_add_def z3_drop_def)
    with ex 6 PI at show ?thesis by (auto simp: z3_next_def z3_LI_def)
  qed
qed

lemma z3_inside_manager:
  assumes st: "z3_manager_step x v m = Some (es, x', v', m')"
    and q: "z3_run h ([], []) = Some q" and at: "z3_MLI (m_pc x) x m q" and PI: "z3_PI (ZManager x)"
    and free: "v Empty + length (fst q) + length (snd q) \<le> z3_K"
    and full: "v Full \<le> length (fst q) + length (snd q)"
  shows "z3_next (ZManager x') m' (h @ es)"
proof (cases "m_pc x \<in> {MCopy, MAdvance, MDecN, MAppend, MAdvanceP, MIncP}")
  case True
  with assms show ?thesis by (intro z3_aging_steps [OF st q at PI]) simp_all
next
  case False
  have "m_pc x \<in> {MTest, MGetEmpty, MGetFull, MReport, MPostMutex}"
    using at False by (cases "m_pc x") auto
  then consider "m_pc x = MTest" | "m_pc x = MGetEmpty" | "m_pc x = MGetFull" | "m_pc x = MReport"
    | "m_pc x = MPostMutex" by auto
  then show ?thesis
  proof cases
    case 1
    with at have h: "z3_holds m q" by simp
    obtain p n where pn: "q = (p, n)" by fastforce
    from 1 st PI q h pn show ?thesis
      using z3_holds_counts [OF h]
      by (auto simp: z3_manager_step_def z3_next_def z3_LI_def z3_run_append split: if_splits)
  next
    case 2
    with st at PI q free show ?thesis
      by (auto simp: z3_manager_step_def z3_next_def z3_LI_def sem_getvalue_def)
  next
    case 3
    with st at PI q full show ?thesis
      by (auto simp: z3_manager_step_def z3_next_def z3_LI_def sem_getvalue_def)
  next
    case 4
    obtain p n where pn: "q = (p, n)" by fastforce
    from 4 at pn have "priority_count m = int (length p)" "normal_count m = int (length n)"
      by (simp_all add: z3_mem_defs)
    with 4 st at PI q pn show ?thesis
      by (auto simp: z3_manager_step_def z3_next_def z3_LI_def z3_run_append Let_def)
  next
    case 5
    with st at PI q show ?thesis
      by (auto simp: z3_manager_step_def z3_next_def z3_RI_holds)
  qed
qed

lemma z3_inside:
  assumes st: "z3_step p v m = Some (es, p', v', m')" and cs: "z3_cs p" and LI: "z3_LI p m h"
    and room: "v Empty + length (z3_inserted h) + (z3_tok p - z3_hold p) \<le> z3_K + length (z3_taken h)"
    and some: "v Full + z3_hold p + length (z3_taken h) \<le> length (z3_inserted h)"
  shows "z3_next p' m' (h @ es)"
proof -
  from LI obtain q where q: "z3_run h ([], []) = Some q" and at: "z3_at p m q" and PI: "z3_PI p"
    by (auto simp: z3_LI_def)
  have n: "length (z3_inserted h) = length (z3_taken h) + length (fst q) + length (snd q)"
    using z3_run_length [of h "fst q" "snd q"] q by simp
  show ?thesis
  proof (cases p)
    case (ZProducer x)
    with st obtain x' where x': "p' = ZProducer x'" "z3_producer_step x v m = Some (es, x', v', m')"
      by (auto simp: z3_step_def)
    show ?thesis
      unfolding x'(1)
      by (rule z3_inside_producer [OF x'(2) q]) (use ZProducer at PI room n in \<open>cases "q_pc x"; simp\<close>)+
  next
    case (ZConsumer x)
    with st obtain x' where x': "p' = ZConsumer x'" "z3_consumer_step x v m = Some (es, x', v', m')"
      by (auto simp: z3_step_def)
    show ?thesis
      unfolding x'(1)
      by (rule z3_inside_consumer [OF x'(2) q]) (use ZConsumer at PI some n in \<open>cases "d_pc x"; force\<close>)+
  next
    case (ZManager x)
    with st obtain x' where x': "p' = ZManager x'" "z3_manager_step x v m = Some (es, x', v', m')"
      by (auto simp: z3_step_def)
    show ?thesis
      unfolding x'(1)
      by (rule z3_inside_manager [OF x'(2) q]) (use ZManager at PI some room n in simp_all)
  qed
qed

lemma z3_hold_le_tok: "z3_hold p \<le> z3_tok p"
proof (cases p)
  case (ZProducer x)
  then show ?thesis by (cases "q_pc x") simp_all
next
  case (ZConsumer x)
  then show ?thesis by (cases "d_pc x") simp_all
qed simp

lemma z3_blocked:
  assumes "z3_step p v m = None"
  shows "z3_ended p \<or> (\<exists>k. z3_waits p = Some k \<and> v k = 0)"
proof (cases p)
  case (ZProducer x)
  with assms show ?thesis
    by (cases "q_pc x") (auto simp: z3_step_defs Let_def split: if_splits prod.splits)
next
  case (ZConsumer x)
  with assms show ?thesis by (cases "d_pc x") (auto simp: z3_step_defs)
next
  case (ZManager x)
  with assms show ?thesis by (cases "m_pc x") (auto simp: z3_step_defs Let_def split: if_splits)
qed

lemma z3_waits_outside:
  assumes "z3_waits p = Some k"
  shows "\<not> z3_cs p \<and> (k \<noteq> Mutex \<longrightarrow> z3_tok p = 0)"
proof (cases p)
  case (ZProducer x)
  with assms show ?thesis by (cases "q_pc x") auto
next
  case (ZConsumer x)
  with assms show ?thesis by (cases "d_pc x") auto
next
  case (ZManager x)
  with assms show ?thesis by (cases "m_pc x") auto
qed

lemma z3_ended_outside:
  assumes "z3_ended p"
  shows "\<not> z3_cs p \<and> z3_tok p = 0"
proof (cases p)
  case (ZProducer x)
  with assms have "q_pc x = QEnd" by simp
  with ZProducer show ?thesis by simp
next
  case (ZConsumer x)
  with assms show ?thesis by simp
next
  case (ZManager x)
  with assms show ?thesis by simp
qed

interpretation z3: sem_buffer_progress z3_step z3_cs z3_tok z3_hold
    "\<lambda>h. length (z3_taken h)" "\<lambda>h. length (z3_inserted h)" z3_K z3_RI z3_LI z3_PI z3_waits z3_ended
proof unfold_locales
  fix p v m es p' v' m' h
  assume st: "z3_step p v m = Some (es, p', v', m')"
  note l = z3_ledgers [OF st]
  show "v' Mutex + one_if (z3_cs p') + 1 = v Mutex + one_if (z3_cs p) + 1"
    and "v' Empty + v' Full + z3_tok p' + z3_K = v Empty + v Full + z3_tok p + z3_K"
    and "v' Full + length (z3_taken (h @ es)) + z3_hold p' + length (z3_inserted h) =
         v Full + length (z3_taken h) + z3_hold p + length (z3_inserted (h @ es))"
    using l by simp_all
  assume out: "\<not> z3_cs p" and PI: "z3_PI p"
  show "z3_LI p' m' (h @ es)" if "z3_cs p'" "z3_RI m h"
    by (rule z3_enter [OF st out PI that])
  assume "\<not> z3_cs p'"
  from z3_outside [OF st out PI this]
  show "z3_PI p' \<and> m' = m \<and> (z3_RI m h \<longrightarrow> z3_RI m (h @ es)) \<and>
      (\<forall>q. z3_LI q m h \<longrightarrow> z3_LI q m (h @ es))"
    by (simp add: z3_frame)
next
  fix p v m es p' v' m' h
  assume "z3_step p v m = Some (es, p', v', m')" "z3_cs p" "z3_LI p m h"
    "v Empty + length (z3_inserted h) + (z3_tok p - z3_hold p) \<le> z3_K + length (z3_taken h)"
    "v Full + z3_hold p + length (z3_taken h) \<le> length (z3_inserted h)"
  then have "z3_next p' m' (h @ es)" by (rule z3_inside)
  then show "if z3_cs p' then z3_LI p' m' (h @ es) else z3_RI m' (h @ es) \<and> z3_PI p'"
    unfolding z3_next_def .
next
  show "z3_hold p \<le> z3_tok p" for p by (rule z3_hold_le_tok)
  show "z3_ended p \<or> (\<exists>k. z3_waits p = Some k \<and> v k = 0)" if "z3_step p v m = None" for p v m
    using that by (rule z3_blocked)
  show "\<not> z3_cs p \<and> (k \<noteq> Mutex \<longrightarrow> z3_tok p = 0)" if "z3_waits p = Some k" for p k
    using that by (rule z3_waits_outside)
  show "\<not> z3_cs p \<and> z3_tok p = 0" if "z3_ended p" for p
    using that by (rule z3_ended_outside)
qed

section \<open>What was generated, inserted, taken and printed\<close>

primrec z3_done :: "z3_proc \<Rightarrow> nat" where
  "z3_done (ZProducer p) = q_i p + one_if (q_pc p \<in> {QPostMutex, QPostFull, QSleep})"
| "z3_done (ZConsumer c) = 0"
| "z3_done (ZManager a) = 0"

primrec z3_unsent :: "z3_proc \<Rightarrow> char list multiset" where
  "z3_unsent (ZProducer p) =
     (if q_pc p \<in> {QWaitEmpty, QWaitMutex, QCopy, QAdvance, QCount} then {#q_task p#} else {#})"
| "z3_unsent (ZConsumer c) = {#}"
| "z3_unsent (ZManager a) = {#}"

primrec z3_unprinted :: "z3_proc \<Rightarrow> string option multiset" where
  "z3_unprinted (ZProducer p) = {#}"
| "z3_unprinted (ZConsumer c) =
     (if d_pc c \<in> {DPostMutex, DPostEmpty, DPrint} then {#print_loop 0 (d_task c)#} else {#})"
| "z3_unprinted (ZManager a) = {#}"

primrec z3_round_ok :: "z3_proc \<Rightarrow> bool" where
  "z3_round_ok (ZProducer p) \<longleftrightarrow> q_i p \<le> 15 \<and> (q_pc p \<notin> {QGen, QEnd} \<longrightarrow> q_i p < 15) \<and>
     (q_pc p = QEnd \<longrightarrow> q_i p = 15)"
| "z3_round_ok (ZConsumer c) \<longleftrightarrow> True"
| "z3_round_ok (ZManager a) \<longleftrightarrow> True"

datatype z3_role = KProducer | KConsumer | KManager

primrec z3_kind :: "z3_proc \<Rightarrow> z3_role" where
  "z3_kind (ZProducer p) = KProducer"
| "z3_kind (ZConsumer c) = KConsumer"
| "z3_kind (ZManager a) = KManager"

lemma z3_flow:
  assumes "z3_step p v m = Some (es, p', v', m')"
  shows "z3_done p' = z3_done p + length (z3_inserted es) \<and>
    mset (z3_inserted es) + z3_unsent p' = z3_unsent p + mset (z3_generated es) \<and>
    mset (z3_printed es) + z3_unprinted p' = z3_unprinted p + mset (map (print_loop 0) (z3_taken es)) \<and>
    (z3_round_ok p \<longrightarrow> z3_round_ok p') \<and> z3_kind p' = z3_kind p"
proof (cases p)
  case (ZProducer x)
  with assms show ?thesis
    by (cases "q_pc x") (auto simp: z3_step_defs Let_def split: if_splits prod.splits)
next
  case (ZConsumer x)
  with assms show ?thesis by (cases "d_pc x") (auto simp: z3_step_defs)
next
  case (ZManager x)
  with assms show ?thesis by (cases "m_pc x") (auto simp: z3_step_defs Let_def split: if_splits)
qed

interpretation z3_rounds: ledger z3_step "\<lambda>_ _. 0" z3_done "\<lambda>_ h. length (z3_inserted h)"
  by unfold_locales (use z3_flow in fastforce)

interpretation z3_sending: ledger z3_step "\<lambda>_ h. mset (z3_inserted h)" z3_unsent
    "\<lambda>_ h. mset (z3_generated h)"
  by unfold_locales (use z3_flow in \<open>fastforce simp: ac_simps\<close>)

interpretation z3_printing: ledger z3_step "\<lambda>_ h. mset (z3_printed h)" z3_unprinted
    "\<lambda>_ h. mset (map (print_loop 0) (z3_taken h))"
  by unfold_locales (use z3_flow in \<open>fastforce simp: ac_simps\<close>)

interpretation z3_round: local_invariant z3_step z3_round_ok
  by unfold_locales (use z3_flow in blast)

section \<open>Facts about every reachable state\<close>

lemma z3_fresh_simps:
  assumes "z3_fresh p"
  shows "\<not> z3_cs p" "z3_tok p = 0" "z3_PI p" "z3_done p = 0" "z3_unsent p = {#}"
    "z3_unprinted p = {#}" "z3_round_ok p"
  using assms by (cases p; simp)+

lemma z3_started: "\<forall>p \<in> set ps. z3_fresh p \<Longrightarrow> z3.started (z3_start ps)"
proof -
  have "z3_view z3_mem0 [] []"
    by (simp add: z3_view_def z3_mem0_def z3_K_def text_ring_empty)
  then have "z3_RI z3_mem0 []" by (auto simp: z3_RI_def)
  then show "\<forall>p \<in> set ps. z3_fresh p \<Longrightarrow> z3.started (z3_start ps)"
    by (simp add: z3.started_def z3_start_def z3_fresh_simps)
qed

lemma z3_flow_reach:
  assumes r: "sreach z3_step (z3_start ps) s" and f: "\<forall>p \<in> set ps. z3_fresh p"
  shows "sum_list (map z3_done (procs s)) = length (z3_inserted (hist s))"
    and "mset (z3_inserted (hist s)) + sum_list (map z3_unsent (procs s)) = mset (z3_generated (hist s))"
    and "mset (z3_printed (hist s)) + sum_list (map z3_unprinted (procs s))
           = mset (map (print_loop 0) (z3_taken (hist s)))"
    and "\<forall>p \<in> set (procs s). z3_round_ok p"
proof -
  have z: "sum_list (map z3_done ps) = 0" "sum_list (map z3_unsent ps) = {#}"
    "sum_list (map z3_unprinted ps) = {#}"
    using f by (auto intro!: sum_list_map_zero simp: z3_fresh_simps)
  have "0 + sum_list (map z3_done (procs s)) = length (z3_inserted (hist s))"
    by (rule z3_rounds.ledger_reach [OF r]) (simp add: z3_start_def z)
  then show "sum_list (map z3_done (procs s)) = length (z3_inserted (hist s))" by simp
  show "mset (z3_inserted (hist s)) + sum_list (map z3_unsent (procs s)) = mset (z3_generated (hist s))"
    by (rule z3_sending.ledger_reach [OF r]) (simp add: z3_start_def z)
  show "mset (z3_printed (hist s)) + sum_list (map z3_unprinted (procs s))
           = mset (map (print_loop 0) (z3_taken (hist s)))"
    by (rule z3_printing.ledger_reach [OF r]) (simp add: z3_start_def z)
  show "\<forall>p \<in> set (procs s). z3_round_ok p"
    by (rule z3_round.local_reach [OF r]) (simp add: z3_start_def f z3_fresh_simps)
qed

lemma z3_start_length: "sreach z3_step (z3_start ps) s \<Longrightarrow> length (procs s) = length ps"
  by (drule sreach_length) (simp add: z3_start_def)

text \<open>The history is accepted, and with the mutex free the memory holds the accepted queues.\<close>

lemma z3_accepted:
  assumes "sreach z3_step (z3_start ps) s" "\<forall>p \<in> set ps. z3_fresh p"
  shows "\<exists>p n. z3_run (hist s) ([], []) = Some (p, n) \<and> (sem s Mutex \<noteq> 0 \<longrightarrow> z3_view (mem s) p n)"
proof -
  note st = z3_started [OF assms(2)]
  have d: "z3.data_ok s" by (rule z3.data_reach [OF assms(1) st])
  show ?thesis
  proof (cases "\<exists>p \<in> set (procs s). z3_cs p")
    case True
    then obtain i where i: "i < length (procs s)" "z3_cs (procs s ! i)" by (auto simp: in_set_conv_nth)
    then have "z3_LI (procs s ! i) (mem s) (hist s)" using d nth_mem by (auto simp: z3.data_ok_def)
    moreover have "sem s Mutex = 0" by (rule z3.cs_mutex_0 [OF z3.counts_reach [OF assms(1) st] i])
    ultimately show ?thesis by (auto simp: z3_LI_def)
  next
    case False
    with d have "z3_RI (mem s) (hist s)" by (simp add: z3.data_ok_def)
    then show ?thesis by (auto simp: z3_RI_def)
  qed
qed

section \<open>What an accepted history says\<close>

text \<open>Texts entering and leaving each queue; ageing leaves NORMAL and enters PRIORITY.\<close>

definition z3_prio_in :: "z3_event list \<Rightarrow> char list list" where
  "z3_prio_in h = concat (map (\<lambda>e. case e of ZInserted b t \<Rightarrow> if b then [t] else [] | ZAged t \<Rightarrow> [t] | _ \<Rightarrow> []) h)"

definition z3_prio_out :: "z3_event list \<Rightarrow> char list list" where
  "z3_prio_out h = concat (map (\<lambda>e. case e of ZTaken b t \<Rightarrow> if b then [t] else [] | _ \<Rightarrow> []) h)"

definition z3_norm_in :: "z3_event list \<Rightarrow> char list list" where
  "z3_norm_in h = concat (map (\<lambda>e. case e of ZInserted b t \<Rightarrow> if b then [] else [t] | _ \<Rightarrow> []) h)"

definition z3_norm_out :: "z3_event list \<Rightarrow> char list list" where
  "z3_norm_out h = concat (map (\<lambda>e. case e of ZTaken b t \<Rightarrow> if b then [] else [t] | ZAged t \<Rightarrow> [t] | _ \<Rightarrow> []) h)"

definition z3_passes :: "z3_event list \<Rightarrow> nat" where
  "z3_passes h = length (filter (\<lambda>e. case e of ZAged t \<Rightarrow> True | ZNoAging \<Rightarrow> True | _ \<Rightarrow> False) h)"

lemma z3_flow_simps [simp]:
  "z3_prio_in [] = []" "z3_prio_out [] = []" "z3_norm_in [] = []" "z3_norm_out [] = []" "z3_passes [] = 0"
  "z3_prio_in (e # h) = (case e of ZInserted b t \<Rightarrow> if b then [t] else [] | ZAged t \<Rightarrow> [t] | _ \<Rightarrow> []) @ z3_prio_in h"
  "z3_prio_out (e # h) = (case e of ZTaken b t \<Rightarrow> if b then [t] else [] | _ \<Rightarrow> []) @ z3_prio_out h"
  "z3_norm_in (e # h) = (case e of ZInserted b t \<Rightarrow> if b then [] else [t] | _ \<Rightarrow> []) @ z3_norm_in h"
  "z3_norm_out (e # h) = (case e of ZTaken b t \<Rightarrow> if b then [] else [t] | ZAged t \<Rightarrow> [t] | _ \<Rightarrow> []) @ z3_norm_out h"
  "z3_passes (e # h) = (case e of ZAged t \<Rightarrow> 1 | ZNoAging \<Rightarrow> 1 | _ \<Rightarrow> 0) + z3_passes h"
  by (simp_all add: z3_prio_in_def z3_prio_out_def z3_norm_in_def z3_norm_out_def z3_passes_def
      split: z3_event.splits)

lemma z3_run_orders:
  "z3_run h (p, n) = Some (p', n') \<Longrightarrow>
     p @ z3_prio_in h = z3_prio_out h @ p' \<and> n @ z3_norm_in h = z3_norm_out h @ n'"
proof (induction h arbitrary: p n)
  case Nil
  then show ?case by simp
next
  case (Cons e h)
  then show ?case by (cases e; cases p; cases n) (auto split: if_splits dest!: Cons.IH)
qed

text \<open>Each pass of the manager over a non-empty NORMAL queue, and each take, makes progress.\<close>

lemma z3_run_progress:
  "z3_run h (p, n) = Some (p', n') \<Longrightarrow>
     min (length n) (z3_passes h) \<le> length (z3_norm_out h) \<and>
     min (length p) (length (z3_taken h)) \<le> length (z3_prio_out h)"
proof (induction h arbitrary: p n)
  case Nil
  then show ?case by simp
next
  case (Cons e h)
  then show ?case by (cases e; cases p; cases n) (fastforce split: if_splits dest!: Cons.IH)+
qed

lemma z3_run_reports:
  "z3_run h (p, n) = Some q \<Longrightarrow> ZReport e f pc nc w \<in> set h \<Longrightarrow>
     0 \<le> pc \<and> 0 \<le> nc \<and> int f \<le> pc + nc \<and> int e + pc + nc \<le> int z3_K \<and> (w \<longleftrightarrow> int f < pc + nc)"
proof (induction h arbitrary: p n)
  case Nil
  then show ?case by simp
next
  case (Cons x h)
  then show ?case by (cases x) (auto split: if_splits dest: Cons.IH)
qed

lemma z3_run_generated: "z3_run h (p, n) = Some q \<Longrightarrow> t \<in> set (z3_generated h) \<Longrightarrow> is_text 10 t"
proof (induction h arbitrary: p n)
  case Nil
  then show ?case by simp
next
  case (Cons x h)
  then show ?case by (cases x) (auto split: if_splits dest: Cons.IH)
qed

end
