(* ===== verification/Lab5Queues.thy ===== *)
theory Lab5Queues
  imports Lab5Zad3
begin

text \<open>
  The properties of lab5/zad2 and zad3: what the invariants of Lab5Zad3 give for every
  reachable state of a system of producers, consumers and managers.
\<close>

section \<open>Concrete runs\<close>

definition z3_demo_procs :: "z3_proc list" where
  "z3_demo_procs =
     [ZProducer \<lparr>q_pc = QGen, q_i = 0, q_task = replicate 11 NUL, q_prio = False,
                 q_rng = \<lparr>rand_vals = (\<lambda>n. 7 * n), rand_pos = 0\<rparr>\<rparr>,
      ZConsumer \<lparr>d_pc = DWaitFull, d_task = replicate 11 NUL, d_prio = False\<rparr>,
      ZManager \<lparr>m_pc = MSleep, m_aging = replicate 11 NUL, m_empty = 0, m_full = 0\<rparr>]"

lemma z3_demo_fresh: "\<forall>p \<in> set z3_demo_procs. z3_fresh p"
  by (simp add: z3_demo_procs_def TASK_LEN_def)

text \<open>
  The producer inserts a NORMAL text and is stopped before \<open>sem_post(full)\<close>; the manager
  makes a pass.
\<close>

definition z3_early_pass :: "action list" where
  "z3_early_pass = replicate 7 (Run 0) @ replicate 13 (Run 2)"

section \<open>Properties\<close>

text \<open>
  C2. Refinement: whatever the interleaving of producers, consumers and managers, and
  whichever of them are ended by signals, the history is one the abstract pair of queues
  accepts (total capacity K, PRIORITY before NORMAL, ageing moves the oldest NORMAL text);
  at most K texts are queued, and whenever the mutex is free the two arrays, the four
  indices and the two counts of the shared memory hold exactly the abstract queues.
\<close>

theorem z3_refines_queues:
  assumes "sreach z3_step (z3_start ps) s" and "\<forall>p \<in> set ps. z3_fresh p"
  shows "\<exists>p n. z3_run (hist s) ([], []) = Some (p, n) \<and> length p + length n \<le> z3_K \<and>
           (sem s Mutex \<noteq> 0 \<longrightarrow> z3_view (mem s) p n)"
proof -
  obtain p n where q: "z3_run (hist s) ([], []) = Some (p, n)"
    and v: "sem s Mutex \<noteq> 0 \<longrightarrow> z3_view (mem s) p n"
    using z3_accepted [OF assms] by blast
  have "length (z3_inserted (hist s)) \<le> z3_K + length (z3_taken (hist s))"
    using z3.items_le_cap [OF z3.counts_reach [OF assms(1) z3_started [OF assms(2)]]] by simp
  with q v z3_run_length [OF q] show ?thesis by auto
qed

theorem z3_refines_queues_witness:
  "\<exists>s. sreach z3_step (z3_start z3_demo_procs) s \<and> sem s Mutex \<noteq> 0 \<and> priority_count (mem s) = 1 \<and>
     (\<exists>p n. z3_run (hist s) ([], []) = Some (p, n) \<and> length p + length n \<le> z3_K \<and> z3_view (mem s) p n)"
proof -
  have "case run_sched z3_step z3_early_pass (z3_start z3_demo_procs) of
      None \<Rightarrow> False | Some s \<Rightarrow> sem s Mutex \<noteq> 0 \<and> priority_count (mem s) = 1" by code_simp
  then obtain s where "sreach z3_step (z3_start z3_demo_procs) s"
    "sem s Mutex \<noteq> 0 \<and> priority_count (mem s) = 1"
    by (rule run_sched_reaches)
  with z3_refines_queues [OF _ z3_demo_fresh] show ?thesis by blast
qed

text \<open>
  Mutual exclusion between producers, consumers and managers: at most one process is
  between \<open>sem_wait(mutex)\<close> and \<open>sem_post(mutex)\<close>.
\<close>

theorem z3_mutual_exclusion:
  assumes "sreach z3_step (z3_start ps) s" and "\<forall>p \<in> set ps. z3_fresh p"
    and "i < length ps" "z3_cs (procs s ! i)"
  shows "sem s Mutex = 0 \<and> (\<forall>j < length ps. z3_cs (procs s ! j) \<longrightarrow> j = i)"
proof -
  have c: "z3.counts_ok s" by (rule z3.counts_reach [OF assms(1) z3_started [OF assms(2)]])
  have l: "length (procs s) = length ps" by (rule z3_start_length [OF assms(1)])
  with z3.cs_mutex_0 [OF c] z3.cs_unique [OF c] assms(3,4) show ?thesis by simp
qed

theorem z3_mutual_exclusion_witness:
  "\<exists>s. sreach z3_step (z3_start z3_demo_procs) s \<and> z3_cs (procs s ! 2) \<and> sem s Mutex = 0"
proof -
  have "case run_sched z3_step (replicate 2 (Run 2)) (z3_start z3_demo_procs) of
      None \<Rightarrow> False | Some s \<Rightarrow> z3_cs (procs s ! 2)" by code_simp
  then obtain s where r: "sreach z3_step (z3_start z3_demo_procs) s" and c: "z3_cs (procs s ! 2)"
    by (rule run_sched_reaches)
  have "2 < length z3_demo_procs" by (simp add: z3_demo_procs_def)
  from z3_mutual_exclusion [OF r z3_demo_fresh this c] r c show ?thesis by blast
qed

text \<open>
  Both queues are first in, first out: the texts that have left a queue, followed by the
  texts in it, are the texts that entered it, in order (an aged text leaves NORMAL and
  enters PRIORITY).
\<close>

theorem z3_fifo_orders:
  assumes "sreach z3_step (z3_start ps) s" and "\<forall>p \<in> set ps. z3_fresh p"
  shows "\<exists>p n. z3_run (hist s) ([], []) = Some (p, n) \<and>
           z3_prio_in (hist s) = z3_prio_out (hist s) @ p \<and>
           z3_norm_in (hist s) = z3_norm_out (hist s) @ n"
  using z3_accepted [OF assms] z3_run_orders by fastforce

theorem z3_fifo_orders_witness:
  "\<exists>s. sreach z3_step (z3_start z3_demo_procs) s \<and> length (z3_norm_out (hist s)) = 1 \<and>
     (\<exists>p n. z3_run (hist s) ([], []) = Some (p, n) \<and>
        z3_prio_in (hist s) = z3_prio_out (hist s) @ p \<and> z3_norm_in (hist s) = z3_norm_out (hist s) @ n)"
proof -
  have "case run_sched z3_step z3_early_pass (z3_start z3_demo_procs) of
      None \<Rightarrow> False | Some s \<Rightarrow> length (z3_norm_out (hist s)) = 1" by code_simp
  then obtain s where "sreach z3_step (z3_start z3_demo_procs) s" "length (z3_norm_out (hist s)) = 1"
    by (rule run_sched_reaches)
  with z3_fifo_orders [OF _ z3_demo_fresh] show ?thesis by blast
qed

text \<open>
  C23. Ageing prevents starvation of NORMAL texts: of the texts waiting in NORMAL in a
  reachable state, the one at position \<open>k\<close> has left that queue (aged, or taken by a
  consumer) as soon as the manager has made more than \<open>k\<close> further passes.
\<close>

theorem z3_aging_bound:
  assumes "sreach z3_step (z3_start ps) s" and "\<forall>p \<in> set ps. z3_fresh p"
    and "z3_run (hist s) ([], []) = Some (p, n)"
    and "sreach z3_step s t" "hist t = hist s @ h" "k < length n" "k < z3_passes h"
  shows "k < length (z3_norm_out h) \<and> z3_norm_out h ! k = n ! k"
proof -
  obtain p' n' where "z3_run (hist t) ([], []) = Some (p', n')"
    using z3_accepted [OF sreach_trans [OF assms(4,1)] assms(2)] by blast
  then have r: "z3_run h (p, n) = Some (p', n')" using assms(3,5) by (simp add: z3_run_append)
  have l: "k < length (z3_norm_out h)" using z3_run_progress [OF r] assms(6,7) by linarith
  have "n ! k = (z3_norm_out h @ n') ! k"
    using z3_run_orders [OF r] assms(6) by (metis nth_append)
  with l show ?thesis by (simp add: nth_append)
qed


theorem z3_aging_bound_witness:
  "\<exists>s t h p n. sreach z3_step (z3_start z3_demo_procs) s \<and> sreach z3_step s t \<and>
     hist t = hist s @ h \<and> z3_run (hist s) ([], []) = Some (p, n) \<and> n \<noteq> [] \<and>
     z3_norm_out h ! 0 = n ! 0"
proof -
  have "case run_sched z3_step (replicate 7 (Run 0)) (z3_start z3_demo_procs) of
      None \<Rightarrow> False | Some s \<Rightarrow> (case run_sched z3_step (replicate 13 (Run 2)) s of
        None \<Rightarrow> False | Some t \<Rightarrow> take (length (hist s)) (hist t) = hist s \<and>
          length (snd (the (z3_run (hist s) ([], [])))) = 1 \<and>
          z3_passes (drop (length (hist s)) (hist t)) = 1)" by code_simp
  then obtain s where r: "sreach z3_step (z3_start z3_demo_procs) s"
    and "case run_sched z3_step (replicate 13 (Run 2)) s of
        None \<Rightarrow> False | Some t \<Rightarrow> take (length (hist s)) (hist t) = hist s \<and>
          length (snd (the (z3_run (hist s) ([], [])))) = 1 \<and>
          z3_passes (drop (length (hist s)) (hist t)) = 1" by (rule run_sched_reaches)
  from this(2) obtain t where t: "sreach z3_step s t" and e: "take (length (hist s)) (hist t) = hist s"
      "length (snd (the (z3_run (hist s) ([], [])))) = 1"
      "z3_passes (drop (length (hist s)) (hist t)) = 1"
    by (rule run_sched_reaches) blast
  define h where "h = drop (length (hist s)) (hist t)"
  have h: "hist t = hist s @ h" unfolding h_def using e(1) by (metis append_take_drop_id)
  obtain p n where q: "z3_run (hist s) ([], []) = Some (p, n)"
    using z3_accepted [OF r z3_demo_fresh] by blast
  have n: "0 < length n" and k: "0 < z3_passes h" using e q h_def by auto
  from z3_aging_bound [OF r z3_demo_fresh q t h n k] r t h q n show ?thesis by blast
qed

text \<open>
  C24. PRIORITY is served first and in order: of the texts waiting in PRIORITY in a reachable
  state, the one at position \<open>k\<close> has been taken as soon as the consumers have taken more
  than \<open>k\<close> further texts, however many texts are produced or aged in the meantime.
\<close>

theorem z3_priority_service:
  assumes "sreach z3_step (z3_start ps) s" and "\<forall>p \<in> set ps. z3_fresh p"
    and "z3_run (hist s) ([], []) = Some (p, n)"
    and "sreach z3_step s t" "hist t = hist s @ h" "k < length p" "k < length (z3_taken h)"
  shows "k < length (z3_prio_out h) \<and> z3_prio_out h ! k = p ! k"
proof -
  obtain p' n' where "z3_run (hist t) ([], []) = Some (p', n')"
    using z3_accepted [OF sreach_trans [OF assms(4,1)] assms(2)] by blast
  then have r: "z3_run h (p, n) = Some (p', n')" using assms(3,5) by (simp add: z3_run_append)
  have l: "k < length (z3_prio_out h)" using z3_run_progress [OF r] assms(6,7) by linarith
  have "p ! k = (z3_prio_out h @ p') ! k"
    using z3_run_orders [OF r] assms(6) by (metis nth_append)
  with l show ?thesis by (simp add: nth_append)
qed

text \<open>The consumer takes the aged text of the same run.\<close>

theorem z3_priority_service_witness:
  "\<exists>s t h p n. sreach z3_step (z3_start z3_demo_procs) s \<and> sreach z3_step s t \<and>
     hist t = hist s @ h \<and> z3_run (hist s) ([], []) = Some (p, n) \<and> p \<noteq> [] \<and>
     z3_prio_out h ! 0 = p ! 0"
proof -
  let ?as = "replicate 8 (Run 0) @ replicate 13 (Run 2)" and ?bs = "replicate 9 (Run 1)"
  have "case run_sched z3_step ?as (z3_start z3_demo_procs) of
      None \<Rightarrow> False | Some s \<Rightarrow> (case run_sched z3_step ?bs s of
        None \<Rightarrow> False | Some t \<Rightarrow> take (length (hist s)) (hist t) = hist s \<and>
          length (fst (the (z3_run (hist s) ([], [])))) = 1 \<and>
          length (z3_taken (drop (length (hist s)) (hist t))) = 1)" by code_simp
  then obtain s where r: "sreach z3_step (z3_start z3_demo_procs) s"
    and "case run_sched z3_step ?bs s of
        None \<Rightarrow> False | Some t \<Rightarrow> take (length (hist s)) (hist t) = hist s \<and>
          length (fst (the (z3_run (hist s) ([], [])))) = 1 \<and>
          length (z3_taken (drop (length (hist s)) (hist t))) = 1" by (rule run_sched_reaches)
  from this(2) obtain t where t: "sreach z3_step s t" and e: "take (length (hist s)) (hist t) = hist s"
      "length (fst (the (z3_run (hist s) ([], [])))) = 1"
      "length (z3_taken (drop (length (hist s)) (hist t))) = 1"
    by (rule run_sched_reaches) blast
  define h where "h = drop (length (hist s)) (hist t)"
  have h: "hist t = hist s @ h" unfolding h_def using e(1) by (metis append_take_drop_id)
  obtain p n where q: "z3_run (hist s) ([], []) = Some (p, n)"
    using z3_accepted [OF r z3_demo_fresh] by blast
  have n: "0 < length p" and k: "0 < length (z3_taken h)" using e q h_def by auto
  from z3_priority_service [OF r z3_demo_fresh q t h n k] r t h q n show ?thesis by blast
qed

lemma z3_manager_tok: "z3_kind p = KManager \<Longrightarrow> z3_tok p = 0"
  by (cases p) simp_all

lemma z3_kind_consumer: "z3_kind p = KConsumer \<Longrightarrow> \<exists>c. p = ZConsumer c"
  by (cases p) simp_all

text \<open>Every text inserted was generated.\<close>

lemma z3_inserted_text:
  assumes "sreach z3_step (z3_start ps) s" "\<forall>p \<in> set ps. z3_fresh p" "t \<in> set (z3_inserted (hist s))"
  shows "is_text 10 t"
proof -
  obtain p n where q: "z3_run (hist s) ([], []) = Some (p, n)" using z3_accepted [OF assms(1,2)] by blast
  have "mset (z3_inserted (hist s)) \<subseteq># mset (z3_generated (hist s))"
    using z3_flow_reach(2) [OF assms(1,2)] by (metis mset_subset_eq_add_left)
  with assms(3) have "t \<in> set (z3_generated (hist s))" by (auto dest: mset_subset_eqD)
  with z3_run_generated [OF q] show ?thesis by blast
qed

text \<open>
  C9. Delivery and absence of deadlock, with managers still running: suppose no living
  producer or consumer can move while no living manager is in the middle of a pass, a
  consumer is alive, and the processes that signals have ended were ended outside the
  critical section and while they held no slot.  Then every living producer has done its
  fifteen rounds, every text inserted has been taken, and what the consumers printed is
  exactly what was inserted (as multisets, ageing reorders); only a text that an ended
  producer had generated and not inserted, or an ended consumer had taken and not printed,
  is missing.
\<close>

theorem z3_delivery:
  assumes "sreach z3_step (z3_start ps) s" and "\<forall>p \<in> set ps. z3_fresh p"
    and "\<forall>p \<in> set (alive s). if z3_kind p = KManager then \<not> z3_cs p else z3_step p (sem s) (mem s) = None"
    and "\<exists>p \<in> set (alive s). z3_kind p = KConsumer"
    and "\<forall>p \<in> set (dead s). \<not> z3_cs p \<and> z3_tok p = 0"
  shows "length (z3_inserted (hist s))
      = 15 * length (filter (\<lambda>p. z3_kind p = KProducer) (alive s)) + sum_list (map z3_done (dead s)) \<and>
    mset (z3_taken (hist s)) = mset (z3_inserted (hist s)) \<and>
    mset (z3_generated (hist s)) = mset (z3_inserted (hist s)) + sum_list (map z3_unsent (dead s)) \<and>
    mset (z3_printed (hist s)) + sum_list (map z3_unprinted (dead s))
      = mset (map (\<lambda>t. Some (take 10 t)) (z3_inserted (hist s)))"
proof -
  let ?P = "\<lambda>p. z3_kind p = KProducer" and ?h = "hist s"
  note st = z3_started [OF assms(2)] and fl = z3_flow_reach [OF assms(1,2)]
  have a: "\<forall>p \<in> set (alive s). z3_step p (sem s) (mem s) = None \<or> \<not> z3_cs p \<and> z3_tok p = 0"
    using assms(3) z3_manager_tok by metis
  note rest = z3.at_rest [OF assms(1) st assms(5) a]
  have at: "z3_ended p \<or> z3_waits p = Some Empty \<and> sem s Empty = 0 \<or> z3_waits p = Some Full \<and> sem s Full = 0"
    if "p \<in> set (alive s)" "z3_kind p \<noteq> KManager" for p
    using rest(4) [of p] assms(3) that set_procs [of s] by (metis UnI1)
  obtain c where "ZConsumer c \<in> set (alive s)" using assms(4) by (metis z3_kind_consumer)
  from at [OF this] have full: "sem s Full = 0" by (auto split: z3_cpc.splits)
  then have ne: "sem s Empty \<noteq> 0" using rest(2) by (simp add: z3_K_def)
  have loc: "z3_done p = (if ?P p then 15 else 0) \<and> z3_unsent p = {#} \<and> z3_unprinted p = {#}"
    if "p \<in> set (alive s)" for p
  proof -
    have "z3_round_ok p" using fl(4) that by (simp add: set_procs)
    then show ?thesis using at [OF that] ne by (cases p) (auto split: z3_ppc.splits z3_cpc.splits)
  qed
  have ins: "length (z3_inserted ?h) = 15 * length (filter ?P (alive s)) + sum_list (map z3_done (dead s))"
    using fl(1) sum_list_map_count [of "alive s" z3_done ?P 15] loc by (simp add: sum_procs)
  obtain p n where q: "z3_run ?h ([], []) = Some (p, n)" using z3_accepted [OF assms(1,2)] by blast
  have tk: "mset (z3_taken ?h) = mset (z3_inserted ?h)"
    using z3_run_length [OF q] z3_run_contents [OF q] rest(3) full by simp
  have gen: "mset (z3_generated ?h) = mset (z3_inserted ?h) + sum_list (map z3_unsent (dead s))"
    using fl(2) sum_list_map_zero [of "alive s" z3_unsent] loc by (simp add: sum_procs)
  have "mset (z3_printed ?h) + sum_list (map z3_unprinted (dead s)) = image_mset (print_loop 0) (mset (z3_inserted ?h))"
    using fl(3) sum_list_map_zero [of "alive s" z3_unprinted] loc tk by (simp add: sum_procs)
  also have "\<dots> = image_mset (\<lambda>t. Some (take 10 t)) (mset (z3_inserted ?h))"
    by (rule image_mset_cong) (use z3_inserted_text [OF assms(1,2)] print_loop_text in auto)
  finally show ?thesis using ins tk gen by simp
qed

text \<open>
  A producer and a consumer in turn, with a manager that has not started, after a second
  producer was ended when it had generated a text and was about to wait for a slot.
\<close>

definition z3_full_run :: "action list" where
  "z3_full_run = concat (replicate 15 (replicate 9 (Run 0) @ replicate 9 (Run 1))) @ [Run 0]"

definition z3_four_procs :: "z3_proc list" where
  "z3_four_procs = z3_demo_procs @ [hd z3_demo_procs]"

fun z3_one_dead :: "z3_proc list \<Rightarrow> z3_proc list \<Rightarrow> bool" where
  "z3_one_dead [ZProducer p, ZConsumer c, ZManager a] [ZProducer k] \<longleftrightarrow>
     m_pc a = MSleep \<and> q_pc k = QWaitEmpty \<and> q_i k = 0"
| "z3_one_dead _ _ \<longleftrightarrow> False"

fun_cases z3_one_deadE: "z3_one_dead ps ks"

theorem z3_delivery_witness:
  "\<exists>s. sreach z3_step (z3_start z3_four_procs) s \<and> length (z3_inserted (hist s)) = 15 \<and>
       mset (z3_taken (hist s)) = mset (z3_inserted (hist s)) \<and> length (z3_generated (hist s)) = 16 \<and>
       mset (z3_printed (hist s)) = mset (map (\<lambda>t. Some (take 10 t)) (z3_inserted (hist s)))"
proof -
  have "case run_sched z3_step ([Run 3, Kill 3] @ z3_full_run) (z3_start z3_four_procs) of
      None \<Rightarrow> False | Some s \<Rightarrow>
        (\<forall>p \<in> set (take 2 (alive s)). Option.is_none (z3_step p (sem s) (mem s))) \<and> z3_one_dead (alive s) (dead s)"
    by code_simp
  then obtain s where r: "sreach z3_step (z3_start z3_four_procs) s"
    and s: "(\<forall>p \<in> set (take 2 (alive s)). Option.is_none (z3_step p (sem s) (mem s))) \<and> z3_one_dead (alive s) (dead s)"
    by (rule run_sched_reaches)
  from s obtain p c a k where p: "alive s = [ZProducer p, ZConsumer c, ZManager a]" "dead s = [ZProducer k]"
    and k: "m_pc a = MSleep" "q_pc k = QWaitEmpty" "q_i k = 0" by (auto elim!: z3_one_deadE)
  have "\<forall>p \<in> set (alive s). if z3_kind p = KManager then \<not> z3_cs p else z3_step p (sem s) (mem s) = None"
    "\<exists>p \<in> set (alive s). z3_kind p = KConsumer" "\<forall>p \<in> set (dead s). \<not> z3_cs p \<and> z3_tok p = 0"
    using s k by (simp_all add: p Option.is_none_def)
  note d = z3_delivery [OF r _ this]
  have f: "\<forall>p \<in> set z3_four_procs. z3_fresh p"
    using z3_demo_fresh by (simp add: z3_four_procs_def z3_demo_procs_def)
  have d: "length (z3_inserted (hist s)) = 15" "mset (z3_taken (hist s)) = mset (z3_inserted (hist s))"
    "mset (z3_generated (hist s)) = mset (z3_inserted (hist s)) + {#q_task k#}"
    "mset (z3_printed (hist s)) = mset (map (\<lambda>t. Some (take 10 t)) (z3_inserted (hist s)))"
    using d [OF f] k by (simp_all add: p)
  have "length (z3_generated (hist s)) = 16" using arg_cong [OF d(3), of size] d(1) by simp
  with d r show ?thesis by blast
qed

text \<open>
  C31. A signal in the critical section: once a producer, a consumer or a manager has been
  ended between \<open>sem_wait(mutex)\<close> and \<open>sem_post(mutex)\<close>, the mutex stays zero and no
  other process enters its critical section again, whatever the schedule.
\<close>

theorem z3_killed_in_cs_blocks_all:
  assumes "sreach z3_step (z3_start ps) s" and "\<forall>p \<in> set ps. z3_fresh p"
    and "i \<in> killed s" "i < length ps" "z3_cs (procs s ! i)" and "sreach z3_step s t"
  shows "sem t Mutex = 0 \<and> (\<forall>j < length ps. j \<noteq> i \<longrightarrow> \<not> z3_cs (procs t ! j))"
proof -
  have l: "length (procs s) = length ps" "length (procs t) = length ps"
    using z3_start_length [OF assms(1)] z3_start_length [OF sreach_trans [OF assms(6,1)]] by simp_all
  note b = z3.killed_in_cs_blocks [OF assms(1) z3_started [OF assms(2)] assms(3) _ assms(5,6)]
  have "sem t Mutex = 0"
    by (rule z3.cs_mutex_0 [OF z3.counts_reach [OF sreach_trans [OF assms(6,1)] z3_started [OF assms(2)]]])
      (use assms l sreach_killed_frozen [OF assms(6,3)] in auto)
  with b(2) l assms(4) show ?thesis by simp
qed

text \<open>A manager ended while it sleeps inside its critical section.\<close>

theorem z3_killed_in_cs_blocks_all_witness:
  "\<exists>s. sreach z3_step (z3_start z3_demo_procs) s \<and> 2 \<in> killed s \<and>
     (\<forall>t. sreach z3_step s t \<longrightarrow> sem t Mutex = 0 \<and> \<not> z3_cs (procs t ! 0) \<and> \<not> z3_cs (procs t ! 1))"
proof -
  have "case run_sched z3_step (replicate 3 (Run 2) @ [Kill 2]) (z3_start z3_demo_procs) of
      None \<Rightarrow> False | Some s \<Rightarrow> 2 \<in> killed s \<and> z3_cs (procs s ! 2)" by code_simp
  then obtain s where r: "sreach z3_step (z3_start z3_demo_procs) s"
    and c: "2 \<in> killed s \<and> z3_cs (procs s ! 2)" by (rule run_sched_reaches)
  have l: "2 < length z3_demo_procs" by (simp add: z3_demo_procs_def)
  have "sem t Mutex = 0 \<and> \<not> z3_cs (procs t ! 0) \<and> \<not> z3_cs (procs t ! 1)" if t: "sreach z3_step s t" for t
    using z3_killed_in_cs_blocks_all [OF r z3_demo_fresh _ l _ t] c l by force
  with r c show ?thesis by blast
qed

text \<open>
  The monitor's report: every report shows counts between 0 and K, never more free slots
  than there are and never more filled slots than texts; the warning is printed exactly
  when a text is in the shared memory that \<open>full\<close> does not count.
\<close>

theorem z3_reports:
  assumes "sreach z3_step (z3_start ps) s" and "\<forall>p \<in> set ps. z3_fresh p"
    and "ZReport e f pc nc w \<in> set (hist s)"
  shows "0 \<le> pc \<and> 0 \<le> nc \<and> int f \<le> pc + nc \<and> int e + pc + nc \<le> int z3_K \<and> (w \<longleftrightarrow> int f < pc + nc)"
proof -
  obtain q where "z3_run (hist s) ([], []) = Some q" using z3_accepted [OF assms(1,2)] by blast
  from z3_run_reports [OF this assms(3)] show ?thesis .
qed

theorem z3_reports_witness:
  "\<exists>s. sreach z3_step (z3_start z3_demo_procs) s \<and> ZReport 9 0 1 0 True \<in> set (hist s) \<and>
     int 9 + 1 + 0 \<le> int z3_K"
proof -
  have "case run_sched z3_step z3_early_pass (z3_start z3_demo_procs) of
      None \<Rightarrow> False | Some s \<Rightarrow> ZReport 9 0 1 0 True \<in> set (hist s)" by code_simp
  then obtain s where r: "sreach z3_step (z3_start z3_demo_procs) s"
    and e: "ZReport 9 0 1 0 True \<in> set (hist s)" by (rule run_sched_reaches)
  from z3_reports [OF r z3_demo_fresh e] r e show ?thesis by auto
qed

text \<open>
  The monitor's warning "Data inconsistency detected" is not evidence of one: a run in
  which no process is ended reaches a state whose history has the warning while the
  memory holds exactly the queued texts and the mutex is free; the reader of \<open>full\<close> came
  between a producer's \<open>sem_post(mutex)\<close> and its \<open>sem_post(full)\<close>.
\<close>

theorem z3_false_alarm:
  "\<exists>s p n. sreach z3_step (z3_start z3_demo_procs) s \<and> killed s = {} \<and>
     (\<exists>e f pc nc. ZReport e f pc nc True \<in> set (hist s)) \<and> sem s Mutex = 1 \<and>
     z3_run (hist s) ([], []) = Some (p, n) \<and> z3_view (mem s) p n"
proof -
  have "case run_sched z3_step z3_early_pass (z3_start z3_demo_procs) of
      None \<Rightarrow> False | Some s \<Rightarrow> ZReport 9 0 1 0 True \<in> set (hist s) \<and> sem s Mutex = 1 \<and>
        (\<forall>i \<in> {0, 1, 2}. i \<notin> killed s) \<and> killed s = {}" by code_simp
  then obtain s where r: "sreach z3_step (z3_start z3_demo_procs) s"
    and e: "ZReport 9 0 1 0 True \<in> set (hist s)" "sem s Mutex = 1" "killed s = {}"
    by (rule run_sched_reaches) blast
  obtain p n where "z3_run (hist s) ([], []) = Some (p, n)" "z3_view (mem s) p n"
    using z3_accepted [OF r z3_demo_fresh] e(2) by auto
  with r e show ?thesis by blast
qed

end
