(* ===== verification/Lab5Setup.thy ===== *)
theory Lab5Setup
  imports Lab5Zad1 Lab5Zad3
begin

text \<open>
  The set-up and clean-up code of lab5: named POSIX objects in the kernel, the calls the
  programs make before their loops (\<open>shm_open\<close>, \<open>ftruncate\<close>, \<open>mmap\<close>, three \<open>sem_open\<close>,
  the checks), the signal handler that closes what has been opened, and the cleaner that
  unlinks the names.  Any number of processes may be setting up at the same time, and the
  kernel may refuse any call.
\<close>

section \<open>Named objects of the kernel\<close>

text \<open>
  A name leads to an object; \<open>unlink\<close> removes the name and leaves the object to those who
  have it open.  Objects of both kinds are numbered from one counter.
\<close>

record 'm kernel =
  k_shm :: "string \<rightharpoonup> nat"
  k_size :: "nat \<Rightarrow> nat"
  k_mem :: "nat \<Rightarrow> 'm"
  k_sem :: "string \<rightharpoonup> nat"
  k_val :: "nat \<Rightarrow> nat"
  k_next :: nat

definition sys_shm_open :: "string \<Rightarrow> 'm kernel \<Rightarrow> nat \<times> 'm kernel" where
  "sys_shm_open name k = (case k_shm k name of
     Some x \<Rightarrow> (x, k)
   | None \<Rightarrow> (k_next k, k\<lparr>k_shm := (k_shm k)(name \<mapsto> k_next k), k_size := (k_size k)(k_next k := 0),
                         k_next := Suc (k_next k)\<rparr>))"

text \<open>
  \<open>ftruncate\<close> to the size the object already has changes nothing; a larger size fills the
  object with zero bytes, which read as \<open>zero\<close>.
\<close>

definition sys_ftruncate :: "'m \<Rightarrow> nat \<Rightarrow> nat \<Rightarrow> 'm kernel \<Rightarrow> 'm kernel" where
  "sys_ftruncate zero x sz k =
     (if k_size k x = sz then k else k\<lparr>k_size := (k_size k)(x := sz), k_mem := (k_mem k)(x := zero)\<rparr>)"

definition sys_sem_open :: "string \<Rightarrow> nat \<Rightarrow> 'm kernel \<Rightarrow> nat \<times> 'm kernel" where
  "sys_sem_open name v k = (case k_sem k name of
     Some x \<Rightarrow> (x, k)
   | None \<Rightarrow> (k_next k, k\<lparr>k_sem := (k_sem k)(name \<mapsto> k_next k), k_val := (k_val k)(k_next k := v),
                         k_next := Suc (k_next k)\<rparr>))"

section \<open>The constants of the three tasks\<close>

record 'm ipc_config =
  shm_name :: string
  sem_name :: "semid \<Rightarrow> string"
  shm_size :: nat
  shm_zero :: 'm
  capacity :: nat

text \<open>
  \<open>sizeof(SharedMemory)\<close>: 55 bytes of tasks padded to 56 and two ints in zad1; twice 110
  bytes padded to 112 and three ints in zad2 and zad3.
\<close>

definition z1_config :: "z1_shm ipc_config" where
  "z1_config = \<lparr>shm_name = ''/lab5_z1_shm'',
     sem_name = (\<lambda>k. case k of Mutex \<Rightarrow> ''/lab5_z1_mutex'' | Empty \<Rightarrow> ''/lab5_z1_empty'' | Full \<Rightarrow> ''/lab5_z1_full''),
     shm_size = 64, shm_zero = z1_mem0, capacity = z1_K\<rparr>"

definition z2_config :: "z3_shm ipc_config" where
  "z2_config = \<lparr>shm_name = ''/lab5_z2_shm'',
     sem_name = (\<lambda>k. case k of Mutex \<Rightarrow> ''/lab5_z2_mutex'' | Empty \<Rightarrow> ''/lab5_z2_empty'' | Full \<Rightarrow> ''/lab5_z2_full''),
     shm_size = 248, shm_zero = z3_mem0, capacity = z3_K\<rparr>"

definition z3_config :: "z3_shm ipc_config" where
  "z3_config = \<lparr>shm_name = ''/lab5_z3_shm'',
     sem_name = (\<lambda>k. case k of Mutex \<Rightarrow> ''/lab5_z3_mutex'' | Empty \<Rightarrow> ''/lab5_z3_empty'' | Full \<Rightarrow> ''/lab5_z3_full''),
     shm_size = 248, shm_zero = z3_mem0, capacity = z3_K\<rparr>"

section \<open>Set-up\<close>

text \<open>The process's variables: descriptor, mapping and semaphores; \<open>None\<close> is -1, MAP_FAILED, SEM_FAILED.\<close>

record ipc =
  i_fd :: "nat option"
  i_map :: "nat option"
  i_sem :: "semid \<Rightarrow> nat option"

definition ipc0 :: ipc where
  "ipc0 = \<lparr>i_fd = None, i_map = None, i_sem = (\<lambda>_. None)\<rparr>"

datatype failure = FShmOpen | FFtruncate | FMmap | FSemOpen

datatype stage = SShmOpen | SFtruncate | SMmap | SMutex | SEmpty | SFull | SCheck | SReady | SExit failure

text \<open>
  One statement of the set-up.  \<open>refused\<close>: the kernel refuses the call.  \<open>checked\<close> is what
  the programs differ in: the producers of zad2 and zad3 test neither the result of
  \<open>mmap\<close> nor those of \<open>sem_open\<close>.
\<close>

definition setup_sem :: "'m ipc_config \<Rightarrow> semid \<Rightarrow> nat \<Rightarrow> bool \<Rightarrow> stage \<Rightarrow> ipc \<Rightarrow> 'm kernel
    \<Rightarrow> (stage \<times> ipc) \<times> 'm kernel" where
  "setup_sem c i v refused next i' k =
     (if refused then ((next, i'\<lparr>i_sem := (i_sem i')(i := None)\<rparr>), k)
      else (let (x, k') = sys_sem_open (sem_name c i) v k
            in ((next, i'\<lparr>i_sem := (i_sem i')(i := Some x)\<rparr>), k')))"

definition setup_step :: "'m ipc_config \<Rightarrow> bool \<Rightarrow> bool \<Rightarrow> stage \<times> ipc \<Rightarrow> 'm kernel
    \<Rightarrow> (stage \<times> ipc) \<times> 'm kernel" where
  "setup_step c checked refused p k = (case fst p of
     SShmOpen \<Rightarrow>
       if refused then ((SExit FShmOpen, snd p), k)
       else (let (x, k') = sys_shm_open (shm_name c) k in ((SFtruncate, (snd p)\<lparr>i_fd := Some x\<rparr>), k'))
   | SFtruncate \<Rightarrow>
       if refused then ((SExit FFtruncate, snd p), k)
       else ((SMmap, snd p), (case i_fd (snd p) of None \<Rightarrow> k
               | Some x \<Rightarrow> sys_ftruncate (shm_zero c) x (shm_size c) k))
   | SMmap \<Rightarrow>
       if refused then (if checked then ((SExit FMmap, (snd p)\<lparr>i_map := None\<rparr>), k)
                        else ((SMutex, (snd p)\<lparr>i_map := None\<rparr>), k))
       else ((SMutex, (snd p)\<lparr>i_map := i_fd (snd p)\<rparr>), k)
   | SMutex \<Rightarrow> setup_sem c Mutex 1 refused SEmpty (snd p) k
   | SEmpty \<Rightarrow> setup_sem c Empty (capacity c) refused SFull (snd p) k
   | SFull \<Rightarrow> setup_sem c Full 0 refused SCheck (snd p) k
   | SCheck \<Rightarrow>
       if checked \<and> (i_sem (snd p) Mutex = None \<or> i_sem (snd p) Empty = None \<or> i_sem (snd p) Full = None)
       then ((SExit FSemOpen, snd p), k) else ((SReady, snd p), k)
   | SReady \<Rightarrow> (p, k)
   | SExit e \<Rightarrow> (p, k))"

definition z1_producer_setup where "z1_producer_setup = setup_step z1_config True"
definition z1_consumer_setup where "z1_consumer_setup = setup_step z1_config True"
definition z2_producer_setup where "z2_producer_setup = setup_step z2_config False"
definition z2_consumer_setup where "z2_consumer_setup = setup_step z2_config True"
definition z3_producer_setup where "z3_producer_setup = setup_step z3_config False"
definition z3_consumer_setup where "z3_consumer_setup = setup_step z3_config True"
definition z3_manager_setup where "z3_manager_setup = setup_step z3_config True"

section \<open>Clean-up\<close>

text \<open>
  \<open>cleanup_handler\<close>: close what is open.  The number of calls that release something is
  the number of objects held; the final statements of a producer close all five.
\<close>

datatype release = CloseSem nat | Munmap nat | CloseFd nat

definition cleanup_handler :: "ipc \<Rightarrow> release list" where
  "cleanup_handler i =
     (case i_sem i Mutex of Some x \<Rightarrow> [CloseSem x] | None \<Rightarrow> []) @
     (case i_sem i Empty of Some x \<Rightarrow> [CloseSem x] | None \<Rightarrow> []) @
     (case i_sem i Full of Some x \<Rightarrow> [CloseSem x] | None \<Rightarrow> []) @
     (case i_map i of Some x \<Rightarrow> [Munmap x] | None \<Rightarrow> []) @
     (case i_fd i of Some x \<Rightarrow> [CloseFd x] | None \<Rightarrow> [])"

definition cleaner :: "'m ipc_config \<Rightarrow> 'm kernel \<Rightarrow> 'm kernel" where
  "cleaner c k = k\<lparr>k_shm := (k_shm k)(shm_name c := None),
     k_sem := (k_sem k)(sem_name c Mutex := None, sem_name c Empty := None, sem_name c Full := None)\<rparr>"

section \<open>Several processes setting up\<close>

record 'm setup_sys =
  su_procs :: "(stage \<times> ipc) list"
  su_kernel :: "'m kernel"

type_synonym 'm setup_prog = "bool \<Rightarrow> stage \<times> ipc \<Rightarrow> 'm kernel \<Rightarrow> (stage \<times> ipc) \<times> 'm kernel"

text \<open>\<open>(i, refused)\<close>: process \<open>i\<close> executes its next statement.\<close>

fun setup_run :: "'m setup_prog list \<Rightarrow> (nat \<times> bool) list \<Rightarrow> 'm setup_sys \<Rightarrow> 'm setup_sys" where
  "setup_run fs [] s = s"
| "setup_run fs ((i, refused) # as) s = setup_run fs as
     (if i < length (su_procs s) then
        (let (p, k) = (fs ! i) refused (su_procs s ! i) (su_kernel s)
         in \<lparr>su_procs = (su_procs s)[i := p], su_kernel = k\<rparr>)
      else s)"

definition setup_start :: "'m setup_prog list \<Rightarrow> 'm kernel \<Rightarrow> 'm setup_sys" where
  "setup_start fs k = \<lparr>su_procs = map (\<lambda>_. (SShmOpen, ipc0)) fs, su_kernel = k\<rparr>"

text \<open>A kernel whose numbers in use are below the counter, and whose objects of this task are its own.\<close>

definition kernel_ok :: "'m ipc_config \<Rightarrow> 'm kernel \<Rightarrow> bool" where
  "kernel_ok c k \<longleftrightarrow> (\<forall>n x. k_shm k n = Some x \<longrightarrow> x < k_next k) \<and> (\<forall>n x. k_sem k n = Some x \<longrightarrow> x < k_next k) \<and>
     (\<forall>x. k_shm k (shm_name c) = Some x \<longrightarrow> k_size k x = shm_size c) \<and>
     (\<forall>i j x. k_sem k (sem_name c i) = Some x \<and> k_sem k (sem_name c j) = Some x \<longrightarrow> i = j)"

text \<open>What set-up from kernel \<open>k\<close> gives: what the named objects hold, or the initial values.\<close>

definition setup_value :: "'m ipc_config \<Rightarrow> 'm kernel \<Rightarrow> semid \<Rightarrow> nat" where
  "setup_value c k i = (case k_sem k (sem_name c i) of None \<Rightarrow> sems_init (capacity c) i | Some x \<Rightarrow> k_val k x)"

definition setup_mem :: "'m ipc_config \<Rightarrow> 'm kernel \<Rightarrow> 'm" where
  "setup_mem c k = (case k_shm k (shm_name c) of None \<Rightarrow> shm_zero c | Some x \<Rightarrow> k_mem k x)"

text \<open>
  Process state \<open>p\<close> in kernel \<open>k\<close>, where set-up started from \<open>k0\<close>: its handles are those of
  the names, and the statements it has passed have been done.
\<close>

definition sized :: "stage \<Rightarrow> bool" where
  "sized st = (case st of SShmOpen \<Rightarrow> False | SFtruncate \<Rightarrow> False | SExit f \<Rightarrow> False | _ \<Rightarrow> True)"

lemma sized_simps [simp]:
  "\<not> sized SShmOpen" "\<not> sized SFtruncate" "\<not> sized (SExit f)" "sized SMmap" "sized SMutex"
  "sized SEmpty" "sized SFull" "sized SCheck" "sized SReady"
  by (simp_all add: sized_def)

definition handles_ok :: "'m ipc_config \<Rightarrow> 'm kernel \<Rightarrow> stage \<times> ipc \<Rightarrow> bool" where
  "handles_ok c k p \<longleftrightarrow>
     (\<forall>x. i_fd (snd p) = Some x \<longrightarrow> k_shm k (shm_name c) = Some x) \<and>
     (\<forall>x. i_map (snd p) = Some x \<longrightarrow> i_fd (snd p) = Some x \<and> k_size k x = shm_size c) \<and>
     (\<forall>i x. i_sem (snd p) i = Some x \<longrightarrow> k_sem k (sem_name c i) = Some x) \<and>
     (fst p = SFtruncate \<longrightarrow> i_fd (snd p) \<noteq> None) \<and>
     (sized (fst p) \<longrightarrow>
        (\<exists>x. i_fd (snd p) = Some x \<and> k_size k x = shm_size c))"

definition kernel_from :: "'m ipc_config \<Rightarrow> 'm kernel \<Rightarrow> 'm kernel \<Rightarrow> bool" where
  "kernel_from c k0 k \<longleftrightarrow>
     (\<forall>n x. k_shm k n = Some x \<longrightarrow> x < k_next k) \<and> (\<forall>n x. k_sem k n = Some x \<longrightarrow> x < k_next k) \<and>
     (\<forall>x. k_shm k (shm_name c) = Some x \<longrightarrow> k_size k x = 0 \<or> k_size k x = shm_size c \<and> k_mem k x = setup_mem c k0) \<and>
     (k_shm k0 (shm_name c) \<noteq> None \<longrightarrow> k_shm k (shm_name c) = k_shm k0 (shm_name c)) \<and>
     (\<forall>x. k_shm k0 (shm_name c) = Some x \<longrightarrow> k_size k x = shm_size c) \<and>
     (\<forall>i x. k_sem k (sem_name c i) = Some x \<longrightarrow> k_val k x = setup_value c k0 i) \<and>
     (\<forall>i. k_sem k0 (sem_name c i) \<noteq> None \<longrightarrow> k_sem k (sem_name c i) = k_sem k0 (sem_name c i)) \<and>
     (\<forall>i j x. k_sem k (sem_name c i) = Some x \<and> k_sem k (sem_name c j) = Some x \<longrightarrow> i = j)"

text \<open>Names and handles that exist stay as they are.\<close>

definition kernel_le :: "'m ipc_config \<Rightarrow> 'm kernel \<Rightarrow> 'm kernel \<Rightarrow> bool" where
  "kernel_le c k k' \<longleftrightarrow>
     (\<forall>x. k_shm k (shm_name c) = Some x \<longrightarrow> k_shm k' (shm_name c) = Some x \<and>
        (k_size k x = shm_size c \<longrightarrow> k_size k' x = shm_size c)) \<and>
     (\<forall>i x. k_sem k (sem_name c i) = Some x \<longrightarrow> k_sem k' (sem_name c i) = Some x)"

locale setup_config =
  fixes c :: "'m ipc_config"
  assumes names: "inj (sem_name c)" and size_pos: "0 < shm_size c"
begin

lemma same_name [simp]: "sem_name c i = sem_name c j \<longleftrightarrow> i = j"
  using names by (simp add: inj_eq)

lemma kernel_from_start: "kernel_ok c k0 \<Longrightarrow> kernel_from c k0 k0"
  by (auto simp: kernel_ok_def kernel_from_def setup_value_def setup_mem_def split: option.splits)

lemma names_stay:
  assumes "kernel_from c k0 k" "k_sem k0 (sem_name c i) = Some y"
  shows "k_sem k (sem_name c i) = Some y"
proof -
  have "\<forall>i. k_sem k0 (sem_name c i) \<noteq> None \<longrightarrow> k_sem k (sem_name c i) = k_sem k0 (sem_name c i)"
    using assms(1) unfolding kernel_from_def by (elim conjE)
  with assms(2) show ?thesis by (metis not_None_eq)
qed

lemma shm_open_from:
  assumes "kernel_from c k0 k" "sys_shm_open (shm_name c) k = (x, k')"
  shows "kernel_from c k0 k' \<and> kernel_le c k k' \<and> k_shm k' (shm_name c) = Some x"
proof (cases "k_shm k (shm_name c)")
  case None
  with assms have k': "x = k_next k" "k' = k\<lparr>k_shm := (k_shm k)(shm_name c \<mapsto> k_next k),
      k_size := (k_size k)(k_next k := 0), k_next := Suc (k_next k)\<rparr>"
    by (auto simp: sys_shm_open_def)
  have n0: "k_shm k0 (shm_name c) = None"
    using assms(1) None unfolding kernel_from_def by metis
  have "kernel_from c k0 k'"
    using assms(1) n0 unfolding kernel_from_def k'
    by (intro conjI allI impI) (auto simp: less_Suc_eq split: if_splits)
  moreover have "kernel_le c k k'" using None by (simp add: kernel_le_def k')
  ultimately show ?thesis by (simp add: k')
next
  case (Some y)
  with assms show ?thesis by (auto simp: sys_shm_open_def kernel_le_def)
qed

lemma ftruncate_from:
  assumes "kernel_from c k0 k" "k_shm k (shm_name c) = Some x"
    and "k' = sys_ftruncate (shm_zero c) x (shm_size c) k"
  shows "kernel_from c k0 k' \<and> kernel_le c k k' \<and> k_size k' x = shm_size c"
proof (cases "k_size k x = shm_size c")
  case True
  with assms show ?thesis by (simp add: sys_ftruncate_def kernel_le_def)
next
  case False
  then have k': "k' = k\<lparr>k_size := (k_size k)(x := shm_size c), k_mem := (k_mem k)(x := shm_zero c)\<rparr>"
    using assms(3) by (simp add: sys_ftruncate_def)
  have z: "k_shm k0 (shm_name c) = None"
    using assms(1,2) False unfolding kernel_from_def by (metis not_None_eq option.inject)
  then have "setup_mem c k0 = shm_zero c" by (simp add: setup_mem_def)
  with assms(1,2) z have "kernel_from c k0 k'" unfolding kernel_from_def k' by auto
  moreover have "kernel_le c k k'" by (simp add: kernel_le_def k')
  ultimately show ?thesis by (simp add: k')
qed

lemma sem_open_from:
  assumes "kernel_from c k0 k" "sys_sem_open (sem_name c i) (sems_init (capacity c) i) k = (x, k')"
  shows "kernel_from c k0 k' \<and> kernel_le c k k' \<and> k_sem k' (sem_name c i) = Some x"
proof (cases "k_sem k (sem_name c i)")
  case None
  with assms have k': "x = k_next k" "k' = k\<lparr>k_sem := (k_sem k)(sem_name c i \<mapsto> k_next k),
      k_val := (k_val k)(k_next k := sems_init (capacity c) i), k_next := Suc (k_next k)\<rparr>"
    by (auto simp: sys_sem_open_def)
  have n0: "k_sem k0 (sem_name c i) = None"
    using assms(1) None unfolding kernel_from_def by metis
  then have v: "setup_value c k0 i = sems_init (capacity c) i" by (simp add: setup_value_def)
  have lt: "y < k_next k" if "k_sem k n = Some y" for n y
    using assms(1) that unfolding kernel_from_def by blast
  have "kernel_from c k0 k'"
    using assms(1) n0 v lt unfolding kernel_from_def k'
    by (intro conjI allI impI) (auto simp: less_Suc_eq dest: lt split: if_splits)
  moreover have "kernel_le c k k'" using None by (auto simp: kernel_le_def k')
  ultimately show ?thesis by (simp add: k')
next
  case (Some y)
  with assms show ?thesis by (auto simp: sys_sem_open_def kernel_le_def)
qed

lemma handles_mono: "handles_ok c k p \<Longrightarrow> kernel_le c k k' \<Longrightarrow> handles_ok c k' p"
  unfolding handles_ok_def kernel_le_def by blast

lemma kernel_le_refl [simp]: "kernel_le c k k"
  by (simp add: kernel_le_def)

lemma setup_sem_from:
  assumes "setup_sem c i (sems_init (capacity c) i) refused n i' k = (p', k')"
    and "kernel_from c k0 k" "handles_ok c k (st, i')"
    and "sized n" "sized st" "n \<noteq> SFtruncate"
  shows "kernel_from c k0 k' \<and> kernel_le c k k' \<and> handles_ok c k' p'"
proof (cases refused)
  case True
  with assms show ?thesis by (auto simp: setup_sem_def handles_ok_def split: if_splits)
next
  case False
  obtain x k1 where o: "sys_sem_open (sem_name c i) (sems_init (capacity c) i) k = (x, k1)" by fastforce
  with assms(1) False have p: "p' = (n, i'\<lparr>i_sem := (i_sem i')(i := Some x)\<rparr>)" and k: "k' = k1"
    by (auto simp: setup_sem_def)
  note f = sem_open_from [OF assms(2) o]
  with handles_mono [OF assms(3)] have h: "handles_ok c k1 (st, i')" by blast
  have "handles_ok c k1 p'"
    using h f assms(4-6) unfolding handles_ok_def p by (intro conjI allI impI) (auto split: if_splits)
  with f k show ?thesis by simp
qed

lemma step_from:
  assumes "setup_step c checked refused p k = (p', k')" "kernel_from c k0 k" "handles_ok c k p"
  shows "kernel_from c k0 k' \<and> kernel_le c k k' \<and> handles_ok c k' p'"
proof (cases "fst p")
  case SShmOpen
  show ?thesis
  proof (cases refused)
    case True
    with assms SShmOpen show ?thesis by (auto simp: setup_step_def handles_ok_def)
  next
    case False
    obtain x k1 where o: "sys_shm_open (shm_name c) k = (x, k1)" by fastforce
    with assms(1) SShmOpen False have p: "p' = (SFtruncate, (snd p)\<lparr>i_fd := Some x\<rparr>)" and k: "k' = k1"
      by (auto simp: setup_step_def)
    note f = shm_open_from [OF assms(2) o]
    with handles_mono [OF assms(3)] have h: "handles_ok c k1 p" by blast
    have "handles_ok c k1 p'"
      using h f unfolding handles_ok_def p by auto
    with f k show ?thesis by simp
  qed
next
  case SFtruncate
  show ?thesis
  proof (cases refused)
    case True
    with assms SFtruncate show ?thesis by (auto simp: setup_step_def handles_ok_def)
  next
    case False
    obtain x where x: "i_fd (snd p) = Some x" using assms(3) SFtruncate by (auto simp: handles_ok_def)
    with assms(1) SFtruncate False have p: "p' = (SMmap, snd p)"
      and k: "k' = sys_ftruncate (shm_zero c) x (shm_size c) k"
      by (auto simp: setup_step_def)
    have "k_shm k (shm_name c) = Some x" using assms(3) x by (simp add: handles_ok_def)
    note f = ftruncate_from [OF assms(2) this k]
    with handles_mono [OF assms(3)] have h: "handles_ok c k' p" by blast
    have "handles_ok c k' p'" using h f x unfolding handles_ok_def p by auto
    with f show ?thesis by simp
  qed
next
  case SMutex
  have "setup_sem c Mutex (sems_init (capacity c) Mutex) refused SEmpty (snd p) k = (p', k')"
    using assms(1) SMutex by (simp add: setup_step_def sems_init_def)
  from setup_sem_from [OF this assms(2), of SMutex] assms(3) SMutex show ?thesis by (cases p) simp
next
  case SEmpty
  have "setup_sem c Empty (sems_init (capacity c) Empty) refused SFull (snd p) k = (p', k')"
    using assms(1) SEmpty by (simp add: setup_step_def sems_init_def)
  from setup_sem_from [OF this assms(2), of SEmpty] assms(3) SEmpty show ?thesis by (cases p) simp
next
  case SFull
  have "setup_sem c Full (sems_init (capacity c) Full) refused SCheck (snd p) k = (p', k')"
    using assms(1) SFull by (simp add: setup_step_def sems_init_def)
  from setup_sem_from [OF this assms(2), of SFull] assms(3) SFull show ?thesis by (cases p) simp
next
  case SMmap
  then have "sized (fst p)" by simp
  then obtain x where x: "i_fd (snd p) = Some x" "k_size k x = shm_size c"
    using assms(3) unfolding handles_ok_def by blast
  from SMmap assms(1) have k: "k' = k" and p: "fst p' = SMutex \<or> (\<exists>f. fst p' = SExit f)"
    and i: "i_fd (snd p') = i_fd (snd p)" "i_sem (snd p') = i_sem (snd p)"
      "i_map (snd p') = None \<or> i_map (snd p') = i_fd (snd p)"
    by (auto simp: setup_step_def split: if_splits)
  have "handles_ok c k p'"
    using assms(3) x p i unfolding handles_ok_def by (intro conjI allI impI) auto
  with assms(2) k show ?thesis by simp
next
  case SCheck
  then have "sized (fst p)" by simp
  with SCheck assms(1,3) have "k' = k" "handles_ok c k p'"
    by (auto simp: setup_step_def handles_ok_def split: if_splits)
  with assms(2) show ?thesis by simp
qed (use assms in \<open>simp_all add: setup_step_def\<close>)

definition setup_inv :: "'m kernel \<Rightarrow> 'm setup_sys \<Rightarrow> bool" where
  "setup_inv k0 s \<longleftrightarrow> kernel_from c k0 (su_kernel s) \<and> (\<forall>p \<in> set (su_procs s). handles_ok c (su_kernel s) p)"

lemma setup_run_inv:
  assumes "set fs \<subseteq> range (setup_step c)" "setup_inv k0 s" "length (su_procs s) = length fs"
  shows "setup_inv k0 (setup_run fs as s) \<and> length (su_procs (setup_run fs as s)) = length fs"
  using assms(2,3)
proof (induction as arbitrary: s)
  case Nil
  then show ?case by simp
next
  case (Cons a as)
  obtain i r where a: "a = (i, r)" by fastforce
  show ?case
  proof (cases "i < length (su_procs s)")
    case True
    then have "fs ! i \<in> range (setup_step c)" using assms(1) Cons.prems(2) nth_mem by (metis subsetD)
    then obtain b where b: "fs ! i = setup_step c b" by blast
    obtain p' k' where st: "setup_step c b r (su_procs s ! i) (su_kernel s) = (p', k')" by fastforce
    have "kernel_from c k0 k' \<and> kernel_le c (su_kernel s) k' \<and> handles_ok c k' p'"
      using Cons.prems(1) True by (intro step_from [OF st]) (auto simp: setup_inv_def)
    then have "setup_inv k0 \<lparr>su_procs = (su_procs s)[i := p'], su_kernel = k'\<rparr>"
      using Cons.prems(1) handles_mono
      by (auto simp: setup_inv_def dest!: set_update_subset_insert [THEN subsetD])
    with Cons.IH [OF this] Cons.prems(2) True a b st show ?thesis by simp
  next
    case False
    with Cons a show ?thesis by simp
  qed
qed

lemma setup_start_inv: "kernel_ok c k0 \<Longrightarrow> setup_inv k0 (setup_start fs k0)"
  by (auto simp: setup_inv_def setup_start_def kernel_from_start handles_ok_def ipc0_def)

lemma setup_reach:
  assumes "set fs \<subseteq> range (setup_step c)" "kernel_ok c k0"
  shows "setup_inv k0 (setup_run fs as (setup_start fs k0))"
    and "length (su_procs (setup_run fs as (setup_start fs k0))) = length fs"
proof -
  have "length (su_procs (setup_start fs k0)) = length fs" by (simp add: setup_start_def)
  from setup_run_inv [OF assms(1) setup_start_inv [OF assms(2)] this]
  show "setup_inv k0 (setup_run fs as (setup_start fs k0))"
    and "length (su_procs (setup_run fs as (setup_start fs k0))) = length fs" by blast+
qed

lemma all_agree:
  assumes "set fs \<subseteq> range (setup_step c)" "kernel_ok c k0" "s = setup_run fs as (setup_start fs k0)"
    and "(st, i) \<in> set (su_procs s)" "(st', i') \<in> set (su_procs s)"
  shows "i_sem i k = Some x \<Longrightarrow> k_val (su_kernel s) x = setup_value c k0 k \<and>
           (\<forall>y. i_sem i' k = Some y \<longrightarrow> y = x) \<and> (\<forall>j. j \<noteq> k \<longrightarrow> i_sem i' j \<noteq> Some x)"
    and "i_map i = Some x \<Longrightarrow> k_mem (su_kernel s) x = setup_mem c k0 \<and>
           (\<forall>y. i_map i' = Some y \<longrightarrow> y = x)"
proof -
  have inv: "kernel_from c k0 (su_kernel s)" and h: "handles_ok c (su_kernel s) (st, i)"
    and h': "handles_ok c (su_kernel s) (st', i')"
    using setup_reach(1) [OF assms(1,2), of as] assms(3-5) by (auto simp: setup_inv_def)
  note i = h [unfolded handles_ok_def snd_conv fst_conv] and i' = h' [unfolded handles_ok_def snd_conv fst_conv]
  note kf = inv [unfolded kernel_from_def]
  show "k_val (su_kernel s) x = setup_value c k0 k \<and> (\<forall>y. i_sem i' k = Some y \<longrightarrow> y = x) \<and>
      (\<forall>j. j \<noteq> k \<longrightarrow> i_sem i' j \<noteq> Some x)" if "i_sem i k = Some x"
  proof -
    have n: "k_sem (su_kernel s) (sem_name c k) = Some x" using i that by blast
    have n': "k_sem (su_kernel s) (sem_name c j) = Some y" if "i_sem i' j = Some y" for j y
      using i' that by blast
    show ?thesis using kf n n' by (metis option.inject)
  qed
  show "k_mem (su_kernel s) x = setup_mem c k0 \<and> (\<forall>y. i_map i' = Some y \<longrightarrow> y = x)" if "i_map i = Some x"
  proof -
    have "k_shm (su_kernel s) (shm_name c) = Some x" "k_size (su_kernel s) x = shm_size c"
      using i that by blast+
    moreover have "k_shm (su_kernel s) (shm_name c) = Some y" if "i_map i' = Some y" for y
      using i' that by blast
    ultimately show ?thesis using kf size_pos by (metis less_numeral_extra(3) option.inject)
  qed
qed

text \<open>A program that checks every result has everything it needs when it gets past the checks.\<close>

definition acquired :: "stage \<times> ipc \<Rightarrow> bool" where
  "acquired p \<longleftrightarrow> (sized (fst p) \<or> fst p = SFtruncate \<longrightarrow> i_fd (snd p) \<noteq> None) \<and>
     (fst p \<in> {SMutex, SEmpty, SFull, SCheck, SReady} \<longrightarrow> i_map (snd p) \<noteq> None) \<and>
     (fst p = SReady \<longrightarrow> (\<forall>k. i_sem (snd p) k \<noteq> None))"

lemma acquired_step:
  assumes "setup_step c True refused p k = (p', k')" "acquired p"
  shows "acquired p'"
proof (cases "fst p")
  case SCheck
  show ?thesis
  proof (cases "fst p' = SReady")
    case True
    then have "p' = (SReady, snd p)" and
      h: "i_sem (snd p) Mutex \<noteq> None" "i_sem (snd p) Empty \<noteq> None" "i_sem (snd p) Full \<noteq> None"
      using assms(1) SCheck by (auto simp: setup_step_def split: if_splits)
    moreover have "i_sem (snd p) k \<noteq> None" for k using h by (cases k) simp_all
    ultimately show ?thesis using assms(2) SCheck by (simp add: acquired_def)
  next
    case False
    then have "p' = (SExit FSemOpen, snd p)"
      using assms(1) SCheck by (auto simp: setup_step_def split: if_splits)
    then show ?thesis by (simp add: acquired_def)
  qed
qed (use assms in \<open>auto simp: setup_step_def setup_sem_def acquired_def Let_def split: if_splits prod.splits\<close>)

lemma acquired_run:
  assumes "\<forall>i < length fs. chk i \<longrightarrow> fs ! i = setup_step c True"
    and "\<forall>i < length fs. chk i \<longrightarrow> acquired (su_procs s ! i)" "length (su_procs s) = length fs"
  shows "\<forall>i < length fs. chk i \<longrightarrow> acquired (su_procs (setup_run fs as s) ! i)"
  using assms(2,3)
proof (induction as arbitrary: s)
  case Nil
  then show ?case by simp
next
  case (Cons a as)
  obtain i r where a: "a = (i, r)" by fastforce
  show ?case
  proof (cases "i < length (su_procs s)")
    case True
    obtain p' k' where st: "(fs ! i) r (su_procs s ! i) (su_kernel s) = (p', k')" by fastforce
    have "acquired p'" if "chk i"
      using that assms(1) Cons.prems True st acquired_step by metis
    then have "\<forall>j < length fs. chk j \<longrightarrow> acquired ((su_procs s)[i := p'] ! j)"
      using Cons.prems True by (metis nth_list_update)
    with Cons.IH [of "\<lparr>su_procs = (su_procs s)[i := p'], su_kernel = k'\<rparr>"] Cons.prems(2) True a st
    show ?thesis by simp
  next
    case False
    with Cons a show ?thesis by simp
  qed
qed

lemma ready_acquired:
  assumes "\<forall>i < length fs. chk i \<longrightarrow> fs ! i = setup_step c True"
    and "s = setup_run fs as (setup_start fs k0)" "i < length fs" "chk i" "su_procs s ! i = (SReady, h)"
  shows "i_map h \<noteq> None \<and> (\<forall>k. i_sem h k \<noteq> None)"
proof -
  have "acquired (su_procs s ! i)"
    using acquired_run [OF assms(1), of "setup_start fs k0" as] assms(2-4)
    by (simp add: setup_start_def acquired_def)
  with assms(5) show ?thesis by (simp add: acquired_def)
qed

lemma cleaned:
  assumes "kernel_ok c k"
  shows "kernel_ok c (cleaner c k)" "setup_value c (cleaner c k) = sems_init (capacity c)"
    "setup_mem c (cleaner c k) = shm_zero c"
proof -
  have n: "k_sem (cleaner c k) (sem_name c i) = None" for i by (cases i) (simp_all add: cleaner_def)
  have sub: "k_sem (cleaner c k) m = Some x \<Longrightarrow> k_sem k m = Some x" for m x
    by (auto simp: cleaner_def split: if_splits)
  have shm: "k_shm (cleaner c k) m = Some x \<Longrightarrow> k_shm k m = Some x \<and> m \<noteq> shm_name c" for m x
    by (auto simp: cleaner_def split: if_splits)
  have nxt: "k_next (cleaner c k) = k_next k" by (simp add: cleaner_def)
  show "kernel_ok c (cleaner c k)"
    unfolding kernel_ok_def nxt n
    using assms sub shm unfolding kernel_ok_def by blast
  show "setup_value c (cleaner c k) = sems_init (capacity c)" by (rule ext) (simp add: setup_value_def n)
  show "setup_mem c (cleaner c k) = shm_zero c" by (simp add: setup_mem_def cleaner_def)
qed

text \<open>After the cleaner: everyone who got its handles has the same fresh objects.\<close>

lemma fresh_start:
  assumes "set fs \<subseteq> range (setup_step c)" "kernel_ok c k0"
    and s: "s = setup_run fs as (setup_start fs (cleaner c k0))"
    and h: "(st, h) \<in> set (su_procs s)" "i_map h \<noteq> None" "\<forall>k. i_sem h k \<noteq> None"
  shows "(\<lambda>k. k_val (su_kernel s) (the (i_sem h k))) = sems_init (capacity c)"
    and "k_mem (su_kernel s) (the (i_map h)) = shm_zero c"
    and "(st', h') \<in> set (su_procs s) \<Longrightarrow> i_map h' \<noteq> None \<Longrightarrow> i_map h' = i_map h"
    and "(st', h') \<in> set (su_procs s) \<Longrightarrow> i_sem h' k \<noteq> None \<Longrightarrow> i_sem h' k = i_sem h k"
proof -
  note cl = cleaned [OF assms(2)]
  note ag = all_agree [OF assms(1) cl(1) s h(1)]
  show "(\<lambda>k. k_val (su_kernel s) (the (i_sem h k))) = sems_init (capacity c)"
  proof (rule ext)
    fix k obtain x where "i_sem h k = Some x" using h(3) by blast
    with ag(1) [OF h(1) this] cl(2) show "k_val (su_kernel s) (the (i_sem h k)) = sems_init (capacity c) k"
      by simp
  qed
  obtain m where m: "i_map h = Some m" using h(2) by blast
  with ag(2) [OF h(1) m] cl(3) show "k_mem (su_kernel s) (the (i_map h)) = shm_zero c" by simp
  show "i_map h' = i_map h" if "(st', h') \<in> set (su_procs s)" "i_map h' \<noteq> None"
    using ag(2) [OF that(1) m] that(2) m by auto
  show "i_sem h' k = i_sem h k" if "(st', h') \<in> set (su_procs s)" "i_sem h' k \<noteq> None"
  proof -
    obtain x where "i_sem h k = Some x" using h(3) by blast
    with ag(1) [OF that(1) this] that(2) show ?thesis by auto
  qed
qed

end

interpretation z1_setup: setup_config z1_config
  by unfold_locales (auto simp: z1_config_def inj_def split: semid.splits)

interpretation z2_setup: setup_config z2_config
  by unfold_locales (auto simp: z2_config_def inj_def split: semid.splits)

interpretation z3_setup: setup_config z3_config
  by unfold_locales (auto simp: z3_config_def inj_def split: semid.splits)

lemmas setup_prog_defs = z1_producer_setup_def z1_consumer_setup_def z2_producer_setup_def
  z2_consumer_setup_def z3_producer_setup_def z3_consumer_setup_def z3_manager_setup_def

definition clean_kernel :: "'m \<Rightarrow> 'm kernel" where
  "clean_kernel m = \<lparr>k_shm = Map.empty, k_size = (\<lambda>_. 0), k_mem = (\<lambda>_. m), k_sem = Map.empty,
     k_val = (\<lambda>_. 0), k_next = 0\<rparr>"

lemma clean_kernel_ok: "kernel_ok c (clean_kernel m)"
  by (simp add: kernel_ok_def clean_kernel_def)

section \<open>Properties\<close>

text \<open>
  C27. Set-up of zad1 establishes the starting state of the buffer: after the cleaner, however
  the set-ups of any number of producers and consumers interleave and whichever calls the
  kernel refuses, a process that enters its loop has a mapping and three semaphores, they
  are the same objects for all of them, and they hold what \<open>z1_start\<close> starts from.
\<close>

theorem z1_setup_gives_start:
  assumes "set fs \<subseteq> {z1_producer_setup, z1_consumer_setup}" and "kernel_ok z1_config k0"
    and "s = setup_run fs as (setup_start fs (cleaner z1_config k0))"
    and "(SReady, h) \<in> set (su_procs s)"
  shows "i_map h \<noteq> None \<and> (\<forall>k. i_sem h k \<noteq> None) \<and>
    (\<lambda>k. k_val (su_kernel s) (the (i_sem h k))) = sem (z1_start ps) \<and>
    k_mem (su_kernel s) (the (i_map h)) = mem (z1_start ps) \<and>
    (\<forall>h'. (SReady, h') \<in> set (su_procs s) \<longrightarrow> i_map h' = i_map h \<and> i_sem h' = i_sem h)"
proof -
  have fs: "set fs \<subseteq> range (setup_step z1_config)" using assms(1) by (auto simp: setup_prog_defs)
  have eq: "\<forall>i < length fs. True \<longrightarrow> fs ! i = setup_step z1_config True"
    using assms(1) nth_mem by (fastforce simp: setup_prog_defs)
  have len: "length (su_procs s) = length fs"
    using z1_setup.setup_reach(2) [OF fs z1_setup.cleaned(1) [OF assms(2)]] assms(3) by simp
  have all: "i_map h' \<noteq> None \<and> (\<forall>k. i_sem h' k \<noteq> None)" if "(SReady, h') \<in> set (su_procs s)" for h'
    using that z1_setup.ready_acquired [OF eq assms(3)] len by (metis in_set_conv_nth)
  note f = z1_setup.fresh_start [OF fs assms(2,3,4)]
  have "\<forall>h'. (SReady, h') \<in> set (su_procs s) \<longrightarrow> i_map h' = i_map h \<and> i_sem h' = i_sem h"
    using f(3,4) all assms(4) by (metis ext)
  with f(1,2) all [OF assms(4)] show ?thesis by (simp add: z1_start_def z1_config_def)
qed

theorem z1_setup_gives_start_witness:
  "\<exists>s h. s = setup_run [z1_producer_setup, z1_consumer_setup] (replicate 8 (0, False) @ replicate 8 (1, False))
        (setup_start [z1_producer_setup, z1_consumer_setup] (cleaner z1_config (clean_kernel z1_mem0))) \<and>
     (SReady, h) \<in> set (su_procs s) \<and> (\<lambda>k. k_val (su_kernel s) (the (i_sem h k))) = sem (z1_start [])"
proof -
  let ?fs = "[z1_producer_setup, z1_consumer_setup]"
  define s where "s = setup_run ?fs (replicate 8 (0, False) @ replicate 8 (1, False))
        (setup_start ?fs (cleaner z1_config (clean_kernel z1_mem0)))"
  have "(case fst (su_procs s ! 1) of SReady \<Rightarrow> True | _ \<Rightarrow> False) \<and> length (su_procs s) = 2"
    unfolding s_def by code_simp
  then have "fst (su_procs s ! 1) = SReady" "1 < length (su_procs s)" by (auto split: stage.splits)
  then have r: "(SReady, snd (su_procs s ! 1)) \<in> set (su_procs s)" by (metis nth_mem prod.collapse)
  have f: "set ?fs \<subseteq> {z1_producer_setup, z1_consumer_setup}" by simp
  from z1_setup_gives_start [OF f clean_kernel_ok s_def r] r s_def show ?thesis by blast
qed

text \<open>
  The same for zad3, whose producers do not check \<open>mmap\<close> and \<open>sem_open\<close>: a consumer or a
  manager that enters its loop has everything, and every process that got a mapping and
  three semaphores shares them with all others and starts from \<open>z3_start\<close>.
\<close>

theorem z3_setup_gives_start:
  assumes "set fs \<subseteq> {z3_producer_setup, z3_consumer_setup, z3_manager_setup}"
    and "kernel_ok z3_config k0"
    and "s = setup_run fs as (setup_start fs (cleaner z3_config k0))"
    and "i < length fs" "su_procs s ! i = (SReady, h)"
    and "fs ! i = z3_producer_setup \<longrightarrow> i_map h \<noteq> None \<and> (\<forall>k. i_sem h k \<noteq> None)"
  shows "i_map h \<noteq> None \<and> (\<forall>k. i_sem h k \<noteq> None) \<and>
    (\<lambda>k. k_val (su_kernel s) (the (i_sem h k))) = sem (z3_start ps) \<and>
    k_mem (su_kernel s) (the (i_map h)) = mem (z3_start ps) \<and>
    (\<forall>st h' k. (st, h') \<in> set (su_procs s) \<longrightarrow>
       i_map h' \<in> {None, i_map h} \<and> i_sem h' k \<in> {None, i_sem h k})"
proof -
  have fs: "set fs \<subseteq> range (setup_step z3_config)" using assms(1) by (auto simp: setup_prog_defs)
  have len: "length (su_procs s) = length fs"
    using z3_setup.setup_reach(2) [OF fs z3_setup.cleaned(1) [OF assms(2)]] assms(3) by simp
  have eq: "\<forall>i < length fs. fs ! i \<noteq> z3_producer_setup \<longrightarrow> fs ! i = setup_step z3_config True"
  proof (intro allI impI)
    fix i assume "i < length fs" "fs ! i \<noteq> z3_producer_setup"
    moreover from this have "fs ! i \<in> {z3_producer_setup, z3_consumer_setup, z3_manager_setup}"
      using assms(1) nth_mem by blast
    ultimately show "fs ! i = setup_step z3_config True"
      by (auto simp: z3_consumer_setup_def z3_manager_setup_def)
  qed
  have a: "i_map h \<noteq> None \<and> (\<forall>k. i_sem h k \<noteq> None)"
    using z3_setup.ready_acquired [OF eq assms(3,4) _ assms(5)] assms(6) by blast
  have m: "(SReady, h) \<in> set (su_procs s)" using assms(4,5) len by (metis nth_mem)
  note f = z3_setup.fresh_start [OF fs assms(2,3) m conjunct1 [OF a] conjunct2 [OF a]]
  have "\<forall>st h' k. (st, h') \<in> set (su_procs s) \<longrightarrow>
       i_map h' \<in> {None, i_map h} \<and> i_sem h' k \<in> {None, i_sem h k}"
    using f(3,4) by blast
  with f(1,2) a show ?thesis by (simp add: z3_start_def z3_config_def)
qed

theorem z3_setup_gives_start_witness:
  "\<exists>s h. s = setup_run [z3_manager_setup, z3_producer_setup] (replicate 8 (1, False) @ replicate 8 (0, False))
        (setup_start [z3_manager_setup, z3_producer_setup] (cleaner z3_config (clean_kernel z3_mem0))) \<and>
     su_procs s ! 0 = (SReady, h) \<and> (\<lambda>k. k_val (su_kernel s) (the (i_sem h k))) = sem (z3_start [])"
proof -
  let ?fs = "[z3_manager_setup, z3_producer_setup]"
  define s where "s = setup_run ?fs (replicate 8 (1, False) @ replicate 8 (0, False))
        (setup_start ?fs (cleaner z3_config (clean_kernel z3_mem0)))"
  have "(case fst (su_procs s ! 0) of SReady \<Rightarrow> i_map (snd (su_procs s ! 0)) = Some 0 \<and>
      (\<forall>k \<in> {Mutex, Empty, Full}. i_sem (snd (su_procs s ! 0)) k \<noteq> None) | _ \<Rightarrow> False)"
    unfolding s_def by code_simp
  then have st: "fst (su_procs s ! 0) = SReady" and m: "i_map (snd (su_procs s ! 0)) \<noteq> None"
    and k: "\<forall>k \<in> {Mutex, Empty, Full}. i_sem (snd (su_procs s ! 0)) k \<noteq> None"
    by (auto split: stage.splits)
  have k': "\<forall>k. i_sem (snd (su_procs s ! 0)) k \<noteq> None" using k by (metis insertCI semid.exhaust)
  have r: "su_procs s ! 0 = (SReady, snd (su_procs s ! 0))" using st by (metis prod.collapse)
  have f: "set ?fs \<subseteq> {z3_producer_setup, z3_consumer_setup, z3_manager_setup}" by simp
  have l: "0 < length ?fs" by simp
  from z3_setup_gives_start [OF f clean_kernel_ok s_def l r] m k' r s_def show ?thesis by blast
qed

text \<open>
  Without the cleaner a restart inherits the old state: a process of zad1 that gets a
  semaphore gets the existing one with its current value, and the initial value passed to
  \<open>sem_open\<close> is ignored.  A mutex left at zero by a process that died in its critical
  section is still zero for every process started later.
\<close>

theorem z1_restart_inherits:
  assumes "set fs \<subseteq> {z1_producer_setup, z1_consumer_setup}" and "kernel_ok z1_config k0"
    and "s = setup_run fs as (setup_start fs k0)"
    and "(st, h) \<in> set (su_procs s)" "i_sem h k = Some x"
    and "k_sem k0 (sem_name z1_config k) = Some y"
  shows "x = y \<and> k_val (su_kernel s) x = k_val k0 y"
proof -
  have fs: "set fs \<subseteq> range (setup_step z1_config)" using assms(1) by (auto simp: setup_prog_defs)
  have inv: "kernel_from z1_config k0 (su_kernel s)" and h: "handles_ok z1_config (su_kernel s) (st, h)"
    using z1_setup.setup_reach(1) [OF fs assms(2), of as] assms(3,4) by (auto simp: z1_setup.setup_inv_def)
  have n: "k_sem (su_kernel s) (sem_name z1_config k) = Some x"
    using h assms(5) unfolding handles_ok_def by simp
  have "k_sem (su_kernel s) (sem_name z1_config k) = Some y"
    using z1_setup.names_stay [OF inv assms(6)] .
  with n have "x = y" by simp
  moreover have "k_val (su_kernel s) x = setup_value z1_config k0 k"
    using inv n unfolding kernel_from_def by blast
  ultimately show ?thesis using assms(6) by (simp add: setup_value_def)
qed

text \<open>A kernel in which the mutex of zad1 was left at zero.\<close>

definition stale_kernel :: "z1_shm kernel" where
  "stale_kernel = (clean_kernel z1_mem0)\<lparr>k_sem := [''/lab5_z1_mutex'' \<mapsto> 0], k_next := 1\<rparr>"

theorem z1_restart_inherits_witness:
  "\<exists>s h x. s = setup_run [z1_producer_setup] (replicate 8 (0, False)) (setup_start [z1_producer_setup] stale_kernel) \<and>
     (SReady, h) \<in> set (su_procs s) \<and> i_sem h Mutex = Some x \<and> k_val (su_kernel s) x = 0"
proof -
  let ?fs = "[z1_producer_setup]"
  define s where "s = setup_run ?fs (replicate 8 (0, False)) (setup_start ?fs stale_kernel)"
  have "(case fst (su_procs s ! 0) of SReady \<Rightarrow> i_sem (snd (su_procs s ! 0)) Mutex = Some 0 | _ \<Rightarrow> False) \<and>
      length (su_procs s) = 1" unfolding s_def by code_simp
  then have st: "fst (su_procs s ! 0) = SReady" and m: "i_sem (snd (su_procs s ! 0)) Mutex = Some 0"
    and l: "0 < length (su_procs s)" by (auto split: stage.splits)
  have r: "(SReady, snd (su_procs s ! 0)) \<in> set (su_procs s)" using st l by (metis nth_mem prod.collapse)
  have f: "set ?fs \<subseteq> {z1_producer_setup, z1_consumer_setup}" by simp
  have n: "k_sem stale_kernel (sem_name z1_config Mutex) = Some 0" and v: "k_val stale_kernel 0 = 0"
    by (simp_all add: stale_kernel_def z1_config_def clean_kernel_def)
  have ok: "kernel_ok z1_config stale_kernel"
    by (auto simp: kernel_ok_def stale_kernel_def clean_kernel_def z1_config_def split: if_splits semid.splits)
  from z1_restart_inherits [OF f ok s_def r m n] v r m s_def show ?thesis by auto
qed

definition z3_refused_run :: "z3_shm setup_sys" where
  "z3_refused_run = setup_run [z3_producer_setup, z3_consumer_setup]
     [(0, False), (0, False), (0, True), (0, False), (0, False), (0, False), (0, False),
      (1, False), (1, False), (1, True)]
     (setup_start [z3_producer_setup, z3_consumer_setup] (clean_kernel z3_mem0))"

text \<open>
  The missing checks of zad3's producer: when the kernel refuses \<open>mmap\<close>, the producer
  enters its loop without a mapping (it will write through MAP_FAILED), while the consumer
  of the same task exits with an error.
\<close>

theorem z3_producer_ignores_mmap_failure:
  "fst (su_procs z3_refused_run ! 0) = SReady \<and> i_map (snd (su_procs z3_refused_run ! 0)) = None \<and>
   fst (su_procs z3_refused_run ! 1) = SExit FMmap"
  by (simp add: z3_refused_run_def setup_start_def setup_prog_defs setup_step_def setup_sem_def
      sys_shm_open_def sys_ftruncate_def sys_sem_open_def ipc0_def clean_kernel_def z3_config_def
      split: option.splits)

end
