(* ===== verification/Lab6Buffer.thy ===== *)
theory Lab6Buffer
  imports Double "HOL-Library.Sublist"
begin

text \<open>
  \<open>lab6/src/common.c\<close>: time stamps and their difference in milliseconds, the pause for a
  frequency, and the data operations of the circular frame buffer that overwrites its
  oldest frame (its locking is in Lab6Pipeline).  The buffer implements a queue that keeps
  the newest 64 frames; the interface \<open>drop_queue\<close> says what its users rely on.
\<close>

section \<open>Time\<close>

record timespec =
  tv_sec :: int
  tv_nsec :: int

definition time_diff_ms :: "timespec \<Rightarrow> timespec \<Rightarrow> rat" where
  "time_diff_ms start end =
     (let start_ms = dadd (dmul (fl (of_int (tv_sec start))) 1000) (ddiv (fl (of_int (tv_nsec start))) 1000000);
          end_ms = dadd (dmul (fl (of_int (tv_sec end))) 1000) (ddiv (fl (of_int (tv_nsec end))) 1000000)
      in dsub end_ms start_ms)"

text \<open>The argument of \<open>clock_nanosleep\<close>, if it is called.\<close>

definition sleep_for_freq :: "int \<Rightarrow> timespec option" where
  "sleep_for_freq freq_hz =
     (if freq_hz \<le> 0 then None
      else (let period_ns = 1000000000 div freq_hz
            in Some \<lparr>tv_sec = period_ns div 1000000000, tv_nsec = period_ns mod 1000000000\<rparr>))"

definition SYNC_TOLERANCE_MS :: rat where "SYNC_TOLERANCE_MS = 20"

text \<open>The test of the synchronizer threads: \<open>if (diff < 0) diff = -diff\<close>, then the comparison.\<close>

definition in_tolerance :: "timespec \<Rightarrow> timespec \<Rightarrow> bool" where
  "in_tolerance l r = (let diff = time_diff_ms l r; diff = (if diff < 0 then - diff else diff)
                       in diff < SYNC_TOLERANCE_MS)"

section \<open>The circular buffer\<close>

definition FB_SIZE :: nat where "FB_SIZE = 64"

record frame =
  frame_id :: int
  timestamp :: timespec

record frame_buffer =
  fb_buffer :: "frame list"
  fb_head :: nat
  fb_tail :: nat
  fb_count :: int

definition buffer_init :: "frame_buffer \<Rightarrow> frame_buffer" where
  "buffer_init b = b\<lparr>fb_head := 0, fb_tail := 0, fb_count := 0\<rparr>"

text \<open>What \<open>buffer_push\<close> and \<open>buffer_pop\<close> do between lock and unlock.\<close>

definition push_body :: "frame \<Rightarrow> frame_buffer \<Rightarrow> frame_buffer" where
  "push_body f b =
     (let b1 = (if fb_count b = int FB_SIZE
                then b\<lparr>fb_tail := (fb_tail b + 1) mod FB_SIZE, fb_count := fb_count b - 1\<rparr> else b);
          b2 = b1\<lparr>fb_buffer := (fb_buffer b1)[fb_head b1 := f]\<rparr>;
          b3 = b2\<lparr>fb_head := (fb_head b2 + 1) mod FB_SIZE\<rparr>
      in b3\<lparr>fb_count := fb_count b3 + 1\<rparr>)"

definition pop_body :: "frame_buffer \<Rightarrow> frame \<times> frame_buffer" where
  "pop_body b =
     (fb_buffer b ! fb_tail b, b\<lparr>fb_tail := (fb_tail b + 1) mod FB_SIZE, fb_count := fb_count b - 1\<rparr>)"

section \<open>The interface: a queue that drops its oldest element when full\<close>

datatype 'a queue_op = Pushed 'a | Popped 'a

definition pushes :: "'a queue_op list \<Rightarrow> 'a list" where
  "pushes h = concat (map (\<lambda>e. case e of Pushed x \<Rightarrow> [x] | Popped x \<Rightarrow> []) h)"

definition pops :: "'a queue_op list \<Rightarrow> 'a list" where
  "pops h = concat (map (\<lambda>e. case e of Pushed x \<Rightarrow> [] | Popped x \<Rightarrow> [x]) h)"

lemma pushes_pops_simps [simp]:
  "pushes [] = []" "pops [] = []" "pushes (h @ h') = pushes h @ pushes h'" "pops (h @ h') = pops h @ pops h'"
  "pushes (e # h) = (case e of Pushed x \<Rightarrow> [x] | Popped x \<Rightarrow> []) @ pushes h"
  "pops (e # h) = (case e of Pushed x \<Rightarrow> [] | Popped x \<Rightarrow> [x]) @ pops h"
  by (simp_all add: pushes_def pops_def)

fun drop_step :: "nat \<Rightarrow> 'a queue_op \<Rightarrow> 'a list \<times> nat \<Rightarrow> ('a list \<times> nat) option" where
  "drop_step n (Pushed x) (q, d) = Some (if length q = n then (tl q @ [x], Suc d) else (q @ [x], d))"
| "drop_step n (Popped x) (q, d) = (if q \<noteq> [] \<and> hd q = x then Some (tl q, d) else None)"

fun drop_run :: "nat \<Rightarrow> 'a queue_op list \<Rightarrow> 'a list \<times> nat \<Rightarrow> ('a list \<times> nat) option" where
  "drop_run n [] q = Some q"
| "drop_run n (e # h) q = (case drop_step n e q of None \<Rightarrow> None | Some q' \<Rightarrow> drop_run n h q')"

lemma drop_run_append:
  "drop_run n (h @ h') q = (case drop_run n h q of None \<Rightarrow> None | Some q' \<Rightarrow> drop_run n h' q')"
  by (induction h arbitrary: q) (auto split: option.splits)

text \<open>
  What leaves such a queue, followed by what is in it, is what entered it with some
  elements left out, and with as many left out as were dropped.
\<close>

lemma drop_run_subseq:
  assumes "drop_run n h (q0, d0) = Some (q, d)" "0 < n"
  shows "subseq (pops h @ q) (q0 @ pushes h) \<and>
    length (pops h) + length q + d = length q0 + d0 + length (pushes h)"
  using assms(1)
proof (induction h arbitrary: q0 d0)
  case Nil
  then show ?case by simp
next
  case (Cons e h)
  show ?case
  proof (cases e)
    case (Pushed x)
    show ?thesis
    proof (cases "length q0 = n")
      case True
      with assms(2) obtain y q1 where q0: "q0 = y # q1" by (cases q0) auto
      with Cons.IH [of "q1 @ [x]" "Suc d0"] Cons.prems Pushed True have "subseq (pops h @ q) ((q1 @ [x]) @ pushes h) \<and>
          length (pops h) + length q + d = length (q1 @ [x]) + Suc d0 + length (pushes h)" by simp
      with Pushed q0 show ?thesis by (auto intro: list_emb_Cons)
    next
      case False
      with Cons.IH [of "q0 @ [x]" d0] Cons.prems Pushed have "subseq (pops h @ q) ((q0 @ [x]) @ pushes h) \<and>
          length (pops h) + length q + d = length (q0 @ [x]) + d0 + length (pushes h)" by simp
      with Pushed show ?thesis by simp
    qed
  next
    case (Popped x)
    with Cons.prems obtain q1 where q0: "q0 = x # q1" by (cases q0) (auto split: if_splits)
    with Cons Popped have "subseq (pops h @ q) (q1 @ pushes h) \<and>
        length (pops h) + length q + d = length q1 + d0 + length (pushes h)" by simp
    with Popped q0 show ?thesis by simp
  qed
qed

lemma drop_run_no_drop:
  assumes "drop_run n h (q0, d0) = Some (q, d0)" "0 < n"
  shows "pops h @ q = q0 @ pushes h"
  using drop_run_subseq [OF assms] by (auto intro: subseq_same_length)

locale drop_queue =
  fixes view :: "'b \<Rightarrow> 'a list \<Rightarrow> bool" and push :: "'a \<Rightarrow> 'b \<Rightarrow> 'b" and pop :: "'b \<Rightarrow> 'a \<times> 'b"
    and cap :: nat
  assumes cap_pos: "0 < cap"
    and view_length: "view b q \<Longrightarrow> length q \<le> cap"
    and push_view: "view b q \<Longrightarrow> view (push x b) ((if length q = cap then tl q else q) @ [x])"
    and pop_view: "view b q \<Longrightarrow> q \<noteq> [] \<Longrightarrow> fst (pop b) = hd q \<and> view (snd (pop b)) (tl q)"
begin

text \<open>The state of a buffer and its history: the history is a run that ends in what it holds.\<close>

definition tracks :: "'b \<Rightarrow> 'a queue_op list \<Rightarrow> bool" where
  "tracks b h \<longleftrightarrow> (\<exists>q d. drop_run cap h ([], 0) = Some (q, d) \<and> view b q)"

lemma tracks_start: "view b [] \<Longrightarrow> tracks b []"
  by (auto simp: tracks_def)

lemma tracks_push: "tracks b h \<Longrightarrow> tracks (push x b) (h @ [Pushed x])"
  using push_view by (fastforce simp: tracks_def drop_run_append)

lemma tracks_pop:
  assumes "tracks b h" "\<not> view b []"
  shows "tracks (snd (pop b)) (h @ [Popped (fst (pop b))])"
  using assms pop_view by (fastforce simp: tracks_def drop_run_append)

lemma tracks_subseq:
  assumes "tracks b h"
  shows "subseq (pops h) (pushes h)"
proof -
  obtain q d where "drop_run cap h ([], 0) = Some (q, d)" using assms by (auto simp: tracks_def)
  from drop_run_subseq [OF this cap_pos] have "subseq (pops h @ q) (pushes h)" by simp
  moreover have "subseq (pops h) (pops h @ q)" by (rule prefix_imp_subseq) simp
  ultimately show ?thesis by (meson subseq_order.order_trans)
qed

lemma fold_push:
  "view b q \<Longrightarrow> view (fold push xs b) (drop (length (q @ xs) - cap) (q @ xs))"
proof (induction xs arbitrary: b q)
  case Nil
  then show ?case using view_length by simp
next
  case (Cons x xs)
  from Cons.IH [OF push_view [OF Cons.prems]] view_length [OF Cons.prems] cap_pos
  show ?case by (cases "length q = cap"; cases q) (auto simp: Suc_diff_le)
qed

end

section \<open>The circular buffer implements it\<close>

definition fb_view :: "frame_buffer \<Rightarrow> frame list \<Rightarrow> bool" where
  "fb_view b q \<longleftrightarrow> length (fb_buffer b) = FB_SIZE \<and> fb_count b = int (length q) \<and>
     ring_view (fb_buffer b) (fb_tail b) (fb_head b) q"

lemma fb_view_init: "length (fb_buffer b) = FB_SIZE \<Longrightarrow> fb_view (buffer_init b) []"
  by (simp add: fb_view_def buffer_init_def FB_SIZE_def ring_view_empty)

lemma fb_view_empty: "fb_view b q \<Longrightarrow> (fb_count b = 0) = (q = []) \<and> (fb_view b [] \<longleftrightarrow> q = [])"
  by (auto simp: fb_view_def)

lemma fb_view_push:
  assumes "fb_view b q"
  shows "fb_view (push_body f b) ((if length q = FB_SIZE then tl q else q) @ [f])"
proof -
  let ?q = "if length q = FB_SIZE then tl q else q"
  let ?t = "if length q = FB_SIZE then (fb_tail b + 1) mod FB_SIZE else fb_tail b"
  have v: "length (fb_buffer b) = FB_SIZE" "fb_count b = int (length q)"
    "ring_view (fb_buffer b) (fb_tail b) (fb_head b) q" using assms by (auto simp: fb_view_def)
  have "q \<noteq> []" if "length q = FB_SIZE" using that by (auto simp: FB_SIZE_def)
  then have r: "ring_view (fb_buffer b) ?t (fb_head b) ?q"
    using v ring_view_advance_head [OF v(3)] by simp
  have l: "length ?q < FB_SIZE" using v(1) ring_view_bounds [OF v(3)] by (auto simp: FB_SIZE_def)
  note w = ring_view_write [OF r, of f]
  have "ring_view ((fb_buffer b)[fb_head b := f]) ?t ((fb_head b + 1) mod FB_SIZE) (?q @ [f])"
    using ring_view_advance_tail [OF w(1)] w(2) l v(1) by simp
  then show ?thesis
    using v l by (auto simp: fb_view_def push_body_def Let_def FB_SIZE_def split: if_splits)
qed

lemma fb_view_pop:
  assumes "fb_view b q" "q \<noteq> []"
  shows "fst (pop_body b) = hd q \<and> fb_view (snd (pop_body b)) (tl q)"
proof -
  have v: "length (fb_buffer b) = FB_SIZE" "fb_count b = int (length q)"
    "ring_view (fb_buffer b) (fb_tail b) (fb_head b) q" using assms by (auto simp: fb_view_def)
  show ?thesis
    using ring_view_hd [OF v(3) assms(2)] ring_view_advance_head [OF v(3) assms(2)] v assms(2)
    by (auto simp: fb_view_def pop_body_def of_nat_diff Suc_leI)
qed

interpretation fb: drop_queue fb_view push_body pop_body FB_SIZE
proof unfold_locales
  show "0 < FB_SIZE" by (simp add: FB_SIZE_def)
  show "length q \<le> FB_SIZE" if "fb_view b q" for b q
    using that ring_view_bounds unfolding fb_view_def by metis
qed (use fb_view_push fb_view_pop in blast)+

section \<open>Accuracy of the time difference\<close>

definition exact_ms :: "timespec \<Rightarrow> rat" where
  "exact_ms t = of_int (tv_sec t) * 1000 + of_int (tv_nsec t) / 1000000"

text \<open>Stamps of a monotonic clock within 68 years of its start.\<close>

definition valid_ts :: "timespec \<Rightarrow> bool" where
  "valid_ts t \<longleftrightarrow> 0 \<le> tv_sec t \<and> tv_sec t < 2 ^ 31 \<and> 0 \<le> tv_nsec t \<and> tv_nsec t < 1000000000"

definition ms_of :: "timespec \<Rightarrow> rat" where
  "ms_of t = dadd (dmul (fl (of_int (tv_sec t))) 1000) (ddiv (fl (of_int (tv_nsec t))) 1000000)"

lemma time_diff_ms_of: "time_diff_ms s e = dsub (ms_of e) (ms_of s)"
  by (simp add: time_diff_ms_def ms_of_def Let_def)

lemma fl_error_le: "\<bar>x\<bar> \<le> 2147483650000 \<Longrightarrow> \<bar>fl x - x\<bar> \<le> 1 / 4100"
proof -
  assume "\<bar>x\<bar> \<le> 2147483650000"
  then have "\<bar>x\<bar> / 2 ^ 53 \<le> 1 / 4100" by simp
  with fl_error [of x] show ?thesis by linarith
qed

lemma ms_of_error:
  assumes "valid_ts t"
  shows "\<bar>ms_of t - exact_ms t\<bar> \<le> 1 / 4000" and "0 \<le> exact_ms t" and "exact_ms t \<le> 2147483649000"
proof -
  let ?s = "of_int (tv_sec t) :: rat" and ?n = "of_int (tv_nsec t) :: rat"
  have b: "0 \<le> ?s" "?s \<le> 2147483648" "0 \<le> ?n" "?n \<le> 1000000000"
    using assms by (auto simp: valid_ts_def)
  have sec: "dmul (fl ?s) 1000 = ?s * 1000"
  proof -
    have "fl ?s = ?s" using assms by (intro fl_of_int) (auto simp: valid_ts_def)
    moreover have "fl (of_int (tv_sec t * 1000)) = of_int (tv_sec t * 1000)"
      using assms by (intro fl_of_int) (auto simp: valid_ts_def)
    ultimately show ?thesis by (simp add: dmul_def)
  qed
  have nsec: "fl ?n = ?n" using assms by (intro fl_of_int) (auto simp: valid_ts_def)
  define f where "f = fl (?n / 1000000)"
  have "\<bar>?n / 1000000\<bar> / 2 ^ 53 \<le> 1 / 1000000" using b(3,4) by simp
  with fl_error [of "?n / 1000000"] have f: "\<bar>f - ?n / 1000000\<bar> \<le> 1 / 1000000"
    unfolding f_def by linarith
  have m: "ms_of t = fl (?s * 1000 + f)" unfolding ms_of_def sec nsec dadd_def ddiv_def f_def ..
  have "\<bar>?s * 1000 + f\<bar> \<le> 2147483650000" using b f by linarith
  with fl_error_le have "\<bar>fl (?s * 1000 + f) - (?s * 1000 + f)\<bar> \<le> 1 / 4100" by blast
  with f show "\<bar>ms_of t - exact_ms t\<bar> \<le> 1 / 4000"
    unfolding m exact_ms_def by linarith
  show "0 \<le> exact_ms t" "exact_ms t \<le> 2147483649000" using b unfolding exact_ms_def by linarith+
qed

lemma time_diff_error:
  assumes "valid_ts s" "valid_ts e"
  shows "\<bar>time_diff_ms s e - (exact_ms e - exact_ms s)\<bar> \<le> 1 / 1000"
proof -
  note S = ms_of_error [OF assms(1)] and E = ms_of_error [OF assms(2)]
  let ?d = "ms_of e - ms_of s"
  have "\<bar>?d\<bar> \<le> 2147483650000" using S E by linarith
  with fl_error_le have "\<bar>fl ?d - ?d\<bar> \<le> 1 / 4100" by blast
  with S(1) E(1) show ?thesis unfolding time_diff_ms_of dsub_def by linarith
qed

section \<open>Properties\<close>

text \<open>
  C25. The buffer keeps the newest 64 frames: after \<open>buffer_init\<close> on any memory and any
  sequence of pushes, it holds the last 64 frames pushed, or all of them, in order.
\<close>

theorem lab6_buffer_keeps_newest:
  assumes "length (fb_buffer b) = FB_SIZE"
  shows "fb_view (fold push_body xs (buffer_init b)) (drop (length xs - FB_SIZE) xs)"
  using fb.fold_push [OF fb_view_init [OF assms], of xs] by simp

definition demo_frame :: "nat \<Rightarrow> frame" where
  "demo_frame k = \<lparr>frame_id = int k, timestamp = \<lparr>tv_sec = 0, tv_nsec = 0\<rparr>\<rparr>"

definition demo_buffer :: frame_buffer where
  "demo_buffer = \<lparr>fb_buffer = replicate FB_SIZE (demo_frame 0), fb_head = 5, fb_tail = 9, fb_count = 3\<rparr>"

theorem lab6_buffer_keeps_newest_witness:
  "fb_view (fold push_body (map demo_frame [0..<66]) (buffer_init demo_buffer)) (map demo_frame [2..<66])"
proof -
  have "length (fb_buffer demo_buffer) = FB_SIZE" by (simp add: demo_buffer_def)
  note this [THEN lab6_buffer_keeps_newest, of "map demo_frame [0..<66]"]
  moreover have "length (map demo_frame [0..<66]) - FB_SIZE = 2"
    by (simp only: length_map length_upt FB_SIZE_def)
  ultimately show ?thesis by (simp only: drop_map drop_upt add_0)
qed

text \<open>
  C26. Accuracy of the pairing test: for valid time stamps the test of the synchronizers
  accepts every pair less than 19.999 ms apart and refuses every pair more than 20.001 ms
  apart, whichever camera is ahead; the rounding of the doubles cannot do more harm.
\<close>

theorem lab6_tolerance_accuracy:
  assumes "valid_ts l" "valid_ts r"
  shows "(\<bar>exact_ms r - exact_ms l\<bar> < 19999 / 1000 \<longrightarrow> in_tolerance l r) \<and>
    (\<bar>exact_ms r - exact_ms l\<bar> > 20001 / 1000 \<longrightarrow> \<not> in_tolerance l r) \<and>
    (in_tolerance l r \<longleftrightarrow> in_tolerance r l)"
proof -
  note e = time_diff_error [OF assms]
  have tol: "in_tolerance l r \<longleftrightarrow> \<bar>time_diff_ms l r\<bar> < 20"
    by (simp add: in_tolerance_def SYNC_TOLERANCE_MS_def Let_def abs_if)
  have "time_diff_ms r l = - time_diff_ms l r"
    unfolding time_diff_ms_of dsub_def by (metis fl_minus minus_diff_eq)
  then have "in_tolerance l r \<longleftrightarrow> in_tolerance r l"
    by (simp add: tol) (simp add: in_tolerance_def SYNC_TOLERANCE_MS_def Let_def abs_if)
  moreover have "\<bar>exact_ms r - exact_ms l\<bar> < 19999 / 1000 \<Longrightarrow> in_tolerance l r"
    and "\<bar>exact_ms r - exact_ms l\<bar> > 20001 / 1000 \<Longrightarrow> \<not> in_tolerance l r"
    using e unfolding tol by linarith+
  ultimately show ?thesis by blast
qed

text \<open>Stamps 15.5 ms apart across a second.\<close>

theorem lab6_tolerance_accuracy_witness:
  "in_tolerance \<lparr>tv_sec = 7, tv_nsec = 990000000\<rparr> \<lparr>tv_sec = 8, tv_nsec = 5500000\<rparr> \<and>
   in_tolerance \<lparr>tv_sec = 8, tv_nsec = 5500000\<rparr> \<lparr>tv_sec = 7, tv_nsec = 990000000\<rparr> \<and>
   \<not> in_tolerance \<lparr>tv_sec = 7, tv_nsec = 990000000\<rparr> \<lparr>tv_sec = 8, tv_nsec = 15500000\<rparr>"
proof -
  let ?a = "\<lparr>tv_sec = 7, tv_nsec = 990000000\<rparr>" and ?b = "\<lparr>tv_sec = 8, tv_nsec = 5500000\<rparr>"
    and ?c = "\<lparr>tv_sec = 8, tv_nsec = 15500000\<rparr>"
  have v: "valid_ts ?a" "valid_ts ?b" "valid_ts ?c" by (simp_all add: valid_ts_def)
  have "\<bar>exact_ms ?b - exact_ms ?a\<bar> < 19999 / 1000" "\<bar>exact_ms ?c - exact_ms ?a\<bar> > 20001 / 1000"
    by (simp_all add: exact_ms_def)
  with lab6_tolerance_accuracy [OF v(1,2)] lab6_tolerance_accuracy [OF v(1,3)] show ?thesis by blast
qed

text \<open>
  The pause of a thread: for every positive frequency the argument of
  \<open>clock_nanosleep\<close> is a valid interval, and it is the period of that frequency rounded
  down to a nanosecond; for other values the thread does not pause.
\<close>

theorem lab6_sleep_period:
  "(freq_hz \<le> 0 \<longleftrightarrow> sleep_for_freq freq_hz = None) \<and>
   (case sleep_for_freq freq_hz of None \<Rightarrow> True | Some t \<Rightarrow>
      0 \<le> tv_nsec t \<and> tv_nsec t < 1000000000 \<and> 0 \<le> tv_sec t \<and>
      (tv_sec t * 1000000000 + tv_nsec t) * freq_hz \<le> 1000000000 \<and>
      1000000000 < (tv_sec t * 1000000000 + tv_nsec t + 1) * freq_hz)"
proof (cases "freq_hz \<le> 0")
  case True
  then show ?thesis by (simp add: sleep_for_freq_def)
next
  case False
  define p where "p = 1000000000 div freq_hz"
  have f: "0 < freq_hz" using False by simp
  have "1000000000 = p * freq_hz + 1000000000 mod freq_hz" by (simp add: p_def)
  moreover have "0 \<le> 1000000000 mod freq_hz" "1000000000 mod freq_hz < freq_hz" using f by simp_all
  ultimately have "p * freq_hz \<le> 1000000000" "1000000000 < (p + 1) * freq_hz"
    by (linarith, simp add: distrib_right)
  moreover have "0 \<le> p" using f by (simp add: p_def pos_imp_zdiv_nonneg_iff)
  moreover have "p div 1000000000 * 1000000000 + p mod 1000000000 = p" by simp
  moreover have "sleep_for_freq freq_hz = Some \<lparr>tv_sec = p div 1000000000, tv_nsec = p mod 1000000000\<rparr>"
    using False by (simp add: sleep_for_freq_def p_def Let_def)
  ultimately show ?thesis using False by (simp add: pos_imp_zdiv_nonneg_iff)
qed

end
