(* ===== verification/Lab6Robot.thy ===== *)
theory Lab6Robot
  imports CLib Lab6Buffer
begin

text \<open>
  The robot and the logger threads, which the three programs of lab6 share
  (\<open>program1.c\<close>, \<open>program2.c\<close>, \<open>program3.c\<close>): the robot moves in its own variables and
  publishes its state under a mutex, field by field; the logger copies the state under the
  same mutex and writes a line.  Levels 2 and 3 also count the states; that is the step from
  \<open>RCount\<close>, which belongs to the machine of the level.
\<close>

section \<open>State\<close>

record robot_state =
  rs_x :: rat
  rs_y :: rat
  rs_theta :: rat
  rs_time :: timespec

datatype robot_pc = RTest | RMove | RLock | RSetX | RSetY | RSetTheta | RSetTime | RUnlock | RCount | RSleep | REnd

datatype logger_pc = LOpen | LTest | LLock | LRead | LUnlock | LPrint | LSleep | LClose | LEnd

text \<open>The two cameras.\<close>

datatype side = Lft | Rgt

datatype robot_thread = RobotT | LoggerT

record rob =
  current_robot_state :: robot_state
  state_mutex :: "robot_thread option"
  r_pc :: robot_pc
  r_x :: rat
  r_y :: rat
  r_theta :: rat
  l_pc :: logger_pc
  l_state :: robot_state
  log_file :: "string list"

definition rob_start :: rob where
  "rob_start = (let z = \<lparr>rs_x = 0, rs_y = 0, rs_theta = 0, rs_time = \<lparr>tv_sec = 0, tv_nsec = 0\<rparr>\<rparr> in
     \<lparr>current_robot_state = z, state_mutex = None, r_pc = RTest, r_x = 0, r_y = 0, r_theta = 0,
      l_pc = LOpen, l_state = z, log_file = []\<rparr>)"

section \<open>The threads\<close>

text \<open>
  A step of the robot thread; \<open>counts\<close>: the level counts states; \<open>now\<close>: the clock.  A thread
  that waits for the mutex has no step.
\<close>

definition robot_next :: "bool \<Rightarrow> bool \<Rightarrow> timespec \<Rightarrow> rob \<Rightarrow> rob option" where
  "robot_next counts is_running now r = (case r_pc r of
     RTest \<Rightarrow> Some (r\<lparr>r_pc := if is_running then RMove else REnd\<rparr>)
   | RMove \<Rightarrow> Some (r\<lparr>r_x := dadd (r_x r) (fl (1 / 100)), r_y := dadd (r_y r) (fl (1 / 100)),
        r_theta := dadd (r_theta r) (fl (5 / 1000)), r_pc := RLock\<rparr>)
   | RLock \<Rightarrow> (if state_mutex r = None then Some (r\<lparr>state_mutex := Some RobotT, r_pc := RSetX\<rparr>) else None)
   | RSetX \<Rightarrow> Some (r\<lparr>current_robot_state := (current_robot_state r)\<lparr>rs_x := r_x r\<rparr>, r_pc := RSetY\<rparr>)
   | RSetY \<Rightarrow> Some (r\<lparr>current_robot_state := (current_robot_state r)\<lparr>rs_y := r_y r\<rparr>, r_pc := RSetTheta\<rparr>)
   | RSetTheta \<Rightarrow> Some (r\<lparr>current_robot_state := (current_robot_state r)\<lparr>rs_theta := r_theta r\<rparr>, r_pc := RSetTime\<rparr>)
   | RSetTime \<Rightarrow> Some (r\<lparr>current_robot_state := (current_robot_state r)\<lparr>rs_time := now\<rparr>, r_pc := RUnlock\<rparr>)
   | RUnlock \<Rightarrow> Some (r\<lparr>state_mutex := None, r_pc := if counts then RCount else RSleep\<rparr>)
   | RCount \<Rightarrow> None
   | RSleep \<Rightarrow> Some (r\<lparr>r_pc := RTest\<rparr>)
   | REnd \<Rightarrow> None)"

text \<open>\<open>%.2f\<close> of a double: its exact value rounded to two places, halves to even.\<close>

definition show_2f :: "rat \<Rightarrow> string" where
  "show_2f x = (let n = round_even (\<bar>x\<bar> * 100)
     in (if x < 0 then ''-'' else []) @ show_nat (nat (n div 100)) @ ''.'' @ show_nat (nat (n div 10 mod 10)) @
        show_nat (nat (n mod 10)))"

definition log_line :: "robot_state \<Rightarrow> string" where
  "log_line s = ''X: '' @ show_2f (rs_x s) @ '', Y: '' @ show_2f (rs_y s) @ '', Theta: '' @ show_2f (rs_theta s) @ [CHR 0x0A]"

text \<open>A step of the logger thread; \<open>refused\<close>: \<open>fopen\<close> fails.\<close>

definition logger_next :: "bool \<Rightarrow> bool \<Rightarrow> rob \<Rightarrow> rob option" where
  "logger_next refused is_running r = (case l_pc r of
     LOpen \<Rightarrow> Some (r\<lparr>l_pc := if refused then LEnd else LTest\<rparr>)
   | LTest \<Rightarrow> Some (r\<lparr>l_pc := if is_running then LLock else LClose\<rparr>)
   | LLock \<Rightarrow> (if state_mutex r = None then Some (r\<lparr>state_mutex := Some LoggerT, l_pc := LRead\<rparr>) else None)
   | LRead \<Rightarrow> Some (r\<lparr>l_state := current_robot_state r, l_pc := LUnlock\<rparr>)
   | LUnlock \<Rightarrow> Some (r\<lparr>state_mutex := None, l_pc := LPrint\<rparr>)
   | LPrint \<Rightarrow> Some (r\<lparr>log_file := log_file r @ [log_line (l_state r)], l_pc := LSleep\<rparr>)
   | LSleep \<Rightarrow> Some (r\<lparr>l_pc := LTest\<rparr>)
   | LClose \<Rightarrow> Some (r\<lparr>l_pc := LEnd\<rparr>)
   | LEnd \<Rightarrow> None)"

section \<open>File names of the image writers\<close>

definition show_04d :: "int \<Rightarrow> string" where
  "show_04d i = (let d = show_nat (nat \<bar>i\<bar>); n = (if i < 0 then 3 else 4)
     in (if i < 0 then ''-'' else []) @ replicate (n - length d) (CHR ''0'') @ d)"

definition left_name :: "int \<Rightarrow> string" where
  "left_name i = cstr (fst (c_snprintf 64 (''output/left_'' @ show_04d i @ ''.jpg'')))"

definition right_name :: "int \<Rightarrow> string" where
  "right_name i = cstr (fst (c_snprintf 64 (''output/right_'' @ show_04d i @ ''.jpg'')))"

section \<open>What the log shows\<close>

text \<open>The position after \<open>n\<close> moves.\<close>

primrec moves :: "nat \<Rightarrow> rat \<times> rat \<times> rat" where
  "moves 0 = (0, 0, 0)"
| "moves (Suc n) = (case moves n of (x, y, th) \<Rightarrow>
     (dadd x (fl (1 / 100)), dadd y (fl (1 / 100)), dadd th (fl (5 / 1000))))"

lemma moves_diagonal: "fst (moves n) = fst (snd (moves n))"
  by (induction n) (auto split: prod.splits)

definition pose :: "robot_state \<Rightarrow> rat \<times> rat \<times> rat" where
  "pose s = (rs_x s, rs_y s, rs_theta s)"

definition move_line :: "nat \<Rightarrow> string" where
  "move_line n = (case moves n of (x, y, th) \<Rightarrow>
     ''X: '' @ show_2f x @ '', Y: '' @ show_2f y @ '', Theta: '' @ show_2f th @ [CHR 0x0A])"

lemma log_line_pose: "pose s = moves n \<Longrightarrow> log_line s = move_line n"
  by (cases "moves n") (simp add: pose_def log_line_def move_line_def)

text \<open>
  The invariant: the robot has made \<open>n\<close> moves; \<open>c\<close> of them are in the published state when
  the robot is not writing it, \<open>j\<close> in the logger's copy, and \<open>ks\<close> in the lines written.
\<close>

definition publishing :: "robot_pc set" where "publishing = {RSetX, RSetY, RSetTheta, RSetTime, RUnlock}"

definition published :: "nat \<Rightarrow> nat \<Rightarrow> rob \<Rightarrow> bool" where
  "published n c r \<longleftrightarrow> (case r_pc r of
     RLock \<Rightarrow> pose (current_robot_state r) = moves c \<and> c \<le> n
   | RSetX \<Rightarrow> c \<le> n
   | RSetY \<Rightarrow> c \<le> n \<and> rs_x (current_robot_state r) = r_x r
   | RSetTheta \<Rightarrow> c \<le> n \<and> rs_x (current_robot_state r) = r_x r \<and> rs_y (current_robot_state r) = r_y r
   | RSetTime \<Rightarrow> c \<le> n \<and> pose (current_robot_state r) = moves n
   | RUnlock \<Rightarrow> c \<le> n \<and> pose (current_robot_state r) = moves n
   | _ \<Rightarrow> c = n \<and> pose (current_robot_state r) = moves n)"

definition rob_inv :: "nat \<Rightarrow> nat \<Rightarrow> nat \<Rightarrow> nat list \<Rightarrow> rob \<Rightarrow> bool" where
  "rob_inv n c j ks r \<longleftrightarrow>
     state_mutex r = (if r_pc r \<in> publishing then Some RobotT else if l_pc r \<in> {LRead, LUnlock} then Some LoggerT else None) \<and>
     \<not> (r_pc r \<in> publishing \<and> l_pc r \<in> {LRead, LUnlock}) \<and>
     (r_x r, r_y r, r_theta r) = moves n \<and> published n c r \<and>
     (l_pc r \<in> {LUnlock, LPrint} \<longrightarrow> pose (l_state r) = moves j) \<and> j \<le> c \<and> (\<forall>k \<in> set ks. k \<le> j) \<and> sorted ks \<and>
     log_file r = map move_line ks"

lemma pose_time [simp]: "pose (s\<lparr>rs_time := t\<rparr>) = pose s"
  by (simp add: pose_def)

lemma published_logger [simp]:
  "published n c (r\<lparr>l_pc := a\<rparr>) = published n c r" "published n c (r\<lparr>l_state := d\<rparr>) = published n c r"
  "published n c (r\<lparr>log_file := e\<rparr>) = published n c r" "published n c (r\<lparr>state_mutex := m\<rparr>) = published n c r"
  by (cases "r_pc r"; simp add: published_def)+

lemma published_outside: "published n c r \<Longrightarrow> r_pc r \<notin> publishing \<Longrightarrow> pose (current_robot_state r) = moves c"
  by (cases "r_pc r") (auto simp: published_def publishing_def)

lemma rob_inv_start: "rob_inv 0 0 0 [] rob_start"
  by (simp add: rob_inv_def rob_start_def published_def publishing_def pose_def Let_def)

lemma robot_next_inv:
  assumes "robot_next b u ts r = Some t" "rob_inv n c j ks r"
  shows "\<exists>n' c'. rob_inv n' c' j ks t"
proof (cases "r_pc r")
  case RMove
  obtain x y th where m: "moves n = (x, y, th)" by (cases "moves n")
  have t: "t = r\<lparr>r_x := dadd (r_x r) (fl (1 / 100)), r_y := dadd (r_y r) (fl (1 / 100)),
        r_theta := dadd (r_theta r) (fl (5 / 1000)), r_pc := RLock\<rparr>"
    using assms(1) RMove by (simp add: robot_next_def)
  have "rob_inv (Suc n) n j ks t"
    using assms(2) RMove m unfolding t by (simp add: rob_inv_def published_def publishing_def pose_def)
  then show ?thesis by blast
next
  case RUnlock
  then have t: "t = r\<lparr>state_mutex := None, r_pc := if b then RCount else RSleep\<rparr>"
    using assms(1) by (simp add: robot_next_def)
  have j: "j \<le> n" using assms(2) RUnlock by (simp add: rob_inv_def published_def)
  have "rob_inv n n j ks t"
    using assms(2) RUnlock j unfolding t by (simp add: rob_inv_def published_def publishing_def)
  then show ?thesis by blast
next
  case RSetTheta
  with assms have "rob_inv n c j ks t"
    by (auto simp: robot_next_def rob_inv_def published_def publishing_def pose_def)
  then show ?thesis by blast
qed (rule exI [of _ n], rule exI [of _ c],
    insert assms, simp add: robot_next_def split: if_splits; hypsubst_thin;
      simp add: rob_inv_def published_def publishing_def split: if_splits)+

lemma logger_next_inv:
  assumes step: "logger_next b u r = Some t" and inv: "rob_inv n c j ks r"
  shows "\<exists>j' ks'. rob_inv n c j' ks' t"
proof (cases "l_pc r")
  case LRead
  then have out: "r_pc r \<notin> publishing" using inv by (simp add: rob_inv_def)
  moreover have "pose (current_robot_state r) = moves c"
    by (rule published_outside [of n, OF _ out]) (use inv in \<open>simp add: rob_inv_def\<close>)
  moreover have t: "t = r\<lparr>l_state := current_robot_state r, l_pc := LUnlock\<rparr>"
    using step LRead by (simp add: logger_next_def)
  ultimately have "rob_inv n c c ks t"
    using inv LRead unfolding t by (auto simp: rob_inv_def)
  then show ?thesis by blast
next
  case LPrint
  then have t: "t = r\<lparr>log_file := log_file r @ [move_line j], l_pc := LSleep\<rparr>"
    using step inv log_line_pose [of "l_state r" j] by (simp add: logger_next_def rob_inv_def)
  have "rob_inv n c j (ks @ [j]) t"
    using inv LPrint unfolding t by (auto simp: rob_inv_def sorted_append)
  then show ?thesis by blast
qed (rule exI [of _ j], rule exI [of _ ks],
    insert step inv, simp add: logger_next_def split: if_splits; hypsubst_thin; simp add: rob_inv_def split: if_splits)+

lemma counted_inv: "rob_inv n c j ks r \<Longrightarrow> r_pc r = RCount \<Longrightarrow> rob_inv n c j ks (r\<lparr>r_pc := RSleep\<rparr>)"
  by (auto simp: rob_inv_def published_def publishing_def)

definition rob_ok :: "rob \<Rightarrow> bool" where
  "rob_ok r \<longleftrightarrow> (\<exists>n c j ks. rob_inv n c j ks r)"

lemma rob_ok_facts [intro]:
  "rob_ok rob_start"
  "robot_next b u ts r = Some t \<Longrightarrow> rob_ok r \<Longrightarrow> rob_ok t"
  "logger_next b u r = Some t \<Longrightarrow> rob_ok r \<Longrightarrow> rob_ok t"
  "rob_ok r \<Longrightarrow> r_pc r = RCount \<Longrightarrow> rob_ok (r\<lparr>r_pc := RSleep\<rparr>)"
  unfolding rob_ok_def using rob_inv_start robot_next_inv logger_next_inv counted_inv by metis+

lemma rob_ok_log: "rob_ok r \<Longrightarrow> \<exists>ks. sorted ks \<and> log_file r = map move_line ks"
  by (auto simp: rob_ok_def rob_inv_def)

lemma move_line_diagonal: "\<exists>x th. move_line n = ''X: '' @ x @ '', Y: '' @ x @ '', Theta: '' @ th @ [CHR 0x0A]"
  using moves_diagonal [of n] by (cases "moves n") (simp add: move_line_def, blast)

section \<open>Ending\<close>

text \<open>
  Steps left for each thread once \<open>is_running\<close> is false, and: while one of them has not
  ended, one of them has a step, or the robot's state is to be counted.
\<close>

definition robot_left :: "rob \<Rightarrow> nat" where
  "robot_left r = (case r_pc r of RMove \<Rightarrow> 10 | RLock \<Rightarrow> 9 | RSetX \<Rightarrow> 8 | RSetY \<Rightarrow> 7 | RSetTheta \<Rightarrow> 6 | RSetTime \<Rightarrow> 5
     | RUnlock \<Rightarrow> 4 | RCount \<Rightarrow> 3 | RSleep \<Rightarrow> 2 | RTest \<Rightarrow> 1 | REnd \<Rightarrow> 0)"

definition logger_left :: "rob \<Rightarrow> nat" where
  "logger_left r = (case l_pc r of LOpen \<Rightarrow> 8 | LLock \<Rightarrow> 7 | LRead \<Rightarrow> 6 | LUnlock \<Rightarrow> 5 | LPrint \<Rightarrow> 4 | LSleep \<Rightarrow> 3
     | LTest \<Rightarrow> 2 | LClose \<Rightarrow> 1 | LEnd \<Rightarrow> 0)"

lemma robot_next_left:
  "robot_next b False ts r = Some t \<Longrightarrow> robot_left t < robot_left r \<and> logger_left t = logger_left r"
  by (cases "r_pc r") (auto simp: robot_next_def robot_left_def logger_left_def split: if_splits)

lemma logger_next_left:
  "logger_next b False r = Some t \<Longrightarrow> logger_left t < logger_left r \<and> robot_left t = robot_left r"
  by (cases "l_pc r") (auto simp: logger_next_def robot_left_def logger_left_def split: if_splits)

lemma rob_progress:
  assumes "rob_ok r" "\<And>ts. robot_next b u ts r = None" "\<And>b. logger_next b u r = None"
  shows "r_pc r \<in> {RCount, REnd} \<and> l_pc r = LEnd"
proof -
  obtain n c j ks where i: "rob_inv n c j ks r" using assms(1) by (auto simp: rob_ok_def)
  have "l_pc r \<in> {LLock, LEnd}" using assms(3) by (cases "l_pc r") (auto simp: logger_next_def split: if_splits)
  moreover have "r_pc r \<in> {RLock, RCount, REnd}" using assms(2) by (cases "r_pc r") (auto simp: robot_next_def split: if_splits)
  ultimately show ?thesis
    using i assms(2,3) by (auto simp: rob_inv_def publishing_def robot_next_def logger_next_def)
qed

end
