(* ===== verification/Lab6Level1.thy ===== *)
theory Lab6Level1
  imports Lab6Robot
begin

text \<open>
  \<open>lab6/src/program1.c\<close>: two cameras that overwrite their frames and post a semaphore, the
  synchronizer that waits for both and passes on a pair, the image writer that polls for a
  pair, the robot and the logger, and the main thread that stops them all.  The state has
  the C variables, and the histories \<open>taken\<close> and \<open>saved\<close>, which no step reads.
\<close>

section \<open>State\<close>

datatype l1_thread = CamT side | SyncT | WriterT

datatype l1_cam_pc = CTest | CLock | CId | CTime | CUnlock | CPost | CSleep | CEnd

record l1_cam =
  c_pc :: l1_cam_pc
  c_id :: int

datatype l1_sync_pc = YTest | YWaitL | YWaitR | YCheck | YLock | YLeft | YRight | YUnlock | YDiff
  | YLock2 | YPutL | YPutR | YFlag | YUnlock2 | YEnd

datatype l1_writer_pc = WTest | WLock | WCheck | WTakeL | WTakeR | WClear | WUnlock | WNone | WSaveL | WSaveR | WSleep | WEnd

datatype l1_main_pc = MSleep | MFlag | MPostL | MPostR | MJoin nat | MDone

record l1 =
  is_running :: bool
  camera_frame :: "side \<Rightarrow> frame"
  camera_mutex :: "l1_thread option"
  cam_sem :: "side \<Rightarrow> nat"
  sync_left_frame :: frame
  sync_right_frame :: frame
  has_new_sync_pair :: bool
  sync_mutex :: "l1_thread option"
  cam :: "side \<Rightarrow> l1_cam"
  y_pc :: l1_sync_pc
  y_left :: frame
  y_right :: frame
  w_pc :: l1_writer_pc
  w_left :: frame
  w_right :: frame
  files :: "(string \<times> string) list"
  robot :: rob
  main_pc :: l1_main_pc
  taken :: "side \<Rightarrow> frame list"
  saved :: "(frame \<times> frame) list"

definition no_frame :: frame where
  "no_frame = \<lparr>frame_id = 0, timestamp = \<lparr>tv_sec = 0, tv_nsec = 0\<rparr>\<rparr>"

text \<open>The state in which \<open>main\<close> has created the threads.\<close>

definition l1_start :: l1 where
  "l1_start = \<lparr>is_running = True, camera_frame = (\<lambda>_. no_frame), camera_mutex = None, cam_sem = (\<lambda>_. 0),
     sync_left_frame = no_frame, sync_right_frame = no_frame, has_new_sync_pair = False, sync_mutex = None,
     cam = (\<lambda>_. \<lparr>c_pc = CTest, c_id = 1\<rparr>), y_pc = YTest, y_left = no_frame, y_right = no_frame,
     w_pc = WTest, w_left = no_frame, w_right = no_frame, files = [], robot = rob_start, main_pc = MSleep,
     taken = (\<lambda>_. []), saved = []\<rparr>"

section \<open>The threads\<close>

definition cam_to :: "side \<Rightarrow> l1_cam_pc \<Rightarrow> l1 \<Rightarrow> l1" where
  "cam_to d p s = s\<lparr>cam := (cam s)(d := (cam s d)\<lparr>c_pc := p\<rparr>)\<rparr>"

definition l1_camera :: "side \<Rightarrow> timespec \<Rightarrow> l1 \<Rightarrow> l1 option" where
  "l1_camera d now s = (case c_pc (cam s d) of
     CTest \<Rightarrow> Some (cam_to d (if is_running s then CLock else CEnd) s)
   | CLock \<Rightarrow> (if camera_mutex s = None then Some (cam_to d CId (s\<lparr>camera_mutex := Some (CamT d)\<rparr>)) else None)
   | CId \<Rightarrow> Some (s\<lparr>camera_frame := (camera_frame s)(d := (camera_frame s d)\<lparr>frame_id := c_id (cam s d)\<rparr>),
        cam := (cam s)(d := \<lparr>c_pc = CTime, c_id = c_id (cam s d) + 1\<rparr>)\<rparr>)
   | CTime \<Rightarrow> (let f = (camera_frame s d)\<lparr>timestamp := now\<rparr>
        in Some (cam_to d CUnlock (s\<lparr>camera_frame := (camera_frame s)(d := f), taken := (taken s)(d := taken s d @ [f])\<rparr>)))
   | CUnlock \<Rightarrow> Some (cam_to d CPost (s\<lparr>camera_mutex := None\<rparr>))
   | CPost \<Rightarrow> Some (cam_to d CSleep (s\<lparr>cam_sem := (cam_sem s)(d := cam_sem s d + 1)\<rparr>))
   | CSleep \<Rightarrow> Some (cam_to d CTest s)
   | CEnd \<Rightarrow> None)"

definition l1_sync :: "l1 \<Rightarrow> l1 option" where
  "l1_sync s = (case y_pc s of
     YTest \<Rightarrow> Some (s\<lparr>y_pc := if is_running s then YWaitL else YEnd\<rparr>)
   | YWaitL \<Rightarrow> (if cam_sem s Lft = 0 then None
        else Some (s\<lparr>cam_sem := (cam_sem s)(Lft := cam_sem s Lft - 1), y_pc := YWaitR\<rparr>))
   | YWaitR \<Rightarrow> (if cam_sem s Rgt = 0 then None
        else Some (s\<lparr>cam_sem := (cam_sem s)(Rgt := cam_sem s Rgt - 1), y_pc := YCheck\<rparr>))
   | YCheck \<Rightarrow> Some (s\<lparr>y_pc := if is_running s then YLock else YEnd\<rparr>)
   | YLock \<Rightarrow> (if camera_mutex s = None then Some (s\<lparr>camera_mutex := Some SyncT, y_pc := YLeft\<rparr>) else None)
   | YLeft \<Rightarrow> Some (s\<lparr>y_left := camera_frame s Lft, y_pc := YRight\<rparr>)
   | YRight \<Rightarrow> Some (s\<lparr>y_right := camera_frame s Rgt, y_pc := YUnlock\<rparr>)
   | YUnlock \<Rightarrow> Some (s\<lparr>camera_mutex := None, y_pc := YDiff\<rparr>)
   | YDiff \<Rightarrow> Some (s\<lparr>y_pc := if in_tolerance (timestamp (y_left s)) (timestamp (y_right s)) then YLock2 else YTest\<rparr>)
   | YLock2 \<Rightarrow> (if sync_mutex s = None then Some (s\<lparr>sync_mutex := Some SyncT, y_pc := YPutL\<rparr>) else None)
   | YPutL \<Rightarrow> Some (s\<lparr>sync_left_frame := y_left s, y_pc := YPutR\<rparr>)
   | YPutR \<Rightarrow> Some (s\<lparr>sync_right_frame := y_right s, y_pc := YFlag\<rparr>)
   | YFlag \<Rightarrow> Some (s\<lparr>has_new_sync_pair := True, y_pc := YUnlock2\<rparr>)
   | YUnlock2 \<Rightarrow> Some (s\<lparr>sync_mutex := None, y_pc := YTest\<rparr>)
   | YEnd \<Rightarrow> None)"

text \<open>The name of a frame's file and what is written to it.\<close>

definition l1_left_file :: "frame \<Rightarrow> string \<times> string" where
  "l1_left_file f = (left_name (frame_id f), ''Simulated left image data for frame '' @ show_int (frame_id f) @ [CHR 0x0A])"

definition l1_right_file :: "frame \<Rightarrow> string \<times> string" where
  "l1_right_file f = (right_name (frame_id f), ''Simulated right image data for frame '' @ show_int (frame_id f) @ [CHR 0x0A])"

text \<open>The image writer; \<open>refused\<close>: the \<open>fopen\<close> of this step fails.\<close>

definition l1_writer :: "bool \<Rightarrow> l1 \<Rightarrow> l1 option" where
  "l1_writer refused s = (case w_pc s of
     WTest \<Rightarrow> Some (s\<lparr>w_pc := if is_running s then WLock else WEnd\<rparr>)
   | WLock \<Rightarrow> (if sync_mutex s = None then Some (s\<lparr>sync_mutex := Some WriterT, w_pc := WCheck\<rparr>) else None)
   | WCheck \<Rightarrow> Some (s\<lparr>w_pc := if has_new_sync_pair s then WTakeL else WNone\<rparr>)
   | WTakeL \<Rightarrow> Some (s\<lparr>w_left := sync_left_frame s, w_pc := WTakeR\<rparr>)
   | WTakeR \<Rightarrow> Some (s\<lparr>w_right := sync_right_frame s, w_pc := WClear\<rparr>)
   | WClear \<Rightarrow> Some (s\<lparr>has_new_sync_pair := False, w_pc := WUnlock, saved := saved s @ [(w_left s, w_right s)]\<rparr>)
   | WUnlock \<Rightarrow> Some (s\<lparr>sync_mutex := None, w_pc := WSaveL\<rparr>)
   | WNone \<Rightarrow> Some (s\<lparr>sync_mutex := None, w_pc := WSleep\<rparr>)
   | WSaveL \<Rightarrow> Some (s\<lparr>w_pc := WSaveR, files := files s @ (if refused then [] else [l1_left_file (w_left s)])\<rparr>)
   | WSaveR \<Rightarrow> Some (s\<lparr>w_pc := WSleep, files := files s @ (if refused then [] else [l1_right_file (w_right s)])\<rparr>)
   | WSleep \<Rightarrow> Some (s\<lparr>w_pc := WTest\<rparr>)
   | WEnd \<Rightarrow> None)"

definition l1_ended :: "nat \<Rightarrow> l1 \<Rightarrow> bool" where
  "l1_ended i s = (if i = 0 then c_pc (cam s Lft) = CEnd else if i = 1 then c_pc (cam s Rgt) = CEnd
     else if i = 2 then y_pc s = YEnd else if i = 3 then w_pc s = WEnd
     else if i = 4 then r_pc (robot s) = REnd else l_pc (robot s) = LEnd)"

text \<open>\<open>main\<close> from the twenty seconds' sleep on.\<close>

definition l1_main :: "l1 \<Rightarrow> l1 option" where
  "l1_main s = (case main_pc s of
     MSleep \<Rightarrow> Some (s\<lparr>main_pc := MFlag\<rparr>)
   | MFlag \<Rightarrow> Some (s\<lparr>is_running := False, main_pc := MPostL\<rparr>)
   | MPostL \<Rightarrow> Some (s\<lparr>cam_sem := (cam_sem s)(Lft := cam_sem s Lft + 1), main_pc := MPostR\<rparr>)
   | MPostR \<Rightarrow> Some (s\<lparr>cam_sem := (cam_sem s)(Rgt := cam_sem s Rgt + 1), main_pc := MJoin 0\<rparr>)
   | MJoin i \<Rightarrow> (if i < 6 then if l1_ended i s then Some (s\<lparr>main_pc := MJoin (i + 1)\<rparr>) else None
                else Some (s\<lparr>main_pc := MDone\<rparr>))
   | MDone \<Rightarrow> None)"

datatype l1_act = Camera side timespec | Sync | Write bool | Robot timespec | Log bool | MainStep

definition l1_step :: "l1_act \<Rightarrow> l1 \<Rightarrow> l1 option" where
  "l1_step a s = (case a of
     Camera d now \<Rightarrow> l1_camera d now s
   | Sync \<Rightarrow> l1_sync s
   | Write refused \<Rightarrow> l1_writer refused s
   | Robot now \<Rightarrow> map_option (\<lambda>r. s\<lparr>robot := r\<rparr>) (robot_next False (is_running s) now (robot s))
   | Log refused \<Rightarrow> map_option (\<lambda>r. s\<lparr>robot := r\<rparr>) (logger_next refused (is_running s) (robot s))
   | MainStep \<Rightarrow> l1_main s)"

abbreviation l1_run :: "l1_act list \<Rightarrow> l1 \<Rightarrow> l1 option" where
  "l1_run \<equiv> run_acts l1_step"

section \<open>Mutual exclusion\<close>

definition camera_cs :: "l1_cam_pc set" where "camera_cs = {CId, CTime, CUnlock}"
definition sync_cs :: "l1_sync_pc set" where "sync_cs = {YLeft, YRight, YUnlock}"
definition sync_cs2 :: "l1_sync_pc set" where "sync_cs2 = {YPutL, YPutR, YFlag, YUnlock2}"
definition writer_cs :: "l1_writer_pc set" where "writer_cs = {WCheck, WTakeL, WTakeR, WClear, WUnlock, WNone}"

lemma sections [simp]:
  "CTest \<notin> camera_cs" "CLock \<notin> camera_cs" "CId \<in> camera_cs" "CTime \<in> camera_cs" "CUnlock \<in> camera_cs"
  "CPost \<notin> camera_cs" "CSleep \<notin> camera_cs" "CEnd \<notin> camera_cs"
  "YTest \<notin> sync_cs" "YWaitL \<notin> sync_cs" "YWaitR \<notin> sync_cs" "YCheck \<notin> sync_cs" "YLock \<notin> sync_cs" "YLeft \<in> sync_cs"
  "YRight \<in> sync_cs" "YUnlock \<in> sync_cs" "YDiff \<notin> sync_cs" "YLock2 \<notin> sync_cs" "YPutL \<notin> sync_cs" "YPutR \<notin> sync_cs"
  "YFlag \<notin> sync_cs" "YUnlock2 \<notin> sync_cs" "YEnd \<notin> sync_cs"
  "YTest \<notin> sync_cs2" "YWaitL \<notin> sync_cs2" "YWaitR \<notin> sync_cs2" "YCheck \<notin> sync_cs2" "YLock \<notin> sync_cs2" "YLeft \<notin> sync_cs2"
  "YRight \<notin> sync_cs2" "YUnlock \<notin> sync_cs2" "YDiff \<notin> sync_cs2" "YLock2 \<notin> sync_cs2" "YPutL \<in> sync_cs2" "YPutR \<in> sync_cs2"
  "YFlag \<in> sync_cs2" "YUnlock2 \<in> sync_cs2" "YEnd \<notin> sync_cs2"
  "WTest \<notin> writer_cs" "WLock \<notin> writer_cs" "WCheck \<in> writer_cs" "WTakeL \<in> writer_cs" "WTakeR \<in> writer_cs" "WClear \<in> writer_cs"
  "WUnlock \<in> writer_cs" "WNone \<in> writer_cs" "WSaveL \<notin> writer_cs" "WSaveR \<notin> writer_cs" "WSleep \<notin> writer_cs" "WEnd \<notin> writer_cs"
  by (simp_all add: camera_cs_def sync_cs_def sync_cs2_def writer_cs_def)

definition locks_ok :: "l1 \<Rightarrow> bool" where
  "locks_ok s \<longleftrightarrow> (\<forall>d. camera_mutex s = Some (CamT d) \<longleftrightarrow> c_pc (cam s d) \<in> camera_cs) \<and>
     (camera_mutex s = Some SyncT \<longleftrightarrow> y_pc s \<in> sync_cs) \<and> camera_mutex s \<noteq> Some WriterT \<and>
     (sync_mutex s = Some SyncT \<longleftrightarrow> y_pc s \<in> sync_cs2) \<and> (sync_mutex s = Some WriterT \<longleftrightarrow> w_pc s \<in> writer_cs) \<and>
     (\<forall>d. sync_mutex s \<noteq> Some (CamT d)) \<and> rob_ok (robot s)"

lemma locks_start: "locks_ok l1_start"
  by (auto simp: locks_ok_def l1_start_def)

lemma locks_holder:
  assumes "locks_ok s"
  shows "c_pc (cam s d) \<in> camera_cs \<Longrightarrow> camera_mutex s = Some (CamT d)"
    and "y_pc s \<in> sync_cs \<Longrightarrow> camera_mutex s = Some SyncT" and "y_pc s \<in> sync_cs2 \<Longrightarrow> sync_mutex s = Some SyncT"
    and "w_pc s \<in> writer_cs \<Longrightarrow> sync_mutex s = Some WriterT"
  using assms by (simp_all add: locks_ok_def)

lemma locks_same:
  assumes "locks_ok s" "\<And>e. e \<noteq> d \<Longrightarrow> cam t e = cam s e" "c_pc (cam t d) \<in> camera_cs \<longleftrightarrow> c_pc (cam s d) \<in> camera_cs"
    and "camera_mutex t = camera_mutex s" "sync_mutex t = sync_mutex s" "y_pc t = y_pc s" "w_pc t = w_pc s" "robot t = robot s"
  shows "locks_ok t"
proof -
  have "c_pc (cam t e) \<in> camera_cs \<longleftrightarrow> c_pc (cam s e) \<in> camera_cs" for e using assms(2,3) by (cases "e = d") auto
  then show ?thesis using assms(1) by (simp add: locks_ok_def assms(4-))
qed

lemma l1_locks_camera:
  assumes "l1_camera d now s = Some t" and ok: "locks_ok s"
  shows "locks_ok t"
proof (cases "c_pc (cam s d)")
  case CLock
  then have t: "camera_mutex s = None" "t = cam_to d CId (s\<lparr>camera_mutex := Some (CamT d)\<rparr>)"
    using assms by (auto simp: l1_camera_def split: if_splits)
  with ok show ?thesis by (auto simp: cam_to_def locks_ok_def)
next
  case CUnlock
  then have m: "camera_mutex s = Some (CamT d)" using locks_holder(1) [OF ok, of d] by simp
  have "t = cam_to d CPost (s\<lparr>camera_mutex := None\<rparr>)" using assms CUnlock by (simp add: l1_camera_def)
  with ok m show ?thesis by (auto simp: cam_to_def locks_ok_def)
qed (rule locks_same [OF ok, of d]; use assms in \<open>auto simp: l1_camera_def cam_to_def Let_def split: if_splits\<close>)+

lemma l1_locks_sync:
  assumes "l1_sync s = Some t" and ok: "locks_ok s"
  shows "locks_ok t"
proof -
  note h = locks_holder(2,3) [OF ok]
  show ?thesis
    using assms h
    by (cases "y_pc s") (simp add: l1_sync_def split: if_splits; hypsubst_thin; simp add: locks_ok_def)+
qed

lemma l1_locks_writer:
  assumes "l1_writer b s = Some t" and ok: "locks_ok s"
  shows "locks_ok t"
proof -
  note h = locks_holder(4) [OF ok]
  show ?thesis
    using assms h
    by (cases "w_pc s") (simp add: l1_writer_def split: if_splits; hypsubst_thin; simp add: locks_ok_def)+
qed

lemma locks_main: "l1_main s = Some t \<Longrightarrow> locks_ok s \<Longrightarrow> locks_ok t"
  by (cases "main_pc s") (simp add: l1_main_def split: if_splits; hypsubst_thin; simp add: locks_ok_def)+

lemma l1_locks_step:
  assumes "l1_step a s = Some t" "locks_ok s"
  shows "locks_ok t"
proof (cases a)
  case (Robot now)
  with assms obtain r where "robot_next False (is_running s) now (robot s) = Some r" "t = s\<lparr>robot := r\<rparr>"
    by (auto simp: l1_step_def)
  with assms(2) rob_ok_facts(2) show ?thesis by (auto simp: locks_ok_def)
next
  case (Log b)
  with assms obtain r where "logger_next b (is_running s) (robot s) = Some r" "t = s\<lparr>robot := r\<rparr>"
    by (auto simp: l1_step_def)
  with assms(2) rob_ok_facts(3) show ?thesis by (auto simp: locks_ok_def)
qed (use assms l1_locks_camera l1_locks_sync l1_locks_writer locks_main in \<open>auto simp: l1_step_def\<close>)

section \<open>Frames\<close>

text \<open>The frames of a camera are numbered from one on.\<close>

definition l1_camera_ok :: "side \<Rightarrow> l1 \<Rightarrow> bool" where
  "l1_camera_ok d s \<longleftrightarrow> map frame_id (taken s d) = map int [1..<Suc (length (taken s d))] \<and>
     (c_pc (cam s d) = CTime \<longrightarrow> frame_id (camera_frame s d) = int (Suc (length (taken s d)))) \<and>
     c_id (cam s d) = int (length (taken s d)) + (if c_pc (cam s d) = CTime then 2 else 1) \<and>
     (c_pc (cam s d) \<noteq> CTime \<and> taken s d \<noteq> [] \<longrightarrow> camera_frame s d = last (taken s d)) \<and>
     (c_pc (cam s d) \<in> {CUnlock, CPost} \<longrightarrow> taken s d \<noteq> [])"

text \<open>
  While \<open>main\<close> sleeps, a count above zero means that the camera has taken a frame; so the
  synchronizer reads no frame before the first.
\<close>

definition l1_counts_ok :: "l1 \<Rightarrow> bool" where
  "l1_counts_ok s \<longleftrightarrow> (is_running s \<longleftrightarrow> main_pc s \<in> {MSleep, MFlag}) \<and>
     (is_running s \<longrightarrow> (\<forall>d. 0 < cam_sem s d \<longrightarrow> taken s d \<noteq> []) \<and>
        (y_pc s \<in> {YWaitR, YCheck} \<longrightarrow> taken s Lft \<noteq> []) \<and> (y_pc s = YCheck \<longrightarrow> taken s Rgt \<noteq> [])) \<and>
     (y_pc s \<in> {YLock, YLeft, YRight} \<longrightarrow> taken s Lft \<noteq> [] \<and> taken s Rgt \<noteq> [])"

definition good_pair :: "l1 \<Rightarrow> frame \<Rightarrow> frame \<Rightarrow> bool" where
  "good_pair s l r \<longleftrightarrow> l \<in> set (taken s Lft) \<and> r \<in> set (taken s Rgt) \<and> in_tolerance (timestamp l) (timestamp r)"

definition pairs_ok :: "l1 \<Rightarrow> bool" where
  "pairs_ok s \<longleftrightarrow>
     (y_pc s \<in> {YRight, YUnlock, YDiff} \<longrightarrow> y_left s \<in> set (taken s Lft)) \<and>
     (y_pc s \<in> {YUnlock, YDiff} \<longrightarrow> y_right s \<in> set (taken s Rgt)) \<and>
     (y_pc s \<in> {YLock2, YPutL, YPutR, YFlag} \<longrightarrow> good_pair s (y_left s) (y_right s)) \<and>
     (y_pc s \<in> {YPutR, YFlag} \<longrightarrow> sync_left_frame s = y_left s) \<and>
     (y_pc s = YFlag \<longrightarrow> sync_right_frame s = y_right s) \<and>
     (has_new_sync_pair s \<and> y_pc s \<notin> {YPutR, YFlag} \<longrightarrow> good_pair s (sync_left_frame s) (sync_right_frame s)) \<and>
     (w_pc s \<in> {WTakeL, WTakeR, WClear} \<longrightarrow> has_new_sync_pair s) \<and>
     (w_pc s \<in> {WTakeR, WClear} \<longrightarrow> w_left s = sync_left_frame s) \<and>
     (w_pc s = WClear \<longrightarrow> w_right s = sync_right_frame s) \<and>
     (\<forall>(l, r) \<in> set (saved s). good_pair s l r)"

lemma camera_start: "l1_camera_ok d l1_start" by (simp add: l1_camera_ok_def l1_start_def)
lemma counts_start: "l1_counts_ok l1_start" by (simp add: l1_counts_ok_def l1_start_def)
lemma pairs_start: "pairs_ok l1_start" by (simp add: pairs_ok_def l1_start_def)

lemma l1_camera_other:
  assumes "l1_camera e now s = Some t"
  shows "d \<noteq> e \<Longrightarrow> cam t d = cam s d \<and> taken t d = taken s d \<and> camera_frame t d = camera_frame s d \<and> cam_sem t d = cam_sem s d"
    and "is_running t = is_running s \<and> main_pc t = main_pc s \<and> y_pc t = y_pc s \<and> y_left t = y_left s \<and> y_right t = y_right s \<and>
      sync_left_frame t = sync_left_frame s \<and> sync_right_frame t = sync_right_frame s \<and>
      has_new_sync_pair t = has_new_sync_pair s \<and> w_pc t = w_pc s \<and> w_left t = w_left s \<and> w_right t = w_right s \<and>
      files t = files s \<and> saved t = saved s \<and> robot t = robot s \<and> set (taken s d) \<subseteq> set (taken t d)"
  using assms by (cases "c_pc (cam s e)"; force simp: l1_camera_def cam_to_def Let_def split: if_splits)+

lemma camera_camera:
  assumes "l1_camera e now s = Some t" "l1_camera_ok d s"
  shows "l1_camera_ok d t"
proof (cases "e = d")
  case False
  with l1_camera_other(1) [OF assms(1), of d] assms(2) show ?thesis by (simp add: l1_camera_ok_def)
next
  case True
  show ?thesis
  proof (cases "c_pc (cam s d)")
    case CTime
    then have t: "taken t d = taken s d @ [(camera_frame s d)\<lparr>timestamp := now\<rparr>]"
        "camera_frame t d = (camera_frame s d)\<lparr>timestamp := now\<rparr>" "c_pc (cam t d) = CUnlock" "c_id (cam t d) = c_id (cam s d)"
      using assms(1) True by (auto simp: l1_camera_def cam_to_def Let_def)
    with assms(2) CTime show ?thesis by (simp add: l1_camera_ok_def)
  next
    case CId
    then have t: "taken t d = taken s d" "camera_frame t d = (camera_frame s d)\<lparr>frame_id := c_id (cam s d)\<rparr>"
        "c_pc (cam t d) = CTime" "c_id (cam t d) = c_id (cam s d) + 1"
      using assms(1) True by (auto simp: l1_camera_def)
    with assms(2) CId show ?thesis by (simp add: l1_camera_ok_def)
  qed (use assms True in \<open>simp add: l1_camera_def split: if_splits; auto simp: cam_to_def l1_camera_ok_def\<close>)+
qed

lemma l1_other_camera:
  "l1_sync s = Some t \<Longrightarrow> cam t = cam s \<and> taken t = taken s \<and> camera_frame t = camera_frame s"
  "l1_writer b s = Some t \<Longrightarrow> cam t = cam s \<and> taken t = taken s \<and> camera_frame t = camera_frame s"
  "l1_main s = Some t \<Longrightarrow> cam t = cam s \<and> taken t = taken s \<and> camera_frame t = camera_frame s"
  by ((cases "y_pc s"; force simp: l1_sync_def split: if_splits),
      (cases "w_pc s"; force simp: l1_writer_def split: if_splits),
      (cases "main_pc s"; force simp: l1_main_def split: if_splits))

lemma camera_same:
  "cam t d = cam s d \<Longrightarrow> taken t d = taken s d \<Longrightarrow> camera_frame t d = camera_frame s d \<Longrightarrow> l1_camera_ok d t = l1_camera_ok d s"
  by (simp add: l1_camera_ok_def)

lemma camera_step:
  assumes "l1_step a s = Some t" "l1_camera_ok d s"
  shows "l1_camera_ok d t"
proof (cases "\<exists>e now. a = Camera e now")
  case True
  with assms camera_camera show ?thesis by (auto simp: l1_step_def)
next
  case False
  with assms(1) have "cam t = cam s \<and> taken t = taken s \<and> camera_frame t = camera_frame s"
    by (cases a) (auto simp: l1_step_def dest: l1_other_camera)
  with assms(2) camera_same [of t d s] show ?thesis by simp
qed

lemma counts_step:
  assumes step: "l1_step a s = Some t" and inv: "l1_counts_ok s" "l1_camera_ok Lft s" "l1_camera_ok Rgt s"
  shows "l1_counts_ok t"
proof (cases a)
  case (Camera d now)
  then have c: "l1_camera d now s = Some t" using step by (simp add: l1_step_def)
  have sub: "set (taken s e) \<subseteq> set (taken t e)" for e
    using l1_camera_other [OF c, of e] by (cases "e = d") simp_all
  then have ne: "taken s e \<noteq> [] \<Longrightarrow> taken t e \<noteq> []" for e by (metis empty_set subset_empty set_empty)
  have sem: "0 < cam_sem s e \<or> taken t e \<noteq> []" if "0 < cam_sem t e" for e
  proof (cases "e = d \<and> c_pc (cam s d) = CPost")
    case True
    then have "taken s e \<noteq> []" using inv(2,3) by (cases d) (simp_all add: l1_camera_ok_def)
    with ne show ?thesis by blast
  next
    case False
    then have "cam_sem t e = cam_sem s e"
      using c by (cases "c_pc (cam s d)") (auto simp: l1_camera_def cam_to_def Let_def split: if_splits)
    with that show ?thesis by simp
  qed
  have "is_running t = is_running s" "main_pc t = main_pc s" "y_pc t = y_pc s"
    using l1_camera_other(2) [OF c] by simp_all
  then show ?thesis
    using inv(1) [unfolded l1_counts_ok_def] ne sem unfolding l1_counts_ok_def by (metis (no_types, lifting))
next
  case Sync
  with step inv(1) show ?thesis
    by (cases "y_pc s") (simp add: l1_step_def l1_sync_def split: if_splits; hypsubst_thin; auto simp: l1_counts_ok_def)+
next
  case (Write b)
  with step inv(1) show ?thesis
    by (cases "w_pc s") (simp add: l1_step_def l1_writer_def split: if_splits; hypsubst_thin; auto simp: l1_counts_ok_def)+
next
  case MainStep
  with step inv(1) show ?thesis
    by (cases "main_pc s") (simp add: l1_step_def l1_main_def split: if_splits; hypsubst_thin; auto simp: l1_counts_ok_def)+
qed (insert step inv(1), simp add: l1_step_def, elim exE conjE, hypsubst_thin, simp add: l1_counts_ok_def)+

section \<open>Pairs\<close>

lemma good_pair_mono:
  "good_pair s l r \<Longrightarrow> set (taken s Lft) \<subseteq> set (taken t Lft) \<Longrightarrow> set (taken s Rgt) \<subseteq> set (taken t Rgt) \<Longrightarrow> good_pair t l r"
  by (auto simp: good_pair_def)

lemma pairs_mono:
  assumes "pairs_ok s" and sub: "set (taken s Lft) \<subseteq> set (taken t Lft)" "set (taken s Rgt) \<subseteq> set (taken t Rgt)"
    and eq: "y_pc t = y_pc s" "y_left t = y_left s" "y_right t = y_right s" "sync_left_frame t = sync_left_frame s"
      "sync_right_frame t = sync_right_frame s" "has_new_sync_pair t = has_new_sync_pair s" "w_pc t = w_pc s"
      "w_left t = w_left s" "w_right t = w_right s" "saved t = saved s"
  shows "pairs_ok t"
proof -
  have g: "good_pair s l r \<Longrightarrow> good_pair t l r" for l r using good_pair_mono sub by blast
  show ?thesis
    using assms(1) g sub unfolding pairs_ok_def eq by (intro conjI) (blast+)
qed

lemma pairs_sync:
  assumes step: "l1_sync s = Some t" and p: "pairs_ok s" and c: "l1_counts_ok s" and k: "l1_camera_ok Lft s" "l1_camera_ok Rgt s"
    and l: "locks_ok s"
  shows "pairs_ok t"
proof -
  have g: "good_pair t = good_pair s" using l1_other_camera(1) [OF step] by (simp add: good_pair_def fun_eq_iff)
  have last: "camera_frame s Lft \<in> set (taken s Lft)" "camera_frame s Rgt \<in> set (taken s Rgt)" if "y_pc s \<in> {YLeft, YRight}"
  proof -
    from that have "camera_mutex s = Some SyncT" using locks_holder(2) [OF l] by auto
    then have "c_pc (cam s d) \<noteq> CTime" for d using locks_holder(1) [OF l, of d] by auto
    with that k c show "camera_frame s Lft \<in> set (taken s Lft)" "camera_frame s Rgt \<in> set (taken s Rgt)"
      by (auto simp: l1_camera_ok_def l1_counts_ok_def)
  qed
  have w: "w_pc s \<notin> {WTakeL, WTakeR, WClear}" if "y_pc s \<in> sync_cs2"
    using locks_holder(3,4) [OF l] that by auto
  show ?thesis
    using step p last w
    by (cases "y_pc s") (simp add: l1_sync_def split: if_splits; hypsubst_thin; simp add: pairs_ok_def good_pair_def)+
qed

lemma pairs_writer:
  assumes step: "l1_writer b s = Some t" and p: "pairs_ok s" and l: "locks_ok s"
  shows "pairs_ok t"
proof -
  have g: "good_pair t = good_pair s" using l1_other_camera(2) [OF step] by (simp add: good_pair_def fun_eq_iff)
  have t: "taken t = taken s" using l1_other_camera(2) [OF step] by simp
  have y: "y_pc s \<notin> {YPutR, YFlag}" if "w_pc s \<in> writer_cs"
    using locks_holder(3,4) [OF l] that by auto
  show ?thesis
    using step p y
    by (cases "w_pc s") (simp add: l1_writer_def split: if_splits; hypsubst_thin; simp add: pairs_ok_def good_pair_def)+
qed

lemma pairs_step:
  assumes step: "l1_step a s = Some t" and p: "pairs_ok s" and "l1_counts_ok s" "l1_camera_ok Lft s" "l1_camera_ok Rgt s" "locks_ok s"
  shows "pairs_ok t"
proof (cases a)
  case (Camera d now)
  then have c: "l1_camera d now s = Some t" using step by (simp add: l1_step_def)
  have sub: "set (taken s e) \<subseteq> set (taken t e)" for e
    using l1_camera_other [OF c, of e] by (cases "e = d") simp_all
  show ?thesis by (rule pairs_mono [OF p sub sub]) (use l1_camera_other(2) [OF c] in simp_all)
next
  case MainStep
  then have m: "l1_main s = Some t" using step by (simp add: l1_step_def)
  show ?thesis
    by (rule pairs_mono [OF p]) (use m in \<open>auto simp: l1_main_def split: l1_main_pc.splits if_splits\<close>)
next
  case (Robot now)
  then show ?thesis by (intro pairs_mono [OF p]) (use step in \<open>auto simp: l1_step_def\<close>)
next
  case (Log b)
  then show ?thesis by (intro pairs_mono [OF p]) (use step in \<open>auto simp: l1_step_def\<close>)
qed (use assms pairs_sync pairs_writer in \<open>auto simp: l1_step_def\<close>)

section \<open>Files\<close>

definition l1_pair_files :: "(frame \<times> frame) list \<Rightarrow> (string \<times> string) set" where
  "l1_pair_files ps = l1_left_file ` fst ` set ps \<union> l1_right_file ` snd ` set ps"

definition files_ok :: "l1 \<Rightarrow> bool" where
  "files_ok s \<longleftrightarrow> set (files s) \<subseteq> l1_pair_files (saved s) \<and>
     (w_pc s \<in> {WUnlock, WSaveL, WSaveR} \<longrightarrow> (w_left s, w_right s) \<in> set (saved s))"

lemma l1_pair_files_facts [simp]:
  "(l, r) \<in> set ps \<Longrightarrow> l1_left_file l \<in> l1_pair_files ps" "(l, r) \<in> set ps \<Longrightarrow> l1_right_file r \<in> l1_pair_files ps"
  "x \<in> l1_pair_files ps \<Longrightarrow> x \<in> l1_pair_files (ps @ qs)"
  by (force simp: l1_pair_files_def)+

lemma files_start: "files_ok l1_start" by (simp add: files_ok_def l1_start_def)

lemma files_writer: "l1_writer b s = Some t \<Longrightarrow> files_ok s \<Longrightarrow> files_ok t"
  by (cases "w_pc s")
    (simp add: l1_writer_def split: if_splits; hypsubst_thin;
     auto simp: files_ok_def)+

lemma files_step:
  assumes "l1_step a s = Some t" "files_ok s"
  shows "files_ok t"
proof (cases "\<exists>b. a = Write b")
  case True
  with assms files_writer show ?thesis by (auto simp: l1_step_def)
next
  case False
  have "files t = files s \<and> saved t = saved s \<and> w_pc t = w_pc s \<and> w_left t = w_left s \<and> w_right t = w_right s"
  proof (cases a)
    case (Camera d now)
    with assms(1) l1_camera_other(2) [of d now s t] show ?thesis by (simp add: l1_step_def)
  next
    case Sync
    with assms(1) show ?thesis by (cases "y_pc s") (simp add: l1_step_def l1_sync_def split: if_splits; force)+
  next
    case MainStep
    with assms(1) show ?thesis by (cases "main_pc s") (simp add: l1_step_def l1_main_def split: if_splits; force)+
  qed (use False assms(1) in \<open>auto simp: l1_step_def\<close>)
  with assms(2) show ?thesis by (simp add: files_ok_def)
qed

section \<open>Reachable states\<close>

definition l1_ok :: "l1 \<Rightarrow> bool" where
  "l1_ok s \<longleftrightarrow> locks_ok s \<and> l1_counts_ok s \<and> l1_camera_ok Lft s \<and> l1_camera_ok Rgt s \<and> pairs_ok s \<and> files_ok s"

lemma l1_ok_start: "l1_ok l1_start"
  by (simp add: l1_ok_def locks_start counts_start camera_start pairs_start files_start)

lemma l1_ok_step: "l1_step a s = Some t \<Longrightarrow> l1_ok s \<Longrightarrow> l1_ok t"
  unfolding l1_ok_def using l1_locks_step counts_step camera_step pairs_step files_step by blast

lemma l1_ok_run: "l1_run as s = Some t \<Longrightarrow> l1_ok s \<Longrightarrow> l1_ok t"
  by (induction rule: run_acts_induct) (auto dest: l1_ok_step)

text \<open>
  C13. Level 1 saves only stereo pairs: however the threads interleave, the frames a camera
  has taken are numbered from one, every pair the image writer takes is a whole frame of the
  left camera and a whole frame of the right camera, less than 20 ms apart by the
  synchronizer's test, and every file written is one of those frames.
\<close>

theorem l1_saves_pairs:
  assumes "l1_run as l1_start = Some s"
  shows "map frame_id (taken s d) = map int [1..<Suc (length (taken s d))] \<and>
    set (saved s) \<subseteq> {(l, r). l \<in> set (taken s Lft) \<and> r \<in> set (taken s Rgt) \<and> in_tolerance (timestamp l) (timestamp r)} \<and>
    set (files s) \<subseteq> l1_pair_files (saved s)"
proof -
  have "l1_ok s" using l1_ok_run [OF assms l1_ok_start] .
  then have c: "l1_camera_ok d s" and p: "pairs_ok s" and f: "files_ok s" by (cases d; simp add: l1_ok_def)+
  have "good_pair s l r" if "(l, r) \<in> set (saved s)" for l r using p that unfolding pairs_ok_def by blast
  then have "set (saved s) \<subseteq> {(l, r). l \<in> set (taken s Lft) \<and> r \<in> set (taken s Rgt) \<and> in_tolerance (timestamp l) (timestamp r)}"
    unfolding good_pair_def by blast
  then show ?thesis using c f unfolding l1_camera_ok_def files_ok_def by blast
qed

section \<open>Shutdown\<close>

definition sync_left_steps :: "l1 \<Rightarrow> nat" where
  "sync_left_steps s = (case y_pc s of YEnd \<Rightarrow> 0 | YTest \<Rightarrow> 1 | YUnlock2 \<Rightarrow> 2 | YFlag \<Rightarrow> 3 | YPutR \<Rightarrow> 4 | YPutL \<Rightarrow> 5 | YLock2 \<Rightarrow> 6
     | YDiff \<Rightarrow> 7 | YUnlock \<Rightarrow> 8 | YRight \<Rightarrow> 9 | YLeft \<Rightarrow> 10 | YLock \<Rightarrow> 11 | YCheck \<Rightarrow> 12 | YWaitR \<Rightarrow> 13 | YWaitL \<Rightarrow> 14)"

definition writer_left_steps :: "l1 \<Rightarrow> nat" where
  "writer_left_steps s = (case w_pc s of WEnd \<Rightarrow> 0 | WTest \<Rightarrow> 1 | WSleep \<Rightarrow> 2 | WNone \<Rightarrow> 3 | WSaveR \<Rightarrow> 3 | WSaveL \<Rightarrow> 4 | WUnlock \<Rightarrow> 5
     | WClear \<Rightarrow> 6 | WTakeR \<Rightarrow> 7 | WTakeL \<Rightarrow> 8 | WCheck \<Rightarrow> 9 | WLock \<Rightarrow> 10)"

definition cam_left_steps :: "side \<Rightarrow> l1 \<Rightarrow> nat" where
  "cam_left_steps d s = (case c_pc (cam s d) of CEnd \<Rightarrow> 0 | CTest \<Rightarrow> 1 | CSleep \<Rightarrow> 2 | CPost \<Rightarrow> 3 | CUnlock \<Rightarrow> 4 | CTime \<Rightarrow> 5 | CId \<Rightarrow> 6
     | CLock \<Rightarrow> 7)"

definition main_left_steps :: "l1 \<Rightarrow> nat" where
  "main_left_steps s = (case main_pc s of MSleep \<Rightarrow> 11 | MFlag \<Rightarrow> 10 | MPostL \<Rightarrow> 9 | MPostR \<Rightarrow> 8 | MJoin i \<Rightarrow> 7 - min i 6 | MDone \<Rightarrow> 0)"

definition l1_left_steps :: "l1 \<Rightarrow> nat" where
  "l1_left_steps s = sync_left_steps s + writer_left_steps s + cam_left_steps Lft s + cam_left_steps Rgt s +
     main_left_steps s + robot_left (robot s) + logger_left (robot s)"

lemma left_steps_bound: "\<not> is_running s \<Longrightarrow> l1_counts_ok s \<Longrightarrow> l1_left_steps s \<le> 65"
proof -
  assume "\<not> is_running s" "l1_counts_ok s"
  then have "main_left_steps s \<le> 9"
    by (cases "main_pc s") (auto simp: main_left_steps_def l1_counts_ok_def)
  moreover have "sync_left_steps s \<le> 14" by (cases "y_pc s") (auto simp: sync_left_steps_def)
  moreover have "writer_left_steps s \<le> 10" by (cases "w_pc s") (auto simp: writer_left_steps_def)
  moreover have c: "cam_left_steps d s \<le> 7" for d by (cases "c_pc (cam s d)") (auto simp: cam_left_steps_def)
  moreover have "robot_left (robot s) \<le> 10" by (cases "r_pc (robot s)") (auto simp: robot_left_def)
  moreover have "logger_left (robot s) \<le> 8" by (cases "l_pc (robot s)") (auto simp: logger_left_def)
  ultimately show ?thesis using c [of Lft] c [of Rgt] unfolding l1_left_steps_def by linarith
qed

text \<open>Once \<open>is_running\<close> is false every step uses up one of these steps.\<close>

lemma l1_left_camera:
  assumes "l1_camera d now s = Some t" "\<not> is_running s"
  shows "l1_left_steps t < l1_left_steps s"
proof -
  have "cam_left_steps d t < cam_left_steps d s"
    using assms by (cases "c_pc (cam s d)") (simp add: l1_camera_def cam_to_def Let_def split: if_splits;
      hypsubst_thin; simp add: cam_left_steps_def)+
  moreover have "cam_left_steps e t = cam_left_steps e s" if "e \<noteq> d" for e
    using l1_camera_other(1) [OF assms(1), of e] that by (simp add: cam_left_steps_def)
  ultimately show ?thesis
    using l1_camera_other(2) [OF assms(1), of d]
    by (cases d) (simp_all add: l1_left_steps_def sync_left_steps_def writer_left_steps_def main_left_steps_def)
qed

lemma l1_left_sync:
  assumes "l1_sync s = Some t" "\<not> is_running s"
  shows "l1_left_steps t < l1_left_steps s"
  using assms by (cases "y_pc s") (simp add: l1_sync_def split: if_splits; hypsubst_thin;
      simp add: l1_left_steps_def sync_left_steps_def writer_left_steps_def main_left_steps_def cam_left_steps_def)+

lemma l1_left_writer:
  assumes "l1_writer b s = Some t" "\<not> is_running s"
  shows "l1_left_steps t < l1_left_steps s"
  using assms by (cases "w_pc s") (simp add: l1_writer_def split: if_splits; hypsubst_thin;
      simp add: l1_left_steps_def sync_left_steps_def writer_left_steps_def main_left_steps_def cam_left_steps_def)+

lemma l1_left_main:
  assumes "l1_main s = Some t"
  shows "l1_left_steps t < l1_left_steps s"
  using assms by (cases "main_pc s") (simp add: l1_main_def split: if_splits; hypsubst_thin;
      simp add: l1_left_steps_def sync_left_steps_def writer_left_steps_def main_left_steps_def cam_left_steps_def)+

lemma l1_left_step:
  assumes step: "l1_step a s = Some t" and "\<not> is_running s"
  shows "l1_left_steps t < l1_left_steps s \<and> \<not> is_running t"
proof
  show "l1_left_steps t < l1_left_steps s"
  proof (cases a)
    case (Robot now)
    then obtain r where r: "robot_next False False now (robot s) = Some r" "t = s\<lparr>robot := r\<rparr>"
      using assms by (auto simp: l1_step_def)
    then show ?thesis using robot_next_left [OF r(1)]
      by (simp add: l1_left_steps_def sync_left_steps_def writer_left_steps_def main_left_steps_def cam_left_steps_def)
  next
    case (Log b)
    then obtain r where r: "logger_next b False (robot s) = Some r" "t = s\<lparr>robot := r\<rparr>"
      using assms by (auto simp: l1_step_def)
    then show ?thesis using logger_next_left [OF r(1)]
      by (simp add: l1_left_steps_def sync_left_steps_def writer_left_steps_def main_left_steps_def cam_left_steps_def)
  qed (use assms l1_left_camera l1_left_sync l1_left_writer l1_left_main in \<open>auto simp: l1_step_def\<close>)
  show "\<not> is_running t"
  proof (cases a)
    case (Camera d now)
    with assms l1_camera_other(2) [of d now s t] show ?thesis by (simp add: l1_step_def)
  next
    case Sync
    with assms show ?thesis by (cases "y_pc s") (simp add: l1_step_def l1_sync_def split: if_splits; force)+
  next
    case (Write b)
    with assms show ?thesis by (cases "w_pc s") (simp add: l1_step_def l1_writer_def split: if_splits; force)+
  next
    case MainStep
    with assms show ?thesis by (cases "main_pc s") (simp add: l1_step_def l1_main_def split: if_splits; force)+
  qed (use assms in \<open>auto simp: l1_step_def\<close>)
qed

text \<open>
  After \<open>main\<close> has posted, a synchronizer that waits finds the semaphore above zero.
\<close>

definition posted_ok :: "l1 \<Rightarrow> bool" where
  "posted_ok s \<longleftrightarrow> r_pc (robot s) \<noteq> RCount \<and> (y_pc s = YWaitL \<and> main_pc s \<notin> {MSleep, MFlag, MPostL} \<longrightarrow> 0 < cam_sem s Lft) \<and>
     (y_pc s \<in> {YWaitL, YWaitR} \<and> main_pc s \<notin> {MSleep, MFlag, MPostL, MPostR} \<longrightarrow> 0 < cam_sem s Rgt)"

lemma posted_step:
  assumes step: "l1_step a s = Some t" and p: "posted_ok s" and c: "l1_counts_ok s"
  shows "posted_ok t"
proof (cases a)
  case (Camera d now)
  then have l: "l1_camera d now s = Some t" using step by (simp add: l1_step_def)
  then have "cam_sem s e \<le> cam_sem t e" for e
    by (cases "c_pc (cam s d)") (simp add: l1_camera_def cam_to_def Let_def split: if_splits; force)+
  with p l1_camera_other(2) [OF l] show ?thesis unfolding posted_ok_def by (metis less_le_trans)
next
  case Sync
  with step p c show ?thesis
    by (cases "y_pc s") (simp add: l1_step_def l1_sync_def split: if_splits; hypsubst_thin; auto simp: posted_ok_def l1_counts_ok_def)+
next
  case (Write b)
  with step p show ?thesis
    by (cases "w_pc s") (simp add: l1_step_def l1_writer_def split: if_splits; hypsubst_thin; simp add: posted_ok_def)+
next
  case MainStep
  with step p show ?thesis
    by (cases "main_pc s") (simp add: l1_step_def l1_main_def split: if_splits; hypsubst_thin; auto simp: posted_ok_def)+
next
  case (Robot now)
  then obtain r where r: "robot_next False (is_running s) now (robot s) = Some r" "t = s\<lparr>robot := r\<rparr>"
    using step by (auto simp: l1_step_def)
  have "r_pc r \<noteq> RCount" using r(1) by (cases "r_pc (robot s)") (auto simp: robot_next_def split: if_splits)
  with p r(2) show ?thesis by (simp add: posted_ok_def)
next
  case (Log b)
  then obtain r where r: "logger_next b (is_running s) (robot s) = Some r" "t = s\<lparr>robot := r\<rparr>"
    using step by (auto simp: l1_step_def)
  have "r_pc r = r_pc (robot s)" using r(1) by (cases "l_pc (robot s)") (auto simp: logger_next_def split: if_splits)
  with p r(2) show ?thesis by (simp add: posted_ok_def)
qed

lemma l1_stuck:
  assumes ok: "l1_ok s" "posted_ok s" and nr: "\<not> is_running s" and stuck: "\<And>a. l1_step a s = None"
  shows "main_pc s = MDone"
proof -
  have l: "locks_ok s" using ok(1) by (simp add: l1_ok_def)
  have w: "w_pc s \<in> {WLock, WEnd}"
    using stuck [of "Write False"] by (cases "w_pc s") (simp_all add: l1_step_def l1_writer_def split: if_splits)
  have y: "y_pc s \<in> {YWaitL, YWaitR, YLock, YLock2, YEnd}"
    using stuck [of Sync] by (cases "y_pc s") (simp_all add: l1_step_def l1_sync_def split: if_splits)
  have c: "c_pc (cam s d) \<in> {CLock, CEnd}" for d
    using stuck [of "Camera d (timestamp no_frame)"]
    by (cases "c_pc (cam s d)") (simp_all add: l1_step_def l1_camera_def Let_def split: if_splits)
  have cm: "camera_mutex s = None" 
  proof (cases "camera_mutex s")
    case (Some h)
    have "c_pc (cam s d) \<notin> camera_cs" for d using c [of d] by auto
    moreover have "y_pc s \<notin> sync_cs" using y by auto
    ultimately show ?thesis using l Some by (cases h) (simp_all add: locks_ok_def)
  qed simp
  have sm: "sync_mutex s = None"
  proof (cases "sync_mutex s")
    case (Some h)
    have "w_pc s \<notin> writer_cs" "y_pc s \<notin> sync_cs2" using w y by auto
    then show ?thesis using l Some by (cases h) (simp_all add: locks_ok_def)
  qed simp
  have w': "w_pc s = WEnd" using w sm stuck [of "Write False"] by (auto simp: l1_step_def l1_writer_def)
  have c': "c_pc (cam s d) = CEnd" for d
    using c [of d] cm stuck [of "Camera d (timestamp no_frame)"] by (auto simp: l1_step_def l1_camera_def)
  have r: "r_pc (robot s) \<in> {RCount, REnd} \<and> l_pc (robot s) = LEnd"
  proof (rule rob_progress [of "robot s" False False])
    show "rob_ok (robot s)" using l by (simp add: locks_ok_def)
    show "robot_next False False ts (robot s) = None" for ts
      using stuck [of "Robot ts"] nr by (simp add: l1_step_def)
    show "logger_next b False (robot s) = None" for b
      using stuck [of "Log b"] nr by (simp add: l1_step_def)
  qed
  have main: "(\<exists>i < 6. main_pc s = MJoin i \<and> \<not> l1_ended i s) \<or> main_pc s = MDone"
    using stuck [of MainStep] nr ok(1)
    by (cases "main_pc s") (auto simp: l1_step_def l1_main_def l1_ok_def l1_counts_ok_def split: if_splits)
  then have "y_pc s \<notin> {YWaitL, YWaitR}"
    using ok(2) stuck [of Sync] by (auto simp: posted_ok_def l1_step_def l1_sync_def)
  then have y': "y_pc s = YEnd" using y cm sm stuck [of Sync] by (auto simp: l1_step_def l1_sync_def)
  have "l1_ended i s" for i
    using c' w' y' r ok(2) by (simp add: l1_ended_def posted_ok_def)
  with main show ?thesis by blast
qed

lemma l1_posted_run: "l1_run as s = Some t \<Longrightarrow> l1_ok s \<Longrightarrow> posted_ok s \<Longrightarrow> posted_ok t"
proof (induction as arbitrary: s)
  case (Cons a as)
  then obtain u where u: "l1_step a s = Some u" "l1_run as u = Some t" by (auto split: option.splits)
  have "posted_ok u" by (rule posted_step [OF u(1)]) (use Cons.prems in \<open>simp_all add: l1_ok_def\<close>)
  with Cons.IH u l1_ok_step [OF u(1)] Cons.prems(2) show ?case by blast
qed simp

interpretation l1_stopping: ending_machine l1_step "\<lambda>s. l1_ok s \<and> posted_ok s \<and> \<not> is_running s"
    l1_left_steps "\<lambda>s. main_pc s = MDone"
proof unfold_locales
  fix s t a assume ok: "l1_ok s \<and> posted_ok s \<and> \<not> is_running s" and step: "l1_step a s = Some t"
  then have "posted_ok t" by (intro posted_step [OF step]) (simp_all add: l1_ok_def)
  with ok l1_ok_step [OF step] l1_left_step [OF step] show "l1_ok t \<and> posted_ok t \<and> \<not> is_running t"
    "l1_left_steps t < l1_left_steps s" by simp_all
qed (use l1_stuck in blast)

text \<open>
  C10. Level 1 always stops: from any state the threads can reach after \<open>main\<close> has cleared
  \<open>is_running\<close>, every run has at most 65 more steps, and a run that cannot go on has
  finished \<open>main\<close>, which has joined all six threads.
\<close>

theorem l1_stops:
  assumes "l1_run as l1_start = Some s" "\<not> is_running s" "l1_run bs s = Some t"
  shows "length bs \<le> 65 \<and> ((\<forall>a. l1_step a t = None) \<longrightarrow> main_pc t = MDone)"
proof -
  have p: "posted_ok l1_start" by (simp add: posted_ok_def l1_start_def rob_start_def Let_def)
  have ok: "l1_ok s \<and> posted_ok s \<and> \<not> is_running s"
    using l1_ok_run [OF assms(1) l1_ok_start] l1_posted_run [OF assms(1) l1_ok_start p] assms(2) by simp
  then have "l1_left_steps s \<le> 65" using left_steps_bound by (simp add: l1_ok_def)
  with l1_stopping.run_length [OF assms(3) ok] l1_stopping.stuck_over [OF l1_stopping.run_ok [OF assms(3) ok]]
  show ?thesis by auto
qed

section \<open>Concrete runs\<close>

definition at_ms :: "int \<Rightarrow> timespec" where "at_ms k = \<lparr>tv_sec = 1, tv_nsec = k * 1000000\<rparr>"

text \<open>One round of a camera, of the synchronizer and of the image writer.\<close>

definition shoot :: "side \<Rightarrow> int \<Rightarrow> l1_act list" where
  "shoot d k = replicate 7 (Camera d (at_ms k))"

definition pair_up :: "l1_act list" where "pair_up = replicate 14 Sync"
definition write_pair :: "l1_act list" where "write_pair = replicate 10 (Write False)"

lemma l1_view:
  assumes "map_option f (l1_run as l1_start) = Some v"
  obtains s where "l1_run as l1_start = Some s" "f s = v"
  using assms by (cases "l1_run as l1_start") auto

theorem l1_saves_pairs_witness:
  "\<exists>s. l1_run (shoot Lft 5 @ shoot Rgt 9 @ pair_up @ write_pair) l1_start = Some s \<and>
     map (\<lambda>(l, r). (frame_id l, frame_id r)) (saved s) = [(1, 1)] \<and>
     map fst (files s) = [''output/left_0001.jpg'', ''output/right_0001.jpg''] \<and>
     set (files s) \<subseteq> l1_pair_files (saved s)"
proof -
  let ?as = "shoot Lft 5 @ shoot Rgt 9 @ pair_up @ write_pair"
  have "map_option (\<lambda>s. (map (\<lambda>(l, r). (frame_id l, frame_id r)) (saved s), map fst (files s))) (l1_run ?as l1_start)
      = Some ([(1, 1)], [''output/left_0001.jpg'', ''output/right_0001.jpg''])"
    by code_simp
  then obtain s where s: "l1_run ?as l1_start = Some s"
    "(map (\<lambda>(l, r). (frame_id l, frame_id r)) (saved s), map fst (files s)) =
       ([(1, 1)], [''output/left_0001.jpg'', ''output/right_0001.jpg''])"
    by (rule l1_view)
  with l1_saves_pairs [OF s(1)] show ?thesis by simp
qed

text \<open>The threads run to their ends while the synchronizer waits.\<close>

definition stop_all :: "l1_act list" where
  "stop_all = replicate 2 MainStep @ replicate 3 Sync @ [Write False, Camera Lft (at_ms 0), Camera Rgt (at_ms 0), Robot (at_ms 0)] @
     replicate 3 (Log False) @ replicate 7 MainStep"

theorem l1_stops_witness:
  "\<exists>s t. l1_run [Sync, MainStep, MainStep] l1_start = Some s \<and> \<not> is_running s \<and> y_pc s = YWaitL \<and>
     l1_run stop_all s = Some t \<and> length stop_all \<le> 65 \<and> main_pc t = MDone"
proof -
  have "map_option (\<lambda>s. (is_running s, y_pc s, map_option main_pc (l1_run stop_all s)))
      (l1_run [Sync, MainStep, MainStep] l1_start) = Some (False, YWaitL, Some MDone)"
    by code_simp
  then obtain s where s: "l1_run [Sync, MainStep, MainStep] l1_start = Some s"
    "(is_running s, y_pc s, map_option main_pc (l1_run stop_all s)) = (False, YWaitL, Some MDone)"
    by (rule l1_view)
  then obtain t where t: "l1_run stop_all s = Some t" "main_pc t = MDone" by auto
  have "length stop_all \<le> 65"
    using l1_stops [OF s(1) _ t(1)] s(2) by simp
  with s t show ?thesis by auto
qed

text \<open>
  The semaphores count frames but the frames are overwritten: when both cameras have
  shot twice before the synchronizer runs, it passes on their second frames twice, the same
  pair is saved twice, and the first frames are lost although nothing was late.
\<close>

theorem l1_duplicate_pair:
  "map_option (\<lambda>s. map (\<lambda>(l, r). (frame_id l, frame_id r)) (saved s))
     (l1_run (shoot Lft 5 @ shoot Rgt 5 @ shoot Lft 45 @ shoot Rgt 45 @ pair_up @ write_pair @ pair_up @ write_pair)
       l1_start) = Some [(2, 2), (2, 2)]"
  by code_simp

end
