(* ===== verification/Lab6Monitor.thy ===== *)
theory Lab6Monitor
  imports Lab6Robot
begin

text \<open>
  The frame buffer as a monitor, \<open>buffer_push\<close> and \<open>buffer_pop\<close> of \<open>lab6/src/common.c\<close>
  with their mutex and condition variable: one step for each library call and for what is
  between two calls.  A thread in \<open>pthread_cond_wait\<close> has given the mutex back and is in
  \<open>sleepers\<close> until it is signalled; then it takes the mutex again.  Nobody waits on
  \<open>not_full\<close>, so signalling it has no effect.  \<open>history\<close> records what entered and left.
\<close>

section \<open>State and operations\<close>

datatype pipe_thread = LeftCamT | RightCamT | SyncThreadT | ImageWriterT

record monitor =
  m_buf :: frame_buffer
  owner :: "pipe_thread option"
  sleepers :: "pipe_thread list"
  history :: "frame queue_op list"

datatype push_pc = PushLock | PushBody | PushSignal | PushUnlock

definition push_next :: "pipe_thread \<Rightarrow> frame \<Rightarrow> push_pc \<Rightarrow> monitor \<Rightarrow> (push_pc option \<times> monitor) option" where
  "push_next t f p m = (case p of
     PushLock \<Rightarrow> (if owner m = None then Some (Some PushBody, m\<lparr>owner := Some t\<rparr>) else None)
   | PushBody \<Rightarrow> Some (Some PushSignal, m\<lparr>m_buf := push_body f (m_buf m), history := history m @ [Pushed f]\<rparr>)
   | PushSignal \<Rightarrow> Some (Some PushUnlock, m\<lparr>sleepers := tl (sleepers m)\<rparr>)
   | PushUnlock \<Rightarrow> Some (None, m\<lparr>owner := None\<rparr>))"

datatype pop_pc = PopLock | PopTest | PopSleep | PopWait | PopCheck | PopUnlock "frame option"

definition pop_next :: "pipe_thread \<Rightarrow> bool \<Rightarrow> pop_pc \<Rightarrow> monitor \<Rightarrow> ((pop_pc + frame option) \<times> monitor) option" where
  "pop_next t is_running p m = (case p of
     PopLock \<Rightarrow> (if owner m = None then Some (Inl PopTest, m\<lparr>owner := Some t\<rparr>) else None)
   | PopTest \<Rightarrow> Some (Inl (if fb_count (m_buf m) = 0 \<and> is_running then PopSleep else PopCheck), m)
   | PopSleep \<Rightarrow> Some (Inl PopWait, m\<lparr>owner := None, sleepers := sleepers m @ [t]\<rparr>)
   | PopWait \<Rightarrow> (if t \<notin> set (sleepers m) \<and> owner m = None then Some (Inl PopTest, m\<lparr>owner := Some t\<rparr>) else None)
   | PopCheck \<Rightarrow>
       if \<not> is_running \<and> fb_count (m_buf m) = 0 then Some (Inl (PopUnlock None), m)
       else (let (f, b) = pop_body (m_buf m)
             in Some (Inl (PopUnlock (Some f)), m\<lparr>m_buf := b, history := history m @ [Popped f]\<rparr>))
   | PopUnlock r \<Rightarrow> Some (Inr r, m\<lparr>owner := None\<rparr>))"

definition broadcast :: "monitor \<Rightarrow> monitor" where
  "broadcast m = m\<lparr>sleepers := []\<rparr>"

text \<open>\<open>pthread_cond_wait\<close> may also return without a signal.\<close>

definition spurious :: "pipe_thread \<Rightarrow> monitor \<Rightarrow> monitor" where
  "spurious t m = m\<lparr>sleepers := filter (\<lambda>u. u \<noteq> t) (sleepers m)\<rparr>"

definition monitor_start :: monitor where
  "monitor_start = \<lparr>m_buf = buffer_init \<lparr>fb_buffer = replicate FB_SIZE \<lparr>frame_id = 0, timestamp = \<lparr>tv_sec = 0, tv_nsec = 0\<rparr>\<rparr>,
     fb_head = 0, fb_tail = 0, fb_count = 0\<rparr>, owner = None, sleepers = [], history = []\<rparr>"

section \<open>Who is inside\<close>

definition push_inside :: "push_pc \<Rightarrow> bool" where "push_inside p \<longleftrightarrow> p \<noteq> PushLock"
definition push_done :: "push_pc \<Rightarrow> bool" where "push_done p \<longleftrightarrow> p = PushSignal \<or> p = PushUnlock"
definition pop_inside :: "pop_pc \<Rightarrow> bool" where "pop_inside p \<longleftrightarrow> p \<noteq> PopLock \<and> p \<noteq> PopWait"

lemma inside_simps [simp]:
  "\<not> push_inside PushLock" "push_inside PushBody" "push_inside PushSignal" "push_inside PushUnlock"
  "\<not> push_done PushLock" "\<not> push_done PushBody" "push_done PushSignal" "push_done PushUnlock"
  "\<not> pop_inside PopLock" "pop_inside PopTest" "pop_inside PopSleep" "\<not> pop_inside PopWait" "pop_inside PopCheck"
  "pop_inside (PopUnlock r)"
  by (simp_all add: push_inside_def push_done_def pop_inside_def)

definition push_in :: "push_pc option \<Rightarrow> bool" where "push_in p \<longleftrightarrow> (\<exists>x. p = Some x \<and> push_inside x)"
definition pop_in :: "pop_pc + 'a \<Rightarrow> bool" where "pop_in p \<longleftrightarrow> (\<exists>x. p = Inl x \<and> pop_inside x)"

lemma in_simps [simp]: "\<not> push_in None" "push_in (Some x) = push_inside x" "\<not> pop_in (Inr y)" "pop_in (Inl p) = pop_inside p"
  by (simp_all add: push_in_def pop_in_def)

lemma push_next_owner:
  assumes "push_next t f p m = Some (p', m')" "push_inside p \<longleftrightarrow> owner m = Some t"
  shows "push_in p' \<longleftrightarrow> owner m' = Some t" and "u \<noteq> t \<Longrightarrow> owner m' = Some u \<longleftrightarrow> owner m = Some u"
  using assms by (cases p; auto simp: push_next_def split: if_splits)+

lemma pop_next_owner:
  assumes "pop_next t run p m = Some (p', m')" "pop_inside p \<longleftrightarrow> owner m = Some t"
  shows "pop_in p' \<longleftrightarrow> owner m' = Some t" and "u \<noteq> t \<Longrightarrow> owner m' = Some u \<longleftrightarrow> owner m = Some u"
  using assms by (cases p; auto simp: pop_next_def split: if_splits prod.splits)+

section \<open>What enters and leaves\<close>

definition tracked :: "monitor \<Rightarrow> bool" where
  "tracked m \<longleftrightarrow> fb.tracks (m_buf m) (history m)"

definition pushed :: "monitor \<Rightarrow> frame list" where "pushed m = pushes (history m)"
definition popped :: "monitor \<Rightarrow> frame list" where "popped m = pops (history m)"

lemma tracked_start: "tracked monitor_start" and pushed_start [simp]: "pushed monitor_start = []"
  and popped_start [simp]: "popped monitor_start = []"
proof -
  show "tracked monitor_start"
    unfolding tracked_def monitor_start_def by (simp, rule fb.tracks_start, rule fb_view_init) simp
qed (simp_all add: pushed_def popped_def monitor_start_def)

lemma flow_simps [simp]:
  "pushed (m\<lparr>owner := a\<rparr>) = pushed m" "pushed (m\<lparr>sleepers := b\<rparr>) = pushed m" "pushed (broadcast m) = pushed m"
  "pushed (spurious t m) = pushed m"
  "popped (m\<lparr>owner := a\<rparr>) = popped m" "popped (m\<lparr>sleepers := b\<rparr>) = popped m" "popped (broadcast m) = popped m"
  "popped (spurious t m) = popped m"
  "tracked (m\<lparr>owner := a\<rparr>) = tracked m" "tracked (m\<lparr>sleepers := b\<rparr>) = tracked m" "tracked (broadcast m) = tracked m"
  "tracked (spurious t m) = tracked m"
  "owner (broadcast m) = owner m" "owner (spurious t m) = owner m"
  "m_buf (broadcast m) = m_buf m" "m_buf (spurious t m) = m_buf m"
  by (simp_all add: pushed_def popped_def tracked_def broadcast_def spurious_def)

lemma push_next_flow:
  assumes "push_next t f p m = Some (p', m')"
  shows "pushed m' = pushed m @ (if p = PushBody then [f] else [])" and "popped m' = popped m"
    and "tracked m \<Longrightarrow> tracked m'"
  using assms fb.tracks_push [of "m_buf m" "history m" f]
  by (cases p; simp add: push_next_def pushed_def popped_def tracked_def split: if_splits; force)+

lemma tracked_nonempty: "tracked m \<Longrightarrow> fb_count (m_buf m) \<noteq> 0 \<Longrightarrow> \<not> fb_view (m_buf m) []"
  by (auto simp: fb_view_def)

text \<open>
  A pop takes a frame only from a buffer that is not empty: the test before has seen a
  frame, or \<open>is_running\<close> false, and neither changes while the thread is inside.
\<close>

definition pop_sure :: "bool \<Rightarrow> pop_pc \<Rightarrow> monitor \<Rightarrow> bool" where
  "pop_sure is_running p m \<longleftrightarrow> (p = PopCheck \<longrightarrow> is_running \<longrightarrow> fb_count (m_buf m) \<noteq> 0)"

lemma pop_next_flow:
  assumes "pop_next t run p m = Some (p', m')"
  shows "pushed m' = pushed m"
    and "popped m' = popped m @ (case p' of Inl (PopUnlock (Some f)) \<Rightarrow> [f] | _ \<Rightarrow> [])"
    and "tracked m \<Longrightarrow> pop_sure run p m \<Longrightarrow> tracked m'"
    and "\<And>q. p' = Inl q \<Longrightarrow> pop_sure run q m'"
    and "p' = Inr r \<Longrightarrow> p = PopUnlock r"
  using assms fb.tracks_pop [of "m_buf m" "history m"] tracked_nonempty [of m]
  by (cases p; auto simp: pop_next_def pushed_def popped_def tracked_def pop_sure_def split: if_splits prod.splits)+

text \<open>A push of another thread, and the end of the program, leave a pop as sure as it was.\<close>

lemma pop_sure_push:
  assumes "push_next t f p m = Some (p', m')" "push_inside p \<Longrightarrow> owner m = Some t" "pop_inside q \<Longrightarrow> owner m = Some u"
    and "u \<noteq> t" "pop_sure run q m"
  shows "pop_sure run q m'"
  using assms by (cases p; cases "q = PopCheck"; auto simp: push_next_def pop_sure_def split: if_splits)

lemma pop_sure_start [simp]: "pop_sure run PopLock m" by (simp add: pop_sure_def)

lemma pop_sure_stop: "pop_sure run p m \<Longrightarrow> (run' \<longrightarrow> run) \<Longrightarrow> m_buf m' = m_buf m \<Longrightarrow> pop_sure run' p m'"
  by (auto simp: pop_sure_def)

lemma popped_subseq: "tracked m \<Longrightarrow> subseq (popped m) (pushed m)"
  by (simp add: tracked_def popped_def pushed_def fb.tracks_subseq)

text \<open>
  Nothing has been overwritten: every frame that has entered has left or is still counted.
  Then frames leave in the order they entered, without a gap.
\<close>

definition lossless :: "monitor \<Rightarrow> bool" where
  "lossless m \<longleftrightarrow> int (length (pushed m)) = int (length (popped m)) + fb_count (m_buf m)"

lemma popped_prefix:
  assumes "tracked m" "lossless m"
  shows "prefix (popped m) (pushed m)"
proof -
  obtain q d where r: "drop_run FB_SIZE (history m) ([], 0) = Some (q, d)" and v: "fb_view (m_buf m) q"
    using assms(1) by (auto simp: tracked_def fb.tracks_def)
  have "length (popped m) + length q + d = length (pushed m)"
    using drop_run_subseq [OF r] by (simp add: popped_def pushed_def FB_SIZE_def)
  then have "d = 0" using assms(2) v by (simp add: lossless_def fb_view_def)
  with drop_run_no_drop [of FB_SIZE "history m" "[]" 0 q] r have "pops (history m) @ q = pushes (history m)"
    by (simp add: FB_SIZE_def)
  then show ?thesis unfolding prefix_def popped_def pushed_def by metis
qed

text \<open>When one frame more than fits has entered, the oldest is gone.\<close>

lemma overflow_slips:
  assumes "length (fb_buffer b) = FB_SIZE" "length xs = FB_SIZE" "length (fb_buffer c) = FB_SIZE" "length ys = FB_SIZE"
  shows "fst (pop_body (fold push_body (xs @ [x]) (buffer_init b))) = (xs @ [x]) ! 1 \<and>
    fst (pop_body (fold push_body ys (buffer_init c))) = ys ! 0"
proof -
  have "fb_view (fold push_body (xs @ [x]) (buffer_init b)) (drop (length ([] @ xs @ [x]) - FB_SIZE) ([] @ xs @ [x]))"
    "fb_view (fold push_body ys (buffer_init c)) (drop (length ([] @ ys) - FB_SIZE) ([] @ ys))"
    using fb.fold_push [OF fb_view_init] assms by blast+
  moreover have "length ([] @ xs @ [x]) - FB_SIZE = 1" "length ([] @ ys) - FB_SIZE = 0" using assms by simp_all
  ultimately have v: "fb_view (fold push_body (xs @ [x]) (buffer_init b)) (drop 1 (xs @ [x]))"
    "fb_view (fold push_body ys (buffer_init c)) ys" by (simp_all only: append_Nil drop_0)
  have ne: "1 < length (xs @ [x])" "drop 1 (xs @ [x]) \<noteq> []" "ys \<noteq> []" using assms by (auto simp: FB_SIZE_def)
  have "fst (pop_body (fold push_body (xs @ [x]) (buffer_init b))) = hd (drop 1 (xs @ [x]))"
    "fst (pop_body (fold push_body ys (buffer_init c))) = hd ys"
    using fb_view_pop [OF v(1) ne(2)] fb_view_pop [OF v(2) ne(3)] by simp_all
  then show ?thesis using ne(1) hd_conv_nth [OF ne(3)] by (simp only: hd_drop_conv_nth)
qed

end
