(* ===== verification/Lab6Pipeline.thy ===== *)
theory Lab6Pipeline
  imports Lab6Monitor
begin

text \<open>
  The threads that \<open>lab6/src/program2.c\<close> and \<open>program3.c\<close> share: cameras, synchronizer,
  image writer, robot, logger and the SIGINT handler, over four frame buffers.  A camera at
  \<open>KCount\<close> and the robot at \<open>RCount\<close> are about to count; how they do it differs between the
  levels and is in Lab6Levels.  \<open>saved\<close> is a history.
\<close>

section \<open>State\<close>

datatype buf = CamBuf side | SyncBuf side

datatype camera_pc = KTest | KNew | KPush push_pc | KCount | KSleep | KEnd

record camera =
  k_pc :: camera_pc
  k_id :: int
  k_frame :: frame

datatype sync_pc = ZTest | ZPopL pop_pc | ZPopR pop_pc | ZDiff | ZPushL push_pc | ZPushR push_pc | ZEnd

datatype writer_pc = VTest | VPopL pop_pc | VPopR pop_pc | VSaveL | VSaveR | VSleep | VEnd

datatype handler_pc = HIdle | HFlag | HCast nat

record pipe =
  running :: bool
  mon :: "buf \<Rightarrow> monitor"
  camera :: "side \<Rightarrow> camera"
  z_pc :: sync_pc
  z_left :: frame
  z_right :: frame
  v_pc :: writer_pc
  v_left :: frame
  v_right :: frame
  out_files :: "(string \<times> string) list"
  rbt :: rob
  h_pc :: handler_pc
  saved :: "(frame \<times> frame) list"

definition blank :: frame where
  "blank = \<lparr>frame_id = 0, timestamp = \<lparr>tv_sec = 0, tv_nsec = 0\<rparr>\<rparr>"

definition pipe_start :: pipe where
  "pipe_start = \<lparr>running = True, mon = (\<lambda>_. monitor_start), camera = (\<lambda>_. \<lparr>k_pc = KTest, k_id = 1, k_frame = blank\<rparr>),
     z_pc = ZTest, z_left = blank, z_right = blank, v_pc = VTest, v_left = blank, v_right = blank, out_files = [],
     rbt = rob_start, h_pc = HIdle, saved = []\<rparr>"

section \<open>The threads\<close>

primrec cam_thread :: "side \<Rightarrow> pipe_thread" where
  "cam_thread Lft = LeftCamT"
| "cam_thread Rgt = RightCamT"

definition set_camera :: "side \<Rightarrow> camera \<Rightarrow> pipe \<Rightarrow> pipe" where
  "set_camera d c s = s\<lparr>camera := (camera s)(d := c)\<rparr>"

definition set_mon :: "buf \<Rightarrow> monitor \<Rightarrow> pipe \<Rightarrow> pipe" where
  "set_mon b m s = s\<lparr>mon := (mon s)(b := m)\<rparr>"

text \<open>A camera; \<open>counts\<close>: it counts its frames after the push.\<close>

definition camera_next :: "bool \<Rightarrow> side \<Rightarrow> timespec \<Rightarrow> pipe \<Rightarrow> pipe option" where
  "camera_next counts d now s = (let c = camera s d in case k_pc c of
     KTest \<Rightarrow> Some (set_camera d (c\<lparr>k_pc := if running s then KNew else KEnd\<rparr>) s)
   | KNew \<Rightarrow> Some (set_camera d \<lparr>k_pc = KPush PushLock, k_id = k_id c + 1, k_frame = \<lparr>frame_id = k_id c, timestamp = now\<rparr>\<rparr> s)
   | KPush p \<Rightarrow> map_option (\<lambda>(p', m). set_camera d (c\<lparr>k_pc := (case p' of Some q \<Rightarrow> KPush q
          | None \<Rightarrow> if counts then KCount else KSleep)\<rparr>) (set_mon (CamBuf d) m s))
        (push_next (cam_thread d) (k_frame c) p (mon s (CamBuf d)))
   | KCount \<Rightarrow> None
   | KSleep \<Rightarrow> Some (set_camera d (c\<lparr>k_pc := KTest\<rparr>) s)
   | KEnd \<Rightarrow> None)"

definition sync_next :: "pipe \<Rightarrow> pipe option" where
  "sync_next s = (case z_pc s of
     ZTest \<Rightarrow> Some (s\<lparr>z_pc := if running s then ZPopL PopLock else ZEnd\<rparr>)
   | ZPopL p \<Rightarrow> map_option (\<lambda>(p', m). let t = set_mon (CamBuf Lft) m s in case p' of
          Inl q \<Rightarrow> t\<lparr>z_pc := ZPopL q\<rparr>
        | Inr (Some f) \<Rightarrow> t\<lparr>z_left := f, z_pc := ZPopR PopLock\<rparr>
        | Inr None \<Rightarrow> t\<lparr>z_pc := ZEnd\<rparr>) (pop_next SyncThreadT (running s) p (mon s (CamBuf Lft)))
   | ZPopR p \<Rightarrow> map_option (\<lambda>(p', m). let t = set_mon (CamBuf Rgt) m s in case p' of
          Inl q \<Rightarrow> t\<lparr>z_pc := ZPopR q\<rparr>
        | Inr (Some f) \<Rightarrow> t\<lparr>z_right := f, z_pc := ZDiff\<rparr>
        | Inr None \<Rightarrow> t\<lparr>z_pc := ZEnd\<rparr>) (pop_next SyncThreadT (running s) p (mon s (CamBuf Rgt)))
   | ZDiff \<Rightarrow> Some (s\<lparr>z_pc := if in_tolerance (timestamp (z_left s)) (timestamp (z_right s)) then ZPushL PushLock else ZTest\<rparr>)
   | ZPushL p \<Rightarrow> map_option (\<lambda>(p', m). set_mon (SyncBuf Lft) m s\<lparr>z_pc := (case p' of Some q \<Rightarrow> ZPushL q | None \<Rightarrow> ZPushR PushLock)\<rparr>)
        (push_next SyncThreadT (z_left s) p (mon s (SyncBuf Lft)))
   | ZPushR p \<Rightarrow> map_option (\<lambda>(p', m). set_mon (SyncBuf Rgt) m s\<lparr>z_pc := (case p' of Some q \<Rightarrow> ZPushR q | None \<Rightarrow> ZTest)\<rparr>)
        (push_next SyncThreadT (z_right s) p (mon s (SyncBuf Rgt)))
   | ZEnd \<Rightarrow> None)"

definition left_file :: "frame \<Rightarrow> string \<times> string" where
  "left_file f = (left_name (frame_id f), ''Sync L: '' @ show_int (frame_id f) @ [CHR 0x0A])"

definition right_file :: "frame \<Rightarrow> string \<times> string" where
  "right_file f = (right_name (frame_id f), ''Sync R: '' @ show_int (frame_id f) @ [CHR 0x0A])"

definition writer_next :: "bool \<Rightarrow> pipe \<Rightarrow> pipe option" where
  "writer_next refused s = (case v_pc s of
     VTest \<Rightarrow> Some (s\<lparr>v_pc := if running s then VPopL PopLock else VEnd\<rparr>)
   | VPopL p \<Rightarrow> map_option (\<lambda>(p', m). let t = set_mon (SyncBuf Lft) m s in case p' of
          Inl q \<Rightarrow> t\<lparr>v_pc := VPopL q\<rparr>
        | Inr (Some f) \<Rightarrow> t\<lparr>v_left := f, v_pc := VPopR PopLock\<rparr>
        | Inr None \<Rightarrow> t\<lparr>v_pc := VEnd\<rparr>) (pop_next ImageWriterT (running s) p (mon s (SyncBuf Lft)))
   | VPopR p \<Rightarrow> map_option (\<lambda>(p', m). let t = set_mon (SyncBuf Rgt) m s in case p' of
          Inl q \<Rightarrow> t\<lparr>v_pc := VPopR q\<rparr>
        | Inr (Some f) \<Rightarrow> t\<lparr>v_right := f, v_pc := VSaveL, saved := saved s @ [(v_left s, f)]\<rparr>
        | Inr None \<Rightarrow> t\<lparr>v_pc := VEnd\<rparr>) (pop_next ImageWriterT (running s) p (mon s (SyncBuf Rgt)))
   | VSaveL \<Rightarrow> Some (s\<lparr>v_pc := VSaveR, out_files := out_files s @ (if refused then [] else [left_file (v_left s)])\<rparr>)
   | VSaveR \<Rightarrow> Some (s\<lparr>v_pc := VSleep, out_files := out_files s @ (if refused then [] else [right_file (v_right s)])\<rparr>)
   | VSleep \<Rightarrow> Some (s\<lparr>v_pc := VTest\<rparr>)
   | VEnd \<Rightarrow> None)"

text \<open>\<open>handle_sigint\<close> after its message: the flag, then the four broadcasts, without the mutexes.\<close>

definition cast_order :: "buf list" where
  "cast_order = [CamBuf Lft, CamBuf Rgt, SyncBuf Lft, SyncBuf Rgt]"

definition handler_next :: "pipe \<Rightarrow> pipe option" where
  "handler_next s = (case h_pc s of
     HIdle \<Rightarrow> None
   | HFlag \<Rightarrow> Some (s\<lparr>running := False, h_pc := HCast 0\<rparr>)
   | HCast i \<Rightarrow> (if i < 4 then (let b = cast_order ! i in Some (set_mon b (broadcast (mon s b)) s\<lparr>h_pc := HCast (i + 1)\<rparr>))
                else Some (s\<lparr>h_pc := HIdle\<rparr>)))"

datatype pipe_act = Camera side timespec | Sync | Write bool | Robot timespec | Log bool | Sigint | Handler
  | Spurious pipe_thread buf | CameraCounted side | RobotCounted

text \<open>\<open>counts\<close>: which cameras count; the robot counts in both levels.\<close>

definition pipe_step :: "(side \<Rightarrow> bool) \<Rightarrow> pipe_act \<Rightarrow> pipe \<Rightarrow> pipe option" where
  "pipe_step counts a s = (case a of
     Camera d now \<Rightarrow> camera_next (counts d) d now s
   | Sync \<Rightarrow> sync_next s
   | Write refused \<Rightarrow> writer_next refused s
   | Robot now \<Rightarrow> map_option (\<lambda>r. s\<lparr>rbt := r\<rparr>) (robot_next True (running s) now (rbt s))
   | Log refused \<Rightarrow> map_option (\<lambda>r. s\<lparr>rbt := r\<rparr>) (logger_next refused (running s) (rbt s))
   | Sigint \<Rightarrow> (if h_pc s = HIdle then Some (s\<lparr>h_pc := HFlag\<rparr>) else None)
   | Handler \<Rightarrow> handler_next s
   | Spurious t b \<Rightarrow> Some (set_mon b (spurious t (mon s b)) s)
   | CameraCounted d \<Rightarrow>
       if k_pc (camera s d) = KCount then Some (set_camera d ((camera s d)\<lparr>k_pc := KSleep\<rparr>) s) else None
   | RobotCounted \<Rightarrow> if r_pc (rbt s) = RCount then Some (s\<lparr>rbt := (rbt s)\<lparr>r_pc := RSleep\<rparr>\<rparr>) else None)"

abbreviation pipe_run :: "(side \<Rightarrow> bool) \<Rightarrow> pipe_act list \<Rightarrow> pipe \<Rightarrow> pipe option" where
  "pipe_run counts \<equiv> run_acts (pipe_step counts)"

lemma set_simps [simp]:
  "mon (set_mon b m s) = (mon s)(b := m)" "camera (set_mon b m s) = camera s" "running (set_mon b m s) = running s"
  "z_pc (set_mon b m s) = z_pc s" "z_left (set_mon b m s) = z_left s" "z_right (set_mon b m s) = z_right s"
  "v_pc (set_mon b m s) = v_pc s" "v_left (set_mon b m s) = v_left s" "v_right (set_mon b m s) = v_right s"
  "out_files (set_mon b m s) = out_files s" "rbt (set_mon b m s) = rbt s" "h_pc (set_mon b m s) = h_pc s"
  "saved (set_mon b m s) = saved s"
  "mon (set_camera d c s) = mon s" "camera (set_camera d c s) = (camera s)(d := c)" "running (set_camera d c s) = running s"
  "z_pc (set_camera d c s) = z_pc s" "z_left (set_camera d c s) = z_left s" "z_right (set_camera d c s) = z_right s"
  "v_pc (set_camera d c s) = v_pc s" "v_left (set_camera d c s) = v_left s" "v_right (set_camera d c s) = v_right s"
  "out_files (set_camera d c s) = out_files s" "rbt (set_camera d c s) = rbt s" "h_pc (set_camera d c s) = h_pc s"
  "saved (set_camera d c s) = saved s"
  by (simp_all add: set_mon_def set_camera_def)

section \<open>The steps as cases\<close>

lemma camera_cases:
  assumes "camera_next n d now s = Some t"
  obtains (Idle) q where "k_pc (camera s d) \<in> {KTest, KSleep}" "q \<in> {KTest, KNew, KEnd}" "q = KNew \<longrightarrow> running s"
      "t = set_camera d ((camera s d)\<lparr>k_pc := q\<rparr>) s"
    | (New) "k_pc (camera s d) = KNew"
      "t = set_camera d \<lparr>k_pc = KPush PushLock, k_id = k_id (camera s d) + 1,
         k_frame = \<lparr>frame_id = k_id (camera s d), timestamp = now\<rparr>\<rparr> s"
    | (Push) p q m where "k_pc (camera s d) = KPush p"
      "push_next (cam_thread d) (k_frame (camera s d)) p (mon s (CamBuf d)) = Some (Some q, m)"
      "t = set_camera d ((camera s d)\<lparr>k_pc := KPush q\<rparr>) (set_mon (CamBuf d) m s)"
    | (Pushed) p m where "k_pc (camera s d) = KPush p"
      "push_next (cam_thread d) (k_frame (camera s d)) p (mon s (CamBuf d)) = Some (None, m)"
      "t = set_camera d ((camera s d)\<lparr>k_pc := if n then KCount else KSleep\<rparr>) (set_mon (CamBuf d) m s)"
proof (cases "k_pc (camera s d)")
  case (KPush p)
  with assms obtain p' m where "push_next (cam_thread d) (k_frame (camera s d)) p (mon s (CamBuf d)) = Some (p', m)"
    "t = set_camera d ((camera s d)\<lparr>k_pc := (case p' of Some q \<Rightarrow> KPush q | None \<Rightarrow> if n then KCount else KSleep)\<rparr>)
       (set_mon (CamBuf d) m s)"
    by (auto simp: camera_next_def Let_def)
  with KPush that(3,4) show thesis by (cases p') auto
next
  case KTest
  then have "t = set_camera d ((camera s d)\<lparr>k_pc := if running s then KNew else KEnd\<rparr>) s"
    using assms by (simp add: camera_next_def Let_def)
  then show thesis by (intro that(1) [of "if running s then KNew else KEnd"]) (simp_all add: KTest)
next
  case KNew
  with assms show thesis by (intro that(2)) (simp_all add: camera_next_def Let_def)
next
  case KSleep
  with assms show thesis by (intro that(1) [of KTest]) (simp_all add: camera_next_def Let_def)
qed (use assms in \<open>simp_all add: camera_next_def Let_def\<close>)

lemma sync_cases:
  assumes "sync_next s = Some t"
  obtains (Idle) q where "z_pc s \<in> {ZTest, ZDiff}"
      "q \<in> {ZPopL PopLock, ZEnd, ZTest} \<or>
         z_pc s = ZDiff \<and> q = ZPushL PushLock \<and> in_tolerance (timestamp (z_left s)) (timestamp (z_right s))"
      "t = s\<lparr>z_pc := q\<rparr>"
    | (PopL) p q m where "z_pc s = ZPopL p" "pop_next SyncThreadT (running s) p (mon s (CamBuf Lft)) = Some (Inl q, m)"
      "t = set_mon (CamBuf Lft) m s\<lparr>z_pc := ZPopL q\<rparr>"
    | (GotL) p f m where "z_pc s = ZPopL p" "pop_next SyncThreadT (running s) p (mon s (CamBuf Lft)) = Some (Inr (Some f), m)"
      "t = set_mon (CamBuf Lft) m s\<lparr>z_left := f, z_pc := ZPopR PopLock\<rparr>"
    | (StopL) p m where "z_pc s = ZPopL p" "pop_next SyncThreadT (running s) p (mon s (CamBuf Lft)) = Some (Inr None, m)"
      "t = set_mon (CamBuf Lft) m s\<lparr>z_pc := ZEnd\<rparr>"
    | (PopR) p q m where "z_pc s = ZPopR p" "pop_next SyncThreadT (running s) p (mon s (CamBuf Rgt)) = Some (Inl q, m)"
      "t = set_mon (CamBuf Rgt) m s\<lparr>z_pc := ZPopR q\<rparr>"
    | (GotR) p f m where "z_pc s = ZPopR p" "pop_next SyncThreadT (running s) p (mon s (CamBuf Rgt)) = Some (Inr (Some f), m)"
      "t = set_mon (CamBuf Rgt) m s\<lparr>z_right := f, z_pc := ZDiff\<rparr>"
    | (StopR) p m where "z_pc s = ZPopR p" "pop_next SyncThreadT (running s) p (mon s (CamBuf Rgt)) = Some (Inr None, m)"
      "t = set_mon (CamBuf Rgt) m s\<lparr>z_pc := ZEnd\<rparr>"
    | (PushL) p p' m where "z_pc s = ZPushL p" "push_next SyncThreadT (z_left s) p (mon s (SyncBuf Lft)) = Some (p', m)"
      "t = set_mon (SyncBuf Lft) m s\<lparr>z_pc := (case p' of Some q \<Rightarrow> ZPushL q | None \<Rightarrow> ZPushR PushLock)\<rparr>"
    | (PushR) p p' m where "z_pc s = ZPushR p" "push_next SyncThreadT (z_right s) p (mon s (SyncBuf Rgt)) = Some (p', m)"
      "t = set_mon (SyncBuf Rgt) m s\<lparr>z_pc := (case p' of Some q \<Rightarrow> ZPushR q | None \<Rightarrow> ZTest)\<rparr>"
proof (cases "z_pc s")
  case (ZPopL p)
  with assms obtain p' m where pm: "pop_next SyncThreadT (running s) p (mon s (CamBuf Lft)) = Some (p', m)"
    by (auto simp: sync_next_def)
  consider q where "p' = Inl q" | f where "p' = Inr (Some f)" | "p' = Inr None"
    by (cases p'; cases "projr p'") auto
  then show thesis
    by cases (use assms ZPopL pm that(2,3,4) in \<open>auto simp: sync_next_def Let_def\<close>)
next
  case (ZPopR p)
  with assms obtain p' m where pm: "pop_next SyncThreadT (running s) p (mon s (CamBuf Rgt)) = Some (p', m)"
    by (auto simp: sync_next_def)
  consider q where "p' = Inl q" | f where "p' = Inr (Some f)" | "p' = Inr None"
    by (cases p'; cases "projr p'") auto
  then show thesis
    by cases (use assms ZPopR pm that(5,6,7) in \<open>auto simp: sync_next_def Let_def\<close>)
next
  case (ZPushL p)
  with assms that(8) show thesis by (auto simp: sync_next_def)
next
  case (ZPushR p)
  with assms that(9) show thesis by (auto simp: sync_next_def)
qed (use assms that(1) in \<open>auto simp: sync_next_def split: if_splits\<close>)

lemma writer_cases:
  assumes "writer_next b s = Some t"
  obtains (Idle) q where "v_pc s \<in> {VTest, VSleep}" "q \<in> {VPopL PopLock, VEnd, VTest}" "t = s\<lparr>v_pc := q\<rparr>"
    | (PopL) p q m where "v_pc s = VPopL p" "pop_next ImageWriterT (running s) p (mon s (SyncBuf Lft)) = Some (Inl q, m)"
      "t = set_mon (SyncBuf Lft) m s\<lparr>v_pc := VPopL q\<rparr>"
    | (GotL) p f m where "v_pc s = VPopL p" "pop_next ImageWriterT (running s) p (mon s (SyncBuf Lft)) = Some (Inr (Some f), m)"
      "t = set_mon (SyncBuf Lft) m s\<lparr>v_left := f, v_pc := VPopR PopLock\<rparr>"
    | (StopL) p m where "v_pc s = VPopL p" "pop_next ImageWriterT (running s) p (mon s (SyncBuf Lft)) = Some (Inr None, m)"
      "t = set_mon (SyncBuf Lft) m s\<lparr>v_pc := VEnd\<rparr>"
    | (PopR) p q m where "v_pc s = VPopR p" "pop_next ImageWriterT (running s) p (mon s (SyncBuf Rgt)) = Some (Inl q, m)"
      "t = set_mon (SyncBuf Rgt) m s\<lparr>v_pc := VPopR q\<rparr>"
    | (GotR) p f m where "v_pc s = VPopR p" "pop_next ImageWriterT (running s) p (mon s (SyncBuf Rgt)) = Some (Inr (Some f), m)"
      "t = set_mon (SyncBuf Rgt) m s\<lparr>v_right := f, v_pc := VSaveL, saved := saved s @ [(v_left s, f)]\<rparr>"
    | (StopR) p m where "v_pc s = VPopR p" "pop_next ImageWriterT (running s) p (mon s (SyncBuf Rgt)) = Some (Inr None, m)"
      "t = set_mon (SyncBuf Rgt) m s\<lparr>v_pc := VEnd\<rparr>"
    | (Save) q fs where "v_pc s \<in> {VSaveL, VSaveR}" "q \<in> {VSaveR, VSleep}" "v_pc s = VSaveL \<longleftrightarrow> q = VSaveR"
      "t = s\<lparr>v_pc := q, out_files := out_files s @ fs\<rparr>"
      "set fs \<subseteq> {if v_pc s = VSaveL then left_file (v_left s) else right_file (v_right s)}"
proof (cases "v_pc s")
  case (VPopL p)
  with assms obtain p' m where pm: "pop_next ImageWriterT (running s) p (mon s (SyncBuf Lft)) = Some (p', m)"
    by (auto simp: writer_next_def)
  consider q where "p' = Inl q" | f where "p' = Inr (Some f)" | "p' = Inr None"
    by (cases p'; cases "projr p'") auto
  then show thesis
    by cases (use assms VPopL pm that(2,3,4) in \<open>auto simp: writer_next_def Let_def\<close>)
next
  case (VPopR p)
  with assms obtain p' m where pm: "pop_next ImageWriterT (running s) p (mon s (SyncBuf Rgt)) = Some (p', m)"
    by (auto simp: writer_next_def)
  consider q where "p' = Inl q" | f where "p' = Inr (Some f)" | "p' = Inr None"
    by (cases p'; cases "projr p'") auto
  then show thesis
    by cases (use assms VPopR pm that(5,6,7) in \<open>auto simp: writer_next_def Let_def\<close>)
next
  case VSaveL
  with assms have "t = s\<lparr>v_pc := VSaveR, out_files := out_files s @ (if b then [] else [left_file (v_left s)])\<rparr>"
    by (simp add: writer_next_def)
  then show thesis by (rule that(8) [of VSaveR "if b then [] else [left_file (v_left s)]", rotated 3]) (simp_all add: VSaveL)
next
  case VSaveR
  with assms have "t = s\<lparr>v_pc := VSleep, out_files := out_files s @ (if b then [] else [right_file (v_right s)])\<rparr>"
    by (simp add: writer_next_def)
  then show thesis by (rule that(8) [of VSleep "if b then [] else [right_file (v_right s)]", rotated 3]) (simp_all add: VSaveR)
qed (use assms that(1) in \<open>auto simp: writer_next_def split: if_splits\<close>)

text \<open>What the other steps leave as it is.\<close>

lemma handler_cases:
  assumes "handler_next s = Some t"
  obtains (Flag) "t = s\<lparr>running := False, h_pc := HCast 0\<rparr>"
    | (Cast) b i where "t = set_mon b (broadcast (mon s b)) s\<lparr>h_pc := HCast i\<rparr>"
    | (Back) "t = s\<lparr>h_pc := HIdle\<rparr>"
proof (cases "h_pc s")
  case (HCast i)
  show thesis
  proof (cases "i < 4")
    case True
    with assms HCast have "t = set_mon (cast_order ! i) (broadcast (mon s (cast_order ! i))) s\<lparr>h_pc := HCast (i + 1)\<rparr>"
      by (simp add: handler_next_def Let_def)
    then show thesis by (rule that(2))
  next
    case False
    with assms HCast have "t = s\<lparr>h_pc := HIdle\<rparr>" by (simp add: handler_next_def)
    then show thesis by (rule that(3))
  qed
qed (use assms that(1) in \<open>simp_all add: handler_next_def\<close>)

lemma other_steps:
  assumes "pipe_step n a s = Some t" "a \<noteq> Sync" "\<And>d now. a \<noteq> Camera d now" "\<And>b. a \<noteq> Write b"
  obtains (Mon) b m where "mon t = (mon s)(b := m)" "m = broadcast (mon s b) \<or> (\<exists>u. m = spurious u (mon s b))"
      "camera t = camera s" "running t = running s" "rbt t = rbt s"
      "z_pc t = z_pc s \<and> z_left t = z_left s \<and> z_right t = z_right s \<and> v_pc t = v_pc s \<and> v_left t = v_left s \<and>
       v_right t = v_right s \<and> out_files t = out_files s \<and> saved t = saved s"
    | (Counted) d where "a = CameraCounted d" "k_pc (camera s d) = KCount" "t = set_camera d ((camera s d)\<lparr>k_pc := KSleep\<rparr>) s"
    | (Rest) "mon t = mon s" "camera t = camera s" "running t \<longrightarrow> running s"
      "z_pc t = z_pc s \<and> z_left t = z_left s \<and> z_right t = z_right s \<and> v_pc t = v_pc s \<and> v_left t = v_left s \<and>
       v_right t = v_right s \<and> out_files t = out_files s \<and> saved t = saved s"
proof (cases a)
  case Handler
  then have "handler_next s = Some t" using assms(1) by (simp add: pipe_step_def)
  then show thesis
  proof (cases rule: handler_cases)
    case (Cast b i)
    show thesis by (rule that(1) [of b "broadcast (mon s b)"]) (simp_all add: Cast)
  qed (rule that(3); simp)+
next
  case (Spurious u b)
  then have "t = set_mon b (spurious u (mon s b)) s" using assms(1) by (simp add: pipe_step_def)
  then show thesis by (intro that(1) [of b "spurious u (mon s b)"]) auto
next
  case (CameraCounted d)
  with assms(1) that(2) [of d] show thesis by (simp add: pipe_step_def split: if_splits)
next
  case (Robot now)
  with assms(1) obtain r where "t = s\<lparr>rbt := r\<rparr>" by (auto simp: pipe_step_def)
  then show thesis by (intro that(3)) simp_all
next
  case (Log b)
  with assms(1) obtain r where "t = s\<lparr>rbt := r\<rparr>" by (auto simp: pipe_step_def)
  then show thesis by (intro that(3)) simp_all
next
  case Sigint
  with assms(1) have "t = s\<lparr>h_pc := HFlag\<rparr>" by (simp add: pipe_step_def split: if_splits)
  then show thesis by (intro that(3)) simp_all
next
  case RobotCounted
  with assms(1) have "t = s\<lparr>rbt := (rbt s)\<lparr>r_pc := RSleep\<rparr>\<rparr>" by (simp add: pipe_step_def split: if_splits)
  then show thesis by (intro that(3)) simp_all
qed (use assms(2-4) in auto)

section \<open>Locks\<close>

definition cam_inside :: "side \<Rightarrow> pipe \<Rightarrow> buf \<Rightarrow> bool" where
  "cam_inside d s b \<longleftrightarrow> (\<exists>p. k_pc (camera s d) = KPush p \<and> push_inside p \<and> b = CamBuf d)"

definition sync_inside :: "sync_pc \<Rightarrow> buf \<Rightarrow> bool" where
  "sync_inside z b = (case z of ZPopL p \<Rightarrow> pop_inside p \<and> b = CamBuf Lft | ZPopR p \<Rightarrow> pop_inside p \<and> b = CamBuf Rgt
     | ZPushL p \<Rightarrow> push_inside p \<and> b = SyncBuf Lft | ZPushR p \<Rightarrow> push_inside p \<and> b = SyncBuf Rgt | _ \<Rightarrow> False)"

definition writer_inside :: "writer_pc \<Rightarrow> buf \<Rightarrow> bool" where
  "writer_inside v b = (case v of VPopL p \<Rightarrow> pop_inside p \<and> b = SyncBuf Lft | VPopR p \<Rightarrow> pop_inside p \<and> b = SyncBuf Rgt
     | _ \<Rightarrow> False)"

primrec inside :: "pipe_thread \<Rightarrow> pipe \<Rightarrow> buf \<Rightarrow> bool" where
  "inside LeftCamT s b = cam_inside Lft s b"
| "inside RightCamT s b = cam_inside Rgt s b"
| "inside SyncThreadT s b = sync_inside (z_pc s) b"
| "inside ImageWriterT s b = writer_inside (v_pc s) b"

definition locks :: "pipe \<Rightarrow> bool" where
  "locks s \<longleftrightarrow> (\<forall>b t. owner (mon s b) = Some t \<longleftrightarrow> inside t s b)"

text \<open>A step of thread \<open>t\<close> in buffer \<open>b\<close>.\<close>

lemma locks_frame:
  assumes "locks s" "mon s' = (mon s)(b := m)" "\<And>u c. u \<noteq> t \<Longrightarrow> inside u s' c = inside u s c"
    and "\<And>c. c \<noteq> b \<Longrightarrow> inside t s' c = inside t s c"
    and "inside t s' b \<longleftrightarrow> owner m = Some t" "\<And>u. u \<noteq> t \<Longrightarrow> owner m = Some u \<longleftrightarrow> owner (mon s b) = Some u"
  shows "locks s'"
  unfolding locks_def
proof (intro allI)
  fix c u
  show "owner (mon s' c) = Some u \<longleftrightarrow> inside u s' c"
    using assms by (cases "c = b"; cases "u = t") (simp_all add: locks_def)
qed

lemma locks_local:
  assumes "locks s" "mon s' = mon s" "\<And>u c. inside u s' c = inside u s c"
  shows "locks s'"
  using assms by (simp add: locks_def)

lemma sync_inside_simps [simp]:
  "sync_inside (ZPopL p) b \<longleftrightarrow> pop_inside p \<and> b = CamBuf Lft" "sync_inside (ZPopR p) b \<longleftrightarrow> pop_inside p \<and> b = CamBuf Rgt"
  "sync_inside (ZPushL q) b \<longleftrightarrow> push_inside q \<and> b = SyncBuf Lft" "sync_inside (ZPushR q) b \<longleftrightarrow> push_inside q \<and> b = SyncBuf Rgt"
  "\<not> sync_inside ZTest b" "\<not> sync_inside ZDiff b" "\<not> sync_inside ZEnd b"
  "writer_inside (VPopL p) b \<longleftrightarrow> pop_inside p \<and> b = SyncBuf Lft" "writer_inside (VPopR p) b \<longleftrightarrow> pop_inside p \<and> b = SyncBuf Rgt"
  "\<not> writer_inside VTest b" "\<not> writer_inside VSaveL b" "\<not> writer_inside VSaveR b" "\<not> writer_inside VSleep b"
  "\<not> writer_inside VEnd b"
  by (simp_all add: sync_inside_def writer_inside_def)

lemma inside_other [simp]:
  "u \<noteq> SyncThreadT \<Longrightarrow> inside u (s\<lparr>z_pc := z\<rparr>) c = inside u s c" "u \<noteq> ImageWriterT \<Longrightarrow> inside u (s\<lparr>v_pc := v\<rparr>) c = inside u s c"
  "inside u (s\<lparr>z_left := f\<rparr>) c = inside u s c" "inside u (s\<lparr>z_right := f\<rparr>) c = inside u s c"
  "inside u (s\<lparr>v_left := f\<rparr>) c = inside u s c" "inside u (s\<lparr>v_right := f\<rparr>) c = inside u s c"
  "inside u (s\<lparr>saved := g\<rparr>) c = inside u s c" "inside u (s\<lparr>out_files := h\<rparr>) c = inside u s c"
  "inside u (set_mon b m s) c = inside u s c"
  by (cases u; simp add: cam_inside_def)+

lemma inside_camera [simp]: "u \<noteq> cam_thread d \<Longrightarrow> inside u (set_camera d k s) c = inside u s c"
  by (cases d; cases u) (simp_all add: cam_inside_def)

lemma inside_cam_thread: "inside (cam_thread d) s b = cam_inside d s b"
  by (cases d) simp_all

lemma cam_thread_neq [simp]:
  "cam_thread d \<noteq> SyncThreadT" "SyncThreadT \<noteq> cam_thread d" "cam_thread d \<noteq> ImageWriterT" "ImageWriterT \<noteq> cam_thread d"
  by (cases d; simp)+

lemma locksD: "locks s \<Longrightarrow> owner (mon s b) = Some t \<longleftrightarrow> inside t s b"
  by (simp add: locks_def)

lemma locks_camera:
  assumes step: "camera_next n d now s = Some t" and l: "locks s"
  shows "locks t"
  using step
proof (cases rule: camera_cases)
  case (Idle q)
  have "inside u t c = inside u s c" for u c
    using Idle by (cases "u = cam_thread d") (auto simp: inside_cam_thread cam_inside_def)
  with l Idle(4) show ?thesis by (intro locks_local [OF l]) simp_all
next
  case New
  have "inside u t c = inside u s c" for u c
    using New by (cases "u = cam_thread d") (auto simp: inside_cam_thread cam_inside_def)
  with l New(2) show ?thesis by (intro locks_local [OF l]) simp_all
next
  case (Push p q m)
  have o: "push_inside p \<longleftrightarrow> owner (mon s (CamBuf d)) = Some (cam_thread d)"
    using locksD [OF l] Push(1) by (simp add: inside_cam_thread cam_inside_def)
  show ?thesis
    by (rule locks_frame [OF l, of t "CamBuf d" m "cam_thread d"])
      (use Push(1,3) push_next_owner [OF Push(2) o] in \<open>auto simp: inside_cam_thread cam_inside_def\<close>)
next
  case (Pushed p m)
  have o: "push_inside p \<longleftrightarrow> owner (mon s (CamBuf d)) = Some (cam_thread d)"
    using locksD [OF l] Pushed(1) by (simp add: inside_cam_thread cam_inside_def)
  show ?thesis
    by (rule locks_frame [OF l, of t "CamBuf d" m "cam_thread d"])
      (use Pushed(1,3) push_next_owner [OF Pushed(2) o] in \<open>auto simp: inside_cam_thread cam_inside_def\<close>)
qed

lemma locks_sync_pop:
  assumes l: "locks s" and z: "z_pc s = ZPopL p \<and> b = CamBuf Lft \<or> z_pc s = ZPopR p \<and> b = CamBuf Rgt"
    and m: "pop_next SyncThreadT r p (mon s b) = Some (p', m)" and t: "mon t = (mon s)(b := m)"
    and u: "\<And>u c. u \<noteq> SyncThreadT \<Longrightarrow> inside u t c = inside u s c" and i: "\<And>c. sync_inside (z_pc t) c \<longleftrightarrow> pop_in p' \<and> c = b"
  shows "locks t"
proof -
  have o: "pop_inside p \<longleftrightarrow> owner (mon s b) = Some SyncThreadT" using locksD [OF l] z by auto
  show ?thesis
    by (rule locks_frame [OF l t, of SyncThreadT]) (use pop_next_owner [OF m o] u i z in auto)
qed

lemma locks_sync:
  assumes step: "sync_next s = Some t" and l: "locks s"
  shows "locks t"
  using step
proof (cases rule: sync_cases)
  case (Idle q)
  have "inside u t c = inside u s c" for u c
    using Idle by (cases "u = SyncThreadT") auto
  then show ?thesis by (intro locks_local [OF l]) (simp_all add: Idle(3))
next
  case (PushL p p' m)
  have o: "push_inside p \<longleftrightarrow> owner (mon s (SyncBuf Lft)) = Some SyncThreadT"
    using locksD [OF l] PushL(1) by simp
  show ?thesis
    by (rule locks_frame [OF l, of t "SyncBuf Lft" m SyncThreadT])
      (use PushL(1,3) push_next_owner [OF PushL(2) o] in \<open>auto split: option.splits\<close>)
next
  case (PushR p p' m)
  have o: "push_inside p \<longleftrightarrow> owner (mon s (SyncBuf Rgt)) = Some SyncThreadT"
    using locksD [OF l] PushR(1) by simp
  show ?thesis
    by (rule locks_frame [OF l, of t "SyncBuf Rgt" m SyncThreadT])
      (use PushR(1,3) push_next_owner [OF PushR(2) o] in \<open>auto split: option.splits\<close>)
next
  case (PopL p q m)
  then show ?thesis by (intro locks_sync_pop [OF l _ PopL(2)]) auto
next
  case (GotL p f m)
  then show ?thesis by (intro locks_sync_pop [OF l _ GotL(2)]) auto
next
  case (StopL p m)
  then show ?thesis by (intro locks_sync_pop [OF l _ StopL(2)]) auto
next
  case (PopR p q m)
  then show ?thesis by (intro locks_sync_pop [OF l _ PopR(2)]) auto
next
  case (GotR p f m)
  then show ?thesis by (intro locks_sync_pop [OF l _ GotR(2)]) auto
next
  case (StopR p m)
  then show ?thesis by (intro locks_sync_pop [OF l _ StopR(2)]) auto
qed

lemma locks_writer_pop:
  assumes l: "locks s" and z: "v_pc s = VPopL p \<and> b = SyncBuf Lft \<or> v_pc s = VPopR p \<and> b = SyncBuf Rgt"
    and m: "pop_next ImageWriterT r p (mon s b) = Some (p', m)" and t: "mon t = (mon s)(b := m)"
    and u: "\<And>u c. u \<noteq> ImageWriterT \<Longrightarrow> inside u t c = inside u s c" and i: "\<And>c. writer_inside (v_pc t) c \<longleftrightarrow> pop_in p' \<and> c = b"
  shows "locks t"
proof -
  have o: "pop_inside p \<longleftrightarrow> owner (mon s b) = Some ImageWriterT" using locksD [OF l] z by auto
  show ?thesis
    by (rule locks_frame [OF l t, of ImageWriterT]) (use pop_next_owner [OF m o] u i z in auto)
qed

lemma locks_writer:
  assumes step: "writer_next b s = Some t" and l: "locks s"
  shows "locks t"
  using step
proof (cases rule: writer_cases)
  case (Idle q)
  have "inside u t c = inside u s c" for u c
    using Idle by (cases "u = ImageWriterT") auto
  then show ?thesis by (intro locks_local [OF l]) (simp_all add: Idle(3))
next
  case (Save q fs)
  have "inside u t c = inside u s c" for u c
    using Save(1,2,4) by (cases "u = ImageWriterT") auto
  then show ?thesis by (intro locks_local [OF l]) (simp_all add: Save(4))
next
  case (PopL p q m)
  then show ?thesis by (intro locks_writer_pop [OF l _ PopL(2)]) auto
next
  case (GotL p f m)
  then show ?thesis by (intro locks_writer_pop [OF l _ GotL(2)]) auto
next
  case (StopL p m)
  then show ?thesis by (intro locks_writer_pop [OF l _ StopL(2)]) auto
next
  case (PopR p q m)
  then show ?thesis by (intro locks_writer_pop [OF l _ PopR(2)]) auto
next
  case (GotR p f m)
  then show ?thesis by (intro locks_writer_pop [OF l _ GotR(2)]) auto
next
  case (StopR p m)
  then show ?thesis by (intro locks_writer_pop [OF l _ StopR(2)]) auto
qed

lemma inside_depends:
  "camera t = camera s \<Longrightarrow> z_pc t = z_pc s \<Longrightarrow> v_pc t = v_pc s \<Longrightarrow> inside u t c = inside u s c"
  by (cases u) (simp_all add: cam_inside_def)

lemma locks_step:
  assumes step: "pipe_step n a s = Some t" and l: "locks s"
  shows "locks t"
proof -
  consider (C) d now where "a = Camera d now" | (S) "a = Sync" | (W) b where "a = Write b"
    | (O) "a \<noteq> Sync" "\<And>d now. a \<noteq> Camera d now" "\<And>b. a \<noteq> Write b" by blast
  then show ?thesis
  proof cases
    case O
    from step O show ?thesis
    proof (cases rule: other_steps)
      case (Mon b m)
      have "owner m = owner (mon s b)" using Mon(2) by auto
      with l Mon(1) show ?thesis
        using inside_depends [of t s] Mon(3,6) by (simp add: locks_def)
    next
      case (Counted d)
      have "inside u t c = inside u s c" for u c
        using Counted by (cases "u = cam_thread d") (auto simp: inside_cam_thread cam_inside_def)
      then show ?thesis by (intro locks_local [OF l]) (simp_all add: Counted(3))
    next
      case Rest
      show ?thesis by (rule locks_local [OF l]) (use Rest inside_depends [of t s] in simp_all)
    qed
  qed (use step l locks_camera locks_sync locks_writer in \<open>auto simp: pipe_step_def\<close>)
qed

section \<open>Frames through the buffers\<close>

definition sure :: "pipe \<Rightarrow> bool" where
  "sure s \<longleftrightarrow> (\<forall>p. z_pc s = ZPopL p \<longrightarrow> pop_sure (running s) p (mon s (CamBuf Lft))) \<and>
     (\<forall>p. z_pc s = ZPopR p \<longrightarrow> pop_sure (running s) p (mon s (CamBuf Rgt))) \<and>
     (\<forall>p. v_pc s = VPopL p \<longrightarrow> pop_sure (running s) p (mon s (SyncBuf Lft))) \<and>
     (\<forall>p. v_pc s = VPopR p \<longrightarrow> pop_sure (running s) p (mon s (SyncBuf Rgt)))"

definition flow :: "pipe \<Rightarrow> bool" where
  "flow s \<longleftrightarrow> locks s \<and> (\<forall>b. tracked (mon s b)) \<and> sure s"

lemma flowD:
  assumes "flow s"
  shows "locks s" "tracked (mon s b)" "z_pc s = ZPopL p \<Longrightarrow> pop_sure (running s) p (mon s (CamBuf Lft))"
    "z_pc s = ZPopR p \<Longrightarrow> pop_sure (running s) p (mon s (CamBuf Rgt))"
    "v_pc s = VPopL p \<Longrightarrow> pop_sure (running s) p (mon s (SyncBuf Lft))"
    "v_pc s = VPopR p \<Longrightarrow> pop_sure (running s) p (mon s (SyncBuf Rgt))"
  using assms by (simp_all add: flow_def sure_def)

lemma flow_start: "flow pipe_start"
proof -
  have "locks pipe_start"
    unfolding locks_def
  proof (intro allI)
    fix b t
    show "owner (mon pipe_start b) = Some t \<longleftrightarrow> inside t pipe_start b"
      by (cases t) (simp_all add: pipe_start_def monitor_start_def cam_inside_def)
  qed
  then show ?thesis using tracked_start by (simp add: flow_def sure_def pipe_start_def)
qed

lemma flow_camera_push:
  assumes f: "flow s" and k: "k_pc (camera s d) = KPush p"
    and m: "push_next (cam_thread d) x p (mon s (CamBuf d)) = Some (p', m)"
    and t: "mon t = (mon s)(CamBuf d := m)" "z_pc t = z_pc s" "v_pc t = v_pc s" "running t = running s" and l: "locks t"
  shows "flow t"
proof -
  note F = flowD [OF f]
  have own: "push_inside p \<Longrightarrow> owner (mon s (CamBuf d)) = Some (cam_thread d)"
    using locksD [OF F(1), of "CamBuf d" "cam_thread d"] k by (simp add: inside_cam_thread cam_inside_def)
  have "pop_sure (running s) q m" if "d = Lft \<and> z_pc s = ZPopL q \<or> d = Rgt \<and> z_pc s = ZPopR q" for q
  proof (rule pop_sure_push [OF m own, where u = SyncThreadT])
    show "owner (mon s (CamBuf d)) = Some SyncThreadT" if "pop_inside q"
      using locksD [OF F(1), of "CamBuf d" SyncThreadT] that \<open>d = Lft \<and> _ \<or> _\<close> by auto
    show "pop_sure (running s) q (mon s (CamBuf d))" using F(3,4) \<open>d = Lft \<and> _ \<or> _\<close> by auto
  qed simp_all
  moreover have "tracked (mon t b)" for b using F(2) push_next_flow(3) [OF m F(2)] by (simp add: t)
  ultimately show ?thesis
    using F(3-6) l by (auto simp: flow_def sure_def t)
qed

lemma flow_camera:
  assumes step: "camera_next n d now s = Some t" and f: "flow s"
  shows "flow t"
proof -
  have l: "locks t" by (rule locks_camera [OF step flowD(1) [OF f]])
  from step show ?thesis
  proof (cases rule: camera_cases)
    case (Push p q m)
    show ?thesis by (rule flow_camera_push [OF f Push(1,2) _ _ _ _ l]) (simp_all add: Push(3))
  next
    case (Pushed p m)
    show ?thesis by (rule flow_camera_push [OF f Pushed(1,2) _ _ _ _ l]) (simp_all add: Pushed(3))
  qed (use l f in \<open>auto simp: flow_def sure_def\<close>)
qed

lemma flow_sync_push:
  assumes f: "flow s" and z: "z_pc s = ZPushL p \<and> b = SyncBuf Lft \<or> z_pc s = ZPushR p \<and> b = SyncBuf Rgt"
    and m: "push_next SyncThreadT x p (mon s b) = Some (p', m)"
    and t: "mon t = (mon s)(b := m)" "v_pc t = v_pc s" "running t = running s" and l: "locks t"
    and z': "\<And>q. z_pc t \<noteq> ZPopL q" "\<And>q. z_pc t \<noteq> ZPopR q"
  shows "flow t"
proof -
  note F = flowD [OF f]
  have own: "push_inside p \<Longrightarrow> owner (mon s b) = Some SyncThreadT"
    using locksD [OF F(1), of b SyncThreadT] z by auto
  have "pop_sure (running s) q m" if w: "b = SyncBuf Lft \<and> v_pc s = VPopL q \<or> b = SyncBuf Rgt \<and> v_pc s = VPopR q" for q
  proof (rule pop_sure_push [OF m own, where u = ImageWriterT])
    show "owner (mon s b) = Some ImageWriterT" if "pop_inside q"
      using locksD [OF F(1), of b ImageWriterT] that w by auto
    show "pop_sure (running s) q (mon s b)" using F(5,6) w by auto
  qed simp_all
  moreover have "tracked (mon t c)" for c using F(2) push_next_flow(3) [OF m F(2)] by (simp add: t)
  ultimately show ?thesis
    using F(5,6) l z' z unfolding flow_def sure_def t by auto
qed

lemma flow_sync_pop:
  assumes f: "flow s" and z: "z_pc s = ZPopL p \<and> b = CamBuf Lft \<or> z_pc s = ZPopR p \<and> b = CamBuf Rgt"
    and m: "pop_next SyncThreadT (running s) p (mon s b) = Some (p', m)"
    and t: "mon t = (mon s)(b := m)" "v_pc t = v_pc s" "running t = running s" and l: "locks t"
    and z': "\<And>q. z_pc t = ZPopL q \<Longrightarrow> (p' = Inl q \<and> b = CamBuf Lft) \<or> q = PopLock"
      "\<And>q. z_pc t = ZPopR q \<Longrightarrow> (p' = Inl q \<and> b = CamBuf Rgt) \<or> q = PopLock"
  shows "flow t"
proof -
  note F = flowD [OF f]
  have p: "pop_sure (running s) p (mon s b)" using F(3,4) z by auto
  have b: "b \<noteq> SyncBuf Lft" "b \<noteq> SyncBuf Rgt" using z by auto
  have "tracked (mon t c)" for c using F(2) pop_next_flow(3) [OF m F(2) p] by (simp add: t)
  moreover have "pop_sure (running s) q m" if "p' = Inl q" for q using pop_next_flow(4) [OF m that] .
  ultimately show ?thesis
    using F(5,6) l z' b unfolding flow_def sure_def t by (auto dest!: z')
qed

lemma flow_writer_pop:
  assumes f: "flow s" and z: "v_pc s = VPopL p \<and> b = SyncBuf Lft \<or> v_pc s = VPopR p \<and> b = SyncBuf Rgt"
    and m: "pop_next ImageWriterT (running s) p (mon s b) = Some (p', m)"
    and t: "mon t = (mon s)(b := m)" "z_pc t = z_pc s" "running t = running s" and l: "locks t"
    and z': "\<And>q. v_pc t = VPopL q \<Longrightarrow> (p' = Inl q \<and> b = SyncBuf Lft) \<or> q = PopLock"
      "\<And>q. v_pc t = VPopR q \<Longrightarrow> (p' = Inl q \<and> b = SyncBuf Rgt) \<or> q = PopLock"
  shows "flow t"
proof -
  note F = flowD [OF f]
  have p: "pop_sure (running s) p (mon s b)" using F(5,6) z by auto
  have b: "b \<noteq> CamBuf Lft" "b \<noteq> CamBuf Rgt" using z by auto
  have "tracked (mon t c)" for c using F(2) pop_next_flow(3) [OF m F(2) p] by (simp add: t)
  moreover have "pop_sure (running s) q m" if "p' = Inl q" for q using pop_next_flow(4) [OF m that] .
  ultimately show ?thesis
    using F(3,4) l z' b unfolding flow_def sure_def t by (auto dest!: z')
qed

lemma flow_sync:
  assumes step: "sync_next s = Some t" and f: "flow s"
  shows "flow t"
proof -
  have l: "locks t" by (rule locks_sync [OF step flowD(1) [OF f]])
  from step show ?thesis
  proof (cases rule: sync_cases)
    case (Idle q)
    show ?thesis using l f Idle(2) unfolding Idle(3) by (auto simp: flow_def sure_def)
  next
    case (PopL p q m)
    show ?thesis by (rule flow_sync_pop [OF f _ PopL(2) _ _ _ l]) (simp_all add: PopL(1,3))
  next
    case (GotL p x m)
    show ?thesis by (rule flow_sync_pop [OF f _ GotL(2) _ _ _ l]) (simp_all add: GotL(1,3))
  next
    case (StopL p m)
    show ?thesis by (rule flow_sync_pop [OF f _ StopL(2) _ _ _ l]) (simp_all add: StopL(1,3))
  next
    case (PopR p q m)
    show ?thesis by (rule flow_sync_pop [OF f _ PopR(2) _ _ _ l]) (simp_all add: PopR(1,3))
  next
    case (GotR p x m)
    show ?thesis by (rule flow_sync_pop [OF f _ GotR(2) _ _ _ l]) (simp_all add: GotR(1,3))
  next
    case (StopR p m)
    show ?thesis by (rule flow_sync_pop [OF f _ StopR(2) _ _ _ l]) (simp_all add: StopR(1,3))
  next
    case (PushL p p' m)
    show ?thesis by (rule flow_sync_push [OF f _ PushL(2) _ _ _ l]) (simp_all add: PushL(1,3) split: option.splits)
  next
    case (PushR p p' m)
    show ?thesis by (rule flow_sync_push [OF f _ PushR(2) _ _ _ l]) (simp_all add: PushR(1,3) split: option.splits)
  qed
qed

lemma flow_writer:
  assumes step: "writer_next b s = Some t" and f: "flow s"
  shows "flow t"
proof -
  have l: "locks t" by (rule locks_writer [OF step flowD(1) [OF f]])
  from step show ?thesis
  proof (cases rule: writer_cases)
    case (Idle q)
    show ?thesis using l f Idle(2) unfolding Idle(3) by (auto simp: flow_def sure_def)
  next
    case (Save q fs)
    show ?thesis using l f Save(2) unfolding Save(4) by (auto simp: flow_def sure_def)
  next
    case (PopL p q m)
    show ?thesis by (rule flow_writer_pop [OF f _ PopL(2) _ _ _ l]) (simp_all add: PopL(1,3))
  next
    case (GotL p x m)
    show ?thesis by (rule flow_writer_pop [OF f _ GotL(2) _ _ _ l]) (simp_all add: GotL(1,3))
  next
    case (StopL p m)
    show ?thesis by (rule flow_writer_pop [OF f _ StopL(2) _ _ _ l]) (simp_all add: StopL(1,3))
  next
    case (PopR p q m)
    show ?thesis by (rule flow_writer_pop [OF f _ PopR(2) _ _ _ l]) (simp_all add: PopR(1,3))
  next
    case (GotR p x m)
    show ?thesis by (rule flow_writer_pop [OF f _ GotR(2) _ _ _ l]) (simp_all add: GotR(1,3))
  next
    case (StopR p m)
    show ?thesis by (rule flow_writer_pop [OF f _ StopR(2) _ _ _ l]) (simp_all add: StopR(1,3))
  qed
qed

lemma flow_step:
  assumes step: "pipe_step n a s = Some t" and f: "flow s"
  shows "flow t"
proof -
  consider (C) d now where "a = Camera d now" | (S) "a = Sync" | (W) b where "a = Write b"
    | (O) "a \<noteq> Sync" "\<And>d now. a \<noteq> Camera d now" "\<And>b. a \<noteq> Write b" by blast
  then show ?thesis
  proof cases
    case O
    have l: "locks t" by (rule locks_step [OF step flowD(1) [OF f]])
    from step O show ?thesis
    proof (cases rule: other_steps)
      case (Mon b m)
      have m: "m_buf m = m_buf (mon s b)" "tracked m = tracked (mon s b)" using Mon(2) by auto
      have "m_buf (mon t c) = m_buf (mon s c)" "tracked (mon t c) = tracked (mon s c)" for c
        using m by (simp_all add: Mon(1))
      then have "pop_sure u p (mon t c) = pop_sure u p (mon s c)" "tracked (mon t c) = tracked (mon s c)" for u p c
        by (simp_all add: pop_sure_def)
      with f l Mon(4,6) show ?thesis by (simp add: flow_def sure_def)
    next
      case (Counted d)
      then show ?thesis using f l by (simp add: flow_def sure_def)
    next
      case Rest
      have "pop_sure (running s) p m \<Longrightarrow> pop_sure (running t) p m" for p m
        using Rest(3) by (auto simp: pop_sure_def)
      then show ?thesis using f l Rest(1,4) by (simp add: flow_def sure_def)
    qed
  qed (use step f flow_camera flow_sync flow_writer in \<open>auto simp: pipe_step_def\<close>)
qed

section \<open>Numbers of the frames\<close>

definition camera_ok :: "side \<Rightarrow> pipe \<Rightarrow> bool" where
  "camera_ok d s \<longleftrightarrow> (let n = length (pushed (mon s (CamBuf d))); c = camera s d
     in map frame_id (pushed (mon s (CamBuf d))) = map int [1..<Suc n] \<and>
        k_id c = int n + 1 + (case k_pc c of KPush p \<Rightarrow> if push_done p then 0 else 1 | _ \<Rightarrow> 0) \<and>
        (\<forall>p. k_pc c = KPush p \<longrightarrow> \<not> push_done p \<longrightarrow> frame_id (k_frame c) = int n + 1))"

lemma camera_ok_depends:
  assumes "camera_ok d s" "pushed (mon t (CamBuf d)) = pushed (mon s (CamBuf d))"
    and "k_id (camera t d) = k_id (camera s d)" "k_frame (camera t d) = k_frame (camera s d)"
    and "\<And>p. k_pc (camera t d) = KPush p \<Longrightarrow> \<exists>q. k_pc (camera s d) = KPush q \<and> push_done q = push_done p"
    and "\<And>p. k_pc (camera s d) = KPush p \<Longrightarrow> \<not> push_done p \<Longrightarrow> \<exists>q. k_pc (camera t d) = KPush q"
  shows "camera_ok d t"
proof -
  have "(case k_pc (camera t d) of KPush p \<Rightarrow> if push_done p then 0 else 1 | _ \<Rightarrow> 0) =
      (case k_pc (camera s d) of KPush p \<Rightarrow> if push_done p then 0 else (1 :: int) | _ \<Rightarrow> 0)"
    using assms(5,6) by (cases "k_pc (camera t d)"; cases "k_pc (camera s d)") fastforce+
  moreover have "\<And>p. k_pc (camera t d) = KPush p \<Longrightarrow> \<not> push_done p \<Longrightarrow> frame_id (k_frame (camera s d)) = int (length (pushed (mon s (CamBuf d)))) + 1"
    using assms(1,5) by (fastforce simp: camera_ok_def Let_def)
  ultimately show ?thesis using assms(1) unfolding camera_ok_def Let_def assms(2-4) by auto
qed

lemma push_next_pc:
  assumes "push_next u f p m = Some (p', m')"
  shows "p \<noteq> PushBody \<Longrightarrow> p' = Some q \<Longrightarrow> push_done q = push_done p" and "p = PushBody \<Longrightarrow> p' = Some PushSignal"
    and "p' = None \<Longrightarrow> p = PushUnlock" and "p = PushUnlock \<Longrightarrow> p' = None"
  using assms by (cases p; auto simp: push_next_def split: if_splits)+

lemma camera_ok_camera:
  assumes step: "camera_next n e now s = Some t" and ok: "camera_ok d s"
  shows "camera_ok d t"
proof (cases "e = d")
  case False
  from step False have "mon t (CamBuf d) = mon s (CamBuf d) \<and> camera t d = camera s d"
    by (cases rule: camera_cases) auto
  with ok show ?thesis by (simp add: camera_ok_def)
next
  case True
  from step show ?thesis
  proof (cases rule: camera_cases)
    case (Idle q)
    show ?thesis by (rule camera_ok_depends [OF ok]) (use Idle True in auto)
  next
    case New
    with ok True show ?thesis by (simp add: camera_ok_def Let_def)
  next
    case (Push p q m)
    note F = push_next_flow(1) [OF Push(2)]
    show ?thesis
    proof (cases "p = PushBody")
      case False
      show ?thesis
        by (rule camera_ok_depends [OF ok]) (use Push(1,3) True F False push_next_pc(1) [OF Push(2) False refl] in auto)
    next
      case b: True
      then have "q = PushSignal" using push_next_pc(2) [OF Push(2)] by simp
      with ok True F Push(1,3) b show ?thesis by (simp add: camera_ok_def Let_def)
    qed
  next
    case (Pushed p m)
    have p: "p = PushUnlock" using push_next_pc(3) [OF Pushed(2)] by simp
    show ?thesis
      by (rule camera_ok_depends [OF ok]) (use Pushed(1,3) True push_next_flow(1) [OF Pushed(2)] p in \<open>auto split: if_splits\<close>)
  qed
qed

lemma camera_ok_step:
  assumes step: "pipe_step n a s = Some t" and ok: "camera_ok d s"
  shows "camera_ok d t"
proof -
  consider (C) e now where "a = Camera e now" | (S) "a = Sync" | (W) b where "a = Write b"
    | (O) "a \<noteq> Sync" "\<And>d now. a \<noteq> Camera d now" "\<And>b. a \<noteq> Write b" by blast
  then show ?thesis
  proof cases
    case C
    with step ok camera_ok_camera show ?thesis by (auto simp: pipe_step_def)
  next
    case S
    then have st: "sync_next s = Some t" using step by (simp add: pipe_step_def)
    then have "camera t = camera s" by (cases rule: sync_cases) simp_all
    moreover have "pushed (mon t (CamBuf d)) = pushed (mon s (CamBuf d))"
      using st by (cases rule: sync_cases) (simp_all add: pop_next_flow(1))
    ultimately show ?thesis using ok by (simp add: camera_ok_def)
  next
    case W
    then have "writer_next b s = Some t" using step by (simp add: pipe_step_def)
    then have "camera t = camera s \<and> mon t (CamBuf d) = mon s (CamBuf d)" by (cases rule: writer_cases) simp_all
    with ok show ?thesis by (simp add: camera_ok_def)
  next
    case O
    from step O show ?thesis
    proof (cases rule: other_steps)
      case (Mon b m)
      then have "pushed (mon t (CamBuf d)) = pushed (mon s (CamBuf d))" by auto
      with ok Mon(3) show ?thesis by (simp add: camera_ok_def)
    next
      case (Counted e)
      show ?thesis by (rule camera_ok_depends [OF ok]) (use Counted in \<open>auto split: if_splits\<close>)
    next
      case Rest
      with ok show ?thesis by (simp add: camera_ok_def)
    qed
  qed
qed

section \<open>Pairs\<close>

definition close :: "frame \<Rightarrow> frame \<Rightarrow> bool" where
  "close l r \<longleftrightarrow> in_tolerance (timestamp l) (timestamp r)"

definition half_way :: "sync_pc \<Rightarrow> bool" where
  "half_way z \<longleftrightarrow> (case z of ZPushL p \<Rightarrow> push_done p | ZPushR p \<Rightarrow> \<not> push_done p | _ \<Rightarrow> False)"

lemma half_way_simps [simp]:
  "half_way (ZPushL p) = push_done p" "half_way (ZPushR p) = (\<not> push_done p)" "\<not> half_way ZTest" "\<not> half_way ZDiff"
  "\<not> half_way ZEnd" "\<not> half_way (ZPopL q)" "\<not> half_way (ZPopR q)"
  by (simp_all add: half_way_def)

text \<open>
  What the synchronizer has: a frame it is about to return from a pop was popped, so were
  the frames in its variables, and when it pushes they are a pair.
\<close>

definition sync_has :: "pipe \<Rightarrow> bool" where
  "sync_has s \<longleftrightarrow> (let L = set (popped (mon s (CamBuf Lft))); R = set (popped (mon s (CamBuf Rgt))) in
     (\<forall>f. z_pc s = ZPopL (PopUnlock (Some f)) \<longrightarrow> f \<in> L) \<and> (\<forall>f. z_pc s = ZPopR (PopUnlock (Some f)) \<longrightarrow> f \<in> R) \<and>
     ((\<exists>p. z_pc s = ZPopR p) \<or> z_pc s = ZDiff \<or> (\<exists>p. z_pc s = ZPushL p) \<or> (\<exists>p. z_pc s = ZPushR p) \<longrightarrow> z_left s \<in> L) \<and>
     (z_pc s = ZDiff \<or> (\<exists>p. z_pc s = ZPushL p) \<or> (\<exists>p. z_pc s = ZPushR p) \<longrightarrow> z_right s \<in> R) \<and>
     ((\<exists>p. z_pc s = ZPushL p) \<or> (\<exists>p. z_pc s = ZPushR p) \<longrightarrow> close (z_left s) (z_right s)))"

definition sync_pairs :: "pipe \<Rightarrow> bool" where
  "sync_pairs s \<longleftrightarrow> (\<exists>ps. pushed (mon s (SyncBuf Lft)) = map fst ps @ (if half_way (z_pc s) then [z_left s] else []) \<and>
     pushed (mon s (SyncBuf Rgt)) = map snd ps \<and>
     (\<forall>(l, r) \<in> set ps. l \<in> set (popped (mon s (CamBuf Lft))) \<and> r \<in> set (popped (mon s (CamBuf Rgt))) \<and> close l r))"

lemma sync_has_sync:
  assumes step: "sync_next s = Some t" and ok: "sync_has s"
  shows "sync_has t"
  using step
proof (cases rule: sync_cases)
  case (PopL p q m)
  show ?thesis
    using ok PopL(1) pop_next_flow(2) [OF PopL(2)] unfolding PopL(3) by (simp add: sync_has_def Let_def)
next
  case (GotL p f m)
  have "p = PopUnlock (Some f)" using pop_next_flow(5) [OF GotL(2)] by simp
  then show ?thesis
    using ok GotL(1) pop_next_flow(2) [OF GotL(2)] unfolding GotL(3) by (simp add: sync_has_def Let_def)
next
  case (PopR p q m)
  show ?thesis
    using ok PopR(1) pop_next_flow(2) [OF PopR(2)] unfolding PopR(3) by (simp add: sync_has_def Let_def)
next
  case (GotR p f m)
  have "p = PopUnlock (Some f)" using pop_next_flow(5) [OF GotR(2)] by simp
  then show ?thesis
    using ok GotR(1) pop_next_flow(2) [OF GotR(2)] unfolding GotR(3) by (simp add: sync_has_def Let_def)
next
  case (Idle q)
  show ?thesis using ok Idle(1,2) unfolding Idle(3) by (auto simp: sync_has_def Let_def close_def)
next
  case (PushL p p' m)
  show ?thesis using ok PushL(1) unfolding PushL(3) by (simp add: sync_has_def Let_def split: option.splits)
next
  case (PushR p p' m)
  show ?thesis using ok PushR(1) unfolding PushR(3) by (simp add: sync_has_def Let_def split: option.splits)
qed (simp_all add: sync_has_def Let_def)

lemma sync_pairs_keep:
  assumes "sync_pairs s" "pushed (mon t (SyncBuf Lft)) = pushed (mon s (SyncBuf Lft))"
    and "pushed (mon t (SyncBuf Rgt)) = pushed (mon s (SyncBuf Rgt))"
    and "set (popped (mon s (CamBuf Lft))) \<subseteq> set (popped (mon t (CamBuf Lft)))"
    and "set (popped (mon s (CamBuf Rgt))) \<subseteq> set (popped (mon t (CamBuf Rgt)))"
    and "half_way (z_pc t) = half_way (z_pc s)" "half_way (z_pc s) \<Longrightarrow> z_left t = z_left s"
  shows "sync_pairs t"
proof -
  obtain ps where p: "pushed (mon s (SyncBuf Lft)) = map fst ps @ (if half_way (z_pc s) then [z_left s] else [])"
    "pushed (mon s (SyncBuf Rgt)) = map snd ps"
    "\<forall>(l, r) \<in> set ps. l \<in> set (popped (mon s (CamBuf Lft))) \<and> r \<in> set (popped (mon s (CamBuf Rgt))) \<and> close l r"
    using assms(1) by (auto simp: sync_pairs_def)
  have e: "(if half_way (z_pc t) then [z_left t] else []) = (if half_way (z_pc s) then [z_left s] else [])"
    using assms(6,7) by auto
  have "\<forall>(l, r) \<in> set ps. l \<in> set (popped (mon t (CamBuf Lft))) \<and> r \<in> set (popped (mon t (CamBuf Rgt))) \<and> close l r"
    using p(3) assms(4,5) by blast
  then show ?thesis unfolding sync_pairs_def assms(2,3) e p(1,2) by blast
qed

lemma sync_pairs_sync:
  assumes step: "sync_next s = Some t" and ok: "sync_pairs s" and has: "sync_has s"
  shows "sync_pairs t"
  using step
proof (cases rule: sync_cases)
  case (Idle q)
  show ?thesis by (rule sync_pairs_keep [OF ok]) (use Idle in auto)
next
  case (PopL p q m)
  show ?thesis by (rule sync_pairs_keep [OF ok]) (use PopL(1,3) pop_next_flow(2) [OF PopL(2)] in auto)
next
  case (GotL p f m)
  show ?thesis by (rule sync_pairs_keep [OF ok]) (use GotL(1,3) pop_next_flow(2) [OF GotL(2)] in auto)
next
  case (StopL p m)
  show ?thesis by (rule sync_pairs_keep [OF ok]) (use StopL(1,3) pop_next_flow(2) [OF StopL(2)] in auto)
next
  case (PopR p q m)
  show ?thesis by (rule sync_pairs_keep [OF ok]) (use PopR(1,3) pop_next_flow(2) [OF PopR(2)] in auto)
next
  case (GotR p f m)
  show ?thesis by (rule sync_pairs_keep [OF ok]) (use GotR(1,3) pop_next_flow(2) [OF GotR(2)] in auto)
next
  case (StopR p m)
  show ?thesis by (rule sync_pairs_keep [OF ok]) (use StopR(1,3) pop_next_flow(2) [OF StopR(2)] in auto)
next
  case (PushL p p' m)
  note F = push_next_flow(1) [OF PushL(2)]
  show ?thesis
  proof (cases "p = PushBody")
    case True
    have "p' = Some PushSignal" using push_next_pc(2) [OF PushL(2) True] .
    with True F PushL(1,3) ok show ?thesis by (simp add: sync_pairs_def)
  next
    case False
    have "half_way (z_pc t) = half_way (z_pc s)"
      using PushL(1,3) push_next_pc(1) [OF PushL(2) False] push_next_pc(3) [OF PushL(2)] by (cases p') auto
    then show ?thesis by (intro sync_pairs_keep [OF ok]) (use PushL(3) F False in auto)
  qed
next
  case (PushR p p' m)
  note F = push_next_flow(1) [OF PushR(2)]
  show ?thesis
  proof (cases "p = PushBody")
    case True
    have q: "p' = Some PushSignal" using push_next_pc(2) [OF PushR(2) True] .
    obtain ps where p: "pushed (mon s (SyncBuf Lft)) = map fst ps @ [z_left s]" "pushed (mon s (SyncBuf Rgt)) = map snd ps"
      "\<forall>(l, r) \<in> set ps. l \<in> set (popped (mon s (CamBuf Lft))) \<and> r \<in> set (popped (mon s (CamBuf Rgt))) \<and> close l r"
      using ok PushR(1) True by (auto simp: sync_pairs_def)
    have "z_left s \<in> set (popped (mon s (CamBuf Lft)))" "z_right s \<in> set (popped (mon s (CamBuf Rgt)))" "close (z_left s) (z_right s)"
      using has PushR(1) by (simp_all add: sync_has_def Let_def)
    then show ?thesis
      unfolding sync_pairs_def using p q PushR(3) F True by (intro exI [of _ "ps @ [(z_left s, z_right s)]"]) simp
  next
    case False
    have "half_way (z_pc t) = half_way (z_pc s)"
      using PushR(1,3) push_next_pc(1) [OF PushR(2) False] push_next_pc(3) [OF PushR(2)] by (cases p') auto
    then show ?thesis by (intro sync_pairs_keep [OF ok]) (use PushR(3) F False in auto)
  qed
qed

text \<open>The steps of the other threads as the synchronizer sees them.\<close>

lemma sync_view:
  assumes step: "pipe_step n a s = Some t" and a: "a \<noteq> Sync"
  shows "z_pc t = z_pc s" "z_left t = z_left s" "z_right t = z_right s"
    and "popped (mon t (CamBuf d)) = popped (mon s (CamBuf d))" "pushed (mon t (SyncBuf d)) = pushed (mon s (SyncBuf d))"
proof -
  have "z_pc t = z_pc s \<and> z_left t = z_left s \<and> z_right t = z_right s \<and>
    popped (mon t (CamBuf d)) = popped (mon s (CamBuf d)) \<and> pushed (mon t (SyncBuf d)) = pushed (mon s (SyncBuf d))"
  proof -
    consider (C) e now where "a = Camera e now" | (W) b where "a = Write b"
      | (O) "\<And>d now. a \<noteq> Camera d now" "\<And>b. a \<noteq> Write b" by blast
    then show ?thesis
    proof cases
      case C
      then have "camera_next (n e) e now s = Some t" using step by (simp add: pipe_step_def)
      then show ?thesis by (cases rule: camera_cases) (auto dest: push_next_flow(2))
    next
      case W
      then have "writer_next b s = Some t" using step by (simp add: pipe_step_def)
      then show ?thesis by (cases rule: writer_cases) (auto dest: pop_next_flow(1))
    next
      case O
      from step a O show ?thesis by (cases rule: other_steps) auto
    qed
  qed
  then show "z_pc t = z_pc s" "z_left t = z_left s" "z_right t = z_right s"
    "popped (mon t (CamBuf d)) = popped (mon s (CamBuf d))" "pushed (mon t (SyncBuf d)) = pushed (mon s (SyncBuf d))" by simp_all
qed

lemma sync_has_step:
  assumes step: "pipe_step n a s = Some t" and ok: "sync_has s"
  shows "sync_has t"
proof (cases "a = Sync")
  case True
  with step ok sync_has_sync show ?thesis by (simp add: pipe_step_def)
next
  case False
  show ?thesis using ok by (simp add: sync_has_def sync_view [OF step False])
qed

lemma sync_pairs_step:
  assumes step: "pipe_step n a s = Some t" and ok: "sync_pairs s" "sync_has s"
  shows "sync_pairs t"
proof (cases "a = Sync")
  case True
  with step ok sync_pairs_sync show ?thesis by (simp add: pipe_step_def)
next
  case False
  show ?thesis
    by (rule sync_pairs_keep [OF ok(1)]) (simp_all add: sync_view [OF step False])
qed

text \<open>What the image writer has taken and saved.\<close>

definition in_hand :: "side \<Rightarrow> pipe \<Rightarrow> frame list" where
  "in_hand d s = (case v_pc s of
     VPopL p \<Rightarrow> (case (d, p) of (Lft, PopUnlock (Some f)) \<Rightarrow> [f] | _ \<Rightarrow> [])
   | VPopR p \<Rightarrow> (if d = Lft then [v_left s] else case p of PopUnlock (Some f) \<Rightarrow> [f] | _ \<Rightarrow> [])
   | _ \<Rightarrow> [])"

definition writer_ok :: "pipe \<Rightarrow> bool" where
  "writer_ok s \<longleftrightarrow>
     (if v_pc s = VEnd then prefix (map fst (saved s)) (popped (mon s (SyncBuf Lft))) \<and>
        prefix (map snd (saved s)) (popped (mon s (SyncBuf Rgt)))
      else popped (mon s (SyncBuf Lft)) = map fst (saved s) @ in_hand Lft s \<and>
        popped (mon s (SyncBuf Rgt)) = map snd (saved s) @ in_hand Rgt s) \<and>
     set (out_files s) \<subseteq> left_file ` fst ` set (saved s) \<union> right_file ` snd ` set (saved s) \<and>
     (v_pc s \<in> {VSaveL, VSaveR} \<longrightarrow> v_left s \<in> fst ` set (saved s) \<and> v_right s \<in> snd ` set (saved s))"

lemma writer_ok_writer:
  assumes step: "writer_next b s = Some t" and ok: "writer_ok s"
  shows "writer_ok t"
  using step
proof (cases rule: writer_cases)
  case (Idle q)
  show ?thesis using ok Idle(1,2) unfolding Idle(3) by (auto simp: writer_ok_def in_hand_def)
next
  case (Save q fs)
  have "v_left s \<in> fst ` set (saved s)" "v_right s \<in> snd ` set (saved s)" using ok Save(1) by (auto simp: writer_ok_def)
  then have "set fs \<subseteq> left_file ` fst ` set (saved s) \<union> right_file ` snd ` set (saved s)"
    using Save(5) by (auto split: if_splits)
  then show ?thesis using ok Save(1,2) unfolding Save(4) by (auto simp: writer_ok_def in_hand_def)
next
  case (PopL p q m)
  have "\<not> (\<exists>f. p = PopUnlock f)" using PopL(2) by (auto simp: pop_next_def)
  then show ?thesis
    using ok PopL(1) pop_next_flow(2) [OF PopL(2)] unfolding PopL(3)
    by (cases p) (simp_all add: writer_ok_def in_hand_def split: pop_pc.splits option.splits)
next
  case (GotL p f m)
  have "p = PopUnlock (Some f)" using pop_next_flow(5) [OF GotL(2)] by simp
  then show ?thesis
    using ok GotL(1) pop_next_flow(2) [OF GotL(2)] unfolding GotL(3) by (simp add: writer_ok_def in_hand_def)
next
  case (StopL p m)
  have "p = PopUnlock None" using pop_next_flow(5) [OF StopL(2)] by simp
  then show ?thesis
    using ok StopL(1) pop_next_flow(2) [OF StopL(2)] unfolding StopL(3) by (simp add: writer_ok_def in_hand_def)
next
  case (PopR p q m)
  have "\<not> (\<exists>f. p = PopUnlock f)" using PopR(2) by (auto simp: pop_next_def)
  then show ?thesis
    using ok PopR(1) pop_next_flow(2) [OF PopR(2)] unfolding PopR(3)
    by (cases p) (simp_all add: writer_ok_def in_hand_def split: pop_pc.splits option.splits)
next
  case (GotR p f m)
  have "p = PopUnlock (Some f)" using pop_next_flow(5) [OF GotR(2)] by simp
  then show ?thesis
    using ok GotR(1) pop_next_flow(2) [OF GotR(2)] unfolding GotR(3) by (auto simp: writer_ok_def in_hand_def image_iff)
next
  case (StopR p m)
  have "p = PopUnlock None" using pop_next_flow(5) [OF StopR(2)] by simp
  then show ?thesis
    using ok StopR(1) pop_next_flow(2) [OF StopR(2)] unfolding StopR(3) by (simp add: writer_ok_def in_hand_def)
qed

lemma writer_view:
  assumes step: "pipe_step n a s = Some t" and a: "\<And>b. a \<noteq> Write b"
  shows "v_pc t = v_pc s \<and> v_left t = v_left s \<and> v_right t = v_right s \<and> saved t = saved s \<and> out_files t = out_files s \<and>
    popped (mon t (SyncBuf d)) = popped (mon s (SyncBuf d))"
proof -
  consider (C) e now where "a = Camera e now" | (S) "a = Sync"
    | (O) "\<And>d now. a \<noteq> Camera d now" "a \<noteq> Sync" by blast
  then show ?thesis
  proof cases
    case C
    then have "camera_next (n e) e now s = Some t" using step by (simp add: pipe_step_def)
    then show ?thesis by (cases rule: camera_cases) simp_all
  next
    case S
    then have "sync_next s = Some t" using step by (simp add: pipe_step_def)
    then show ?thesis by (cases rule: sync_cases) (auto dest: push_next_flow(2))
  next
    case O
    from step O(2,1) a show ?thesis by (cases rule: other_steps) auto
  qed
qed

lemma writer_ok_step:
  assumes step: "pipe_step n a s = Some t" and ok: "writer_ok s"
  shows "writer_ok t"
proof (cases "\<exists>b. a = Write b")
  case True
  with step ok writer_ok_writer show ?thesis by (auto simp: pipe_step_def)
next
  case False
  have w: "v_pc t = v_pc s" "v_left t = v_left s" "v_right t = v_right s" "saved t = saved s" "out_files t = out_files s"
      "popped (mon t (SyncBuf d)) = popped (mon s (SyncBuf d))" for d
    using writer_view [OF step] False by blast+
  have "in_hand d t = in_hand d s" for d unfolding in_hand_def w ..
  with ok show ?thesis unfolding writer_ok_def w by simp
qed

section \<open>Reachable states\<close>

definition pipe_ok :: "pipe \<Rightarrow> bool" where
  "pipe_ok s \<longleftrightarrow> flow s \<and> camera_ok Lft s \<and> camera_ok Rgt s \<and> sync_has s \<and> sync_pairs s \<and> writer_ok s \<and> rob_ok (rbt s)"

lemma rob_step: "pipe_step n a s = Some t \<Longrightarrow> rob_ok (rbt s) \<Longrightarrow> rob_ok (rbt t)"
proof -
  assume step: "pipe_step n a s = Some t" and ok: "rob_ok (rbt s)"
  show "rob_ok (rbt t)"
  proof (cases a)
    case (Camera d now)
    then have "camera_next (n d) d now s = Some t" using step by (simp add: pipe_step_def)
    then have "rbt t = rbt s" by (cases rule: camera_cases) simp_all
    with ok show ?thesis by simp
  next
    case Sync
    then have "sync_next s = Some t" using step by (simp add: pipe_step_def)
    then have "rbt t = rbt s" by (cases rule: sync_cases) simp_all
    with ok show ?thesis by simp
  next
    case (Write b)
    then have "writer_next b s = Some t" using step by (simp add: pipe_step_def)
    then have "rbt t = rbt s" by (cases rule: writer_cases) simp_all
    with ok show ?thesis by simp
  next
    case Handler
    then have "handler_next s = Some t" using step by (simp add: pipe_step_def)
    then have "rbt t = rbt s" by (cases rule: handler_cases) simp_all
    with ok show ?thesis by simp
  qed (use step ok rob_ok_facts in \<open>auto simp: pipe_step_def split: if_splits\<close>)
qed

lemma pipe_ok_start: "pipe_ok pipe_start"
proof -
  have "sync_has pipe_start" "writer_ok pipe_start" "camera_ok d pipe_start" for d
    by (simp_all add: sync_has_def writer_ok_def in_hand_def camera_ok_def pipe_start_def)
  moreover have "sync_pairs pipe_start" unfolding sync_pairs_def by (intro exI [of _ "[]"]) (simp add: pipe_start_def)
  moreover have "rob_ok (rbt pipe_start)" by (simp add: pipe_start_def rob_ok_facts)
  ultimately show ?thesis by (simp add: pipe_ok_def flow_start)
qed

lemma pipe_ok_step:
  assumes step: "pipe_step n a s = Some t" and "pipe_ok s"
  shows "pipe_ok t"
  using assms(2) flow_step [OF step] camera_ok_step [OF step] sync_has_step [OF step] sync_pairs_step [OF step]
    writer_ok_step [OF step] rob_step [OF step]
  unfolding pipe_ok_def by simp

lemma pipe_ok_run: "pipe_run n as s = Some t \<Longrightarrow> pipe_ok s \<Longrightarrow> pipe_ok t"
  by (induction rule: run_acts_induct) (auto dest: pipe_ok_step)

end
