(* ===== verification/Lab6Levels.thy ===== *)
theory Lab6Levels
  imports Lab6Level1 Lab6Pipeline "HOL-Library.Word"
begin

text \<open>
  \<open>lab6/src/program2.c\<close> and \<open>program3.c\<close> as wholes: the shared threads of Lab6Pipeline with
  the statistics under a mutex and the reporting main thread of level 2, and with the
  atomic counters, the watchdog and the final report of level 3; and what they promise.
\<close>

section \<open>Pairs and order, in both levels\<close>

lemma prefix_nth: "prefix xs ys \<Longrightarrow> i < length xs \<Longrightarrow> xs ! i = ys ! i"
  by (auto simp: prefix_def nth_append)

definition pair_files :: "(frame \<times> frame) list \<Rightarrow> (string \<times> string) set" where
  "pair_files ps = left_file ` fst ` set ps \<union> right_file ` snd ` set ps"

lemma prefix_pairs: "prefix (map fst xs) (map fst ys @ zs) \<Longrightarrow> prefix (map snd xs) (map snd ys) \<Longrightarrow> prefix xs ys"
proof (induction xs arbitrary: ys)
  case (Cons x xs)
  then show ?case by (cases ys) (auto simp: prod_eq_iff)
qed simp

lemma popped_pushed: "tracked m \<Longrightarrow> set (popped m) \<subseteq> set (pushed m)"
proof
  fix x assume "tracked m" "x \<in> set (popped m)"
  from list_emb_set [OF popped_subseq [OF this(1)] this(2)] show "x \<in> set (pushed m)" by blast
qed

text \<open>What the synchronising thread has pushed: the pairs it has matched, and half a pair.\<close>

lemma sync_pushed:
  assumes "pipe_ok s"
  obtains ps where "pushed (mon s (SyncBuf Lft)) = map fst ps @ (if half_way (z_pc s) then [z_left s] else [])"
    "pushed (mon s (SyncBuf Rgt)) = map snd ps"
    "\<forall>(l, r) \<in> set ps. l \<in> set (popped (mon s (CamBuf Lft))) \<and> r \<in> set (popped (mon s (CamBuf Rgt))) \<and> close l r"
    "half_way (z_pc s) \<Longrightarrow> z_left s \<in> set (popped (mon s (CamBuf Lft)))"
proof -
  have "half_way (z_pc s) \<Longrightarrow> z_left s \<in> set (popped (mon s (CamBuf Lft)))"
    using assms by (cases "z_pc s") (simp_all add: pipe_ok_def sync_has_def Let_def)
  with assms that show ?thesis by (auto simp: pipe_ok_def sync_pairs_def)
qed

lemma saved_popped:
  assumes "pipe_ok s"
  shows "prefix (map fst (saved s)) (popped (mon s (SyncBuf Lft)))" "prefix (map snd (saved s)) (popped (mon s (SyncBuf Rgt)))"
  using assms by (auto simp: pipe_ok_def writer_ok_def split: if_splits)

lemma saved_frames:
  assumes ok: "pipe_ok s"
  shows "set (saved s) \<subseteq> set (pushed (mon s (CamBuf Lft))) \<times> set (pushed (mon s (CamBuf Rgt)))"
proof -
  have sub: "set (popped (mon s b)) \<subseteq> set (pushed (mon s b))" for b
    using ok by (intro popped_pushed) (simp add: pipe_ok_def flow_def)
  have "set (pushed (mon s (SyncBuf Lft))) \<subseteq> set (popped (mon s (CamBuf Lft)))"
    "set (pushed (mon s (SyncBuf Rgt))) \<subseteq> set (popped (mon s (CamBuf Rgt)))"
    by (rule sync_pushed [OF ok]; auto)+
  with sub have "set (popped (mon s (SyncBuf Lft))) \<subseteq> set (pushed (mon s (CamBuf Lft)))"
    "set (popped (mon s (SyncBuf Rgt))) \<subseteq> set (pushed (mon s (CamBuf Rgt)))" by (meson order_trans)+
  moreover have "l \<in> set (popped (mon s (SyncBuf Lft)))" "r \<in> set (popped (mon s (SyncBuf Rgt)))" if "(l, r) \<in> set (saved s)" for l r
    using saved_popped [OF ok, THEN set_mono_prefix] that by force+
  ultimately show ?thesis by auto
qed

lemma saved_close:
  assumes ok: "pipe_ok s" and no_loss: "\<And>d. lossless (mon s (SyncBuf d))"
  shows "set (saved s) \<subseteq> {(l, r). in_tolerance (timestamp l) (timestamp r)}"
proof -
  obtain ps where ps: "pushed (mon s (SyncBuf Lft)) = map fst ps @ (if half_way (z_pc s) then [z_left s] else [])"
    "pushed (mon s (SyncBuf Rgt)) = map snd ps" "\<forall>(l, r) \<in> set ps. close l r"
    by (rule sync_pushed [OF ok]) blast
  have tr: "tracked (mon s b)" for b using ok by (simp add: pipe_ok_def flow_def)
  have "prefix (map fst (saved s)) (pushed (mon s (SyncBuf Lft)))" "prefix (map snd (saved s)) (pushed (mon s (SyncBuf Rgt)))"
    using saved_popped [OF ok] popped_prefix [OF tr no_loss] by (meson prefix_order.trans)+
  then have "set (saved s) \<subseteq> set ps" unfolding ps(1,2) by (intro set_mono_prefix prefix_pairs)
  with ps(3) show ?thesis by (auto simp: close_def)
qed

text \<open>
  C11. What the pipeline saves: however the threads and the signal interleave, the frames that
  enter a camera's buffer are numbered from one, from every buffer frames come out in the
  order they went in with some left out, every saved pair has a left frame of the left
  camera and a right frame of the right camera, and, as long as neither buffer between
  synchronizer and writer has overwritten a frame, the two are less than 20 ms apart; every
  file written is a frame of a saved pair.
\<close>

theorem pipe_saves_pairs:
  assumes "pipe_run n as pipe_start = Some s"
  shows "map frame_id (pushed (mon s (CamBuf d))) = map int [1..<Suc (length (pushed (mon s (CamBuf d))))] \<and>
    subseq (popped (mon s b)) (pushed (mon s b)) \<and>
    set (saved s) \<subseteq> set (pushed (mon s (CamBuf Lft))) \<times> set (pushed (mon s (CamBuf Rgt))) \<and>
    (lossless (mon s (SyncBuf Lft)) \<and> lossless (mon s (SyncBuf Rgt)) \<longrightarrow>
       set (saved s) \<subseteq> {(l, r). in_tolerance (timestamp l) (timestamp r)}) \<and>
    set (out_files s) \<subseteq> pair_files (saved s)"
proof -
  have ok: "pipe_ok s" by (rule pipe_ok_run [OF assms pipe_ok_start])
  then have "camera_ok d s" "tracked (mon s b)" "writer_ok s" by (cases d; simp add: pipe_ok_def flow_def)+
  moreover have "set (saved s) \<subseteq> {(l, r). in_tolerance (timestamp l) (timestamp r)}"
    if "lossless (mon s (SyncBuf Lft))" "lossless (mon s (SyncBuf Rgt))"
    using that by (intro saved_close [OF ok]) (metis side.exhaust)
  ultimately show ?thesis using popped_subseq saved_frames [OF ok]
    by (simp add: camera_ok_def writer_ok_def pair_files_def Let_def)
qed

definition one_pair :: "pipe_act list" where
  "one_pair = replicate 6 (Camera Lft \<lparr>tv_sec = 1, tv_nsec = 5000000\<rparr>) @ replicate 6 (Camera Rgt \<lparr>tv_sec = 1, tv_nsec = 9000000\<rparr>) @
     replicate 18 Sync @ replicate 11 (Write False)"

theorem pipe_saves_pairs_witness:
  "\<exists>s. pipe_run (\<lambda>_. False) one_pair pipe_start = Some s \<and> length (pushed (mon s (SyncBuf Lft))) = 1 \<and>
     map (\<lambda>(l, r). (frame_id l, frame_id r)) (saved s) = [(1, 1)] \<and>
     set (saved s) \<subseteq> {(l, r). in_tolerance (timestamp l) (timestamp r)}"
proof -
  have "map_option (\<lambda>s. (length (pushed (mon s (SyncBuf Lft))), map (\<lambda>(l, r). (frame_id l, frame_id r)) (saved s),
        lossless (mon s (SyncBuf Lft)), lossless (mon s (SyncBuf Rgt))))
      (pipe_run (\<lambda>_. False) one_pair pipe_start) = Some (1, [(1, 1)], True, True)"
    by code_simp
  then obtain s where s: "pipe_run (\<lambda>_. False) one_pair pipe_start = Some s" "length (pushed (mon s (SyncBuf Lft))) = 1"
    "map (\<lambda>(l, r). (frame_id l, frame_id r)) (saved s) = [(1, 1)]"
    and n: "lossless (mon s (SyncBuf Lft))" "lossless (mon s (SyncBuf Rgt))" by auto
  then have "set (saved s) \<subseteq> {(l, r). in_tolerance (timestamp l) (timestamp r)}"
    using pipe_saves_pairs [OF s(1), of Lft "CamBuf Lft"] by simp
  with s show ?thesis by (intro exI [of _ s] conjI)
qed

section \<open>The lost wake-up\<close>

definition asleep :: "pipe \<Rightarrow> bool" where
  "asleep s \<longleftrightarrow> \<not> running s \<and> h_pc s = HIdle \<and> z_pc s = ZPopL PopWait \<and> SyncThreadT \<in> set (sleepers (mon s (CamBuf Lft))) \<and>
     k_pc (camera s Lft) \<in> {KCount, KSleep, KTest, KEnd}"

lemma asleep_step:
  assumes step: "pipe_step n a s = Some t" and sl: "asleep s" and a: "a \<noteq> Sigint" "\<And>u b. a \<noteq> Spurious u b"
  shows "asleep t"
proof (cases a)
  case (Camera d now)
  then have "camera_next (n d) d now s = Some t" using step by (simp add: pipe_step_def)
  then show ?thesis
  proof (cases rule: camera_cases)
    case (Idle q)
    have "q \<in> {KTest, KEnd}" using Idle(2,3) sl by (auto simp: asleep_def)
    with sl Idle(4) show ?thesis by (cases d) (auto simp: asleep_def)
  next
    case New
    with sl have "d = Rgt" by (cases d) (simp_all add: asleep_def)
    with sl New(2) show ?thesis by (simp add: asleep_def)
  next
    case (Push p q m)
    with sl have "d = Rgt" by (cases d) (simp_all add: asleep_def)
    with sl Push(3) show ?thesis by (simp add: asleep_def)
  next
    case (Pushed p m)
    with sl have "d = Rgt" by (cases d) (simp_all add: asleep_def)
    with sl Pushed(3) show ?thesis by (simp add: asleep_def)
  qed
next
  case Sync
  then have "sync_next s = Some t" using step by (simp add: pipe_step_def)
  then have False using sl by (simp add: sync_next_def asleep_def pop_next_def)
  then show ?thesis ..
next
  case (Write b)
  then have "writer_next b s = Some t" using step by (simp add: pipe_step_def)
  then show ?thesis using sl by (cases rule: writer_cases) (simp_all add: asleep_def)
next
  case Handler
  with step sl show ?thesis by (simp add: pipe_step_def handler_next_def asleep_def)
qed (use step sl a in \<open>auto simp: pipe_step_def asleep_def split: if_splits\<close>)

lemma asleep_run:
  assumes "pipe_run n bs s = Some t" "asleep s" "Sigint \<notin> set bs" "\<And>u b. Spurious u b \<notin> set bs"
  shows "asleep t"
  using assms
proof (induction bs arbitrary: s)
  case (Cons a bs)
  then obtain r where r: "pipe_step n a s = Some r" "pipe_run n bs r = Some t" by (auto split: option.splits)
  have "asleep r" by (rule asleep_step [OF r(1) Cons.prems(2)]) (use Cons.prems(3,4) in auto)
  with Cons.IH [OF r(2)] Cons.prems(3,4) show ?case by simp
qed simp

section \<open>Level 2\<close>

datatype stats_thread = StatCamera | StatRobot | StatMain

datatype stat_pc = SLock | SInc | SUnlock

datatype main2_pc = M2Test | M2Sleep | M2Check | M2Lock | M2ReadF | M2ReadR | M2Unlock | M2Print | M2Join nat | M2Done

record l2 =
  core :: pipe
  stats_frames_generated :: int
  stats_robot_states :: int
  stats_mutex :: "stats_thread option"
  cam_stat :: stat_pc
  rob_stat :: stat_pc
  m2_pc :: main2_pc
  f_count :: int
  r_count :: int
  printed :: "(int \<times> int) list"

definition l2_start :: l2 where
  "l2_start = \<lparr>core = pipe_start, stats_frames_generated = 0, stats_robot_states = 0, stats_mutex = None,
     cam_stat = SLock, rob_stat = SLock, m2_pc = M2Test, f_count = 0, r_count = 0, printed = []\<rparr>"

text \<open>Only the left camera counts.\<close>

definition l2_counts :: "side \<Rightarrow> bool" where "l2_counts d \<longleftrightarrow> d = Lft"

text \<open>The counting of the left camera and of the robot, each under \<open>stats_mutex\<close>.\<close>

definition l2_camera_count :: "l2 \<Rightarrow> l2 option" where
  "l2_camera_count s = (if k_pc (camera (core s) Lft) \<noteq> KCount then None else case cam_stat s of
     SLock \<Rightarrow> (if stats_mutex s = None then Some (s\<lparr>stats_mutex := Some StatCamera, cam_stat := SInc\<rparr>) else None)
   | SInc \<Rightarrow> Some (s\<lparr>stats_frames_generated := stats_frames_generated s + 1, cam_stat := SUnlock\<rparr>)
   | SUnlock \<Rightarrow> map_option (\<lambda>c. s\<lparr>core := c, stats_mutex := None, cam_stat := SLock\<rparr>)
        (pipe_step l2_counts (CameraCounted Lft) (core s)))"

definition l2_robot_count :: "l2 \<Rightarrow> l2 option" where
  "l2_robot_count s = (if r_pc (rbt (core s)) \<noteq> RCount then None else case rob_stat s of
     SLock \<Rightarrow> (if stats_mutex s = None then Some (s\<lparr>stats_mutex := Some StatRobot, rob_stat := SInc\<rparr>) else None)
   | SInc \<Rightarrow> Some (s\<lparr>stats_robot_states := stats_robot_states s + 1, rob_stat := SUnlock\<rparr>)
   | SUnlock \<Rightarrow> map_option (\<lambda>c. s\<lparr>core := c, stats_mutex := None, rob_stat := SLock\<rparr>)
        (pipe_step l2_counts RobotCounted (core s)))"

definition pipe_ended :: "nat \<Rightarrow> pipe \<Rightarrow> bool" where
  "pipe_ended i s = (if i = 0 then k_pc (camera s Lft) = KEnd else if i = 1 then k_pc (camera s Rgt) = KEnd
     else if i = 2 then z_pc s = ZEnd else if i = 3 then v_pc s = VEnd
     else if i = 4 then r_pc (rbt s) = REnd else l_pc (rbt s) = LEnd)"

definition l2_main :: "l2 \<Rightarrow> l2 option" where
  "l2_main s = (case m2_pc s of
     M2Test \<Rightarrow> Some (s\<lparr>m2_pc := if running (core s) then M2Sleep else M2Join 0\<rparr>)
   | M2Sleep \<Rightarrow> Some (s\<lparr>m2_pc := M2Check\<rparr>)
   | M2Check \<Rightarrow> Some (s\<lparr>m2_pc := if running (core s) then M2Lock else M2Join 0\<rparr>)
   | M2Lock \<Rightarrow> (if stats_mutex s = None then Some (s\<lparr>stats_mutex := Some StatMain, m2_pc := M2ReadF\<rparr>) else None)
   | M2ReadF \<Rightarrow> Some (s\<lparr>f_count := stats_frames_generated s, m2_pc := M2ReadR\<rparr>)
   | M2ReadR \<Rightarrow> Some (s\<lparr>r_count := stats_robot_states s, m2_pc := M2Unlock\<rparr>)
   | M2Unlock \<Rightarrow> Some (s\<lparr>stats_mutex := None, m2_pc := M2Print\<rparr>)
   | M2Print \<Rightarrow> Some (s\<lparr>printed := printed s @ [(f_count s, r_count s)], m2_pc := M2Test\<rparr>)
   | M2Join i \<Rightarrow> (if i < 6 then if pipe_ended i (core s) then Some (s\<lparr>m2_pc := M2Join (i + 1)\<rparr>) else None
                else Some (s\<lparr>m2_pc := M2Done\<rparr>))
   | M2Done \<Rightarrow> None)"

datatype l2_act = Core2 pipe_act | CountCamera2 | CountRobot2 | Main2

definition is_count :: "pipe_act \<Rightarrow> bool" where
  "is_count b = (case b of CameraCounted d \<Rightarrow> True | RobotCounted \<Rightarrow> True | _ \<Rightarrow> False)"

definition l2_step :: "l2_act \<Rightarrow> l2 \<Rightarrow> l2 option" where
  "l2_step a s = (case a of
     Core2 b \<Rightarrow> if is_count b then None
       else map_option (\<lambda>c. s\<lparr>core := c\<rparr>) (pipe_step l2_counts b (core s))
   | CountCamera2 \<Rightarrow> l2_camera_count s
   | CountRobot2 \<Rightarrow> l2_robot_count s
   | Main2 \<Rightarrow> l2_main s)"

abbreviation l2_run :: "l2_act list \<Rightarrow> l2 \<Rightarrow> l2 option" where
  "l2_run \<equiv> run_acts l2_step"

text \<open>Every step of level 2 is a step of the shared threads or leaves them as they are.\<close>

lemma l2_core:
  assumes "l2_step a s = Some t"
  shows "core t = core s \<or> (\<exists>b. pipe_step l2_counts b (core s) = Some (core t) \<and>
    (a = Core2 b \<or> b = CameraCounted Lft \<or> b = RobotCounted))"
proof (cases a)
  case Main2
  with assms show ?thesis by (cases "m2_pc s") (auto simp: l2_step_def l2_main_def split: if_splits)
next
  case CountCamera2
  with assms show ?thesis by (cases "cam_stat s") (auto simp: l2_step_def l2_camera_count_def split: if_splits)
next
  case CountRobot2
  with assms show ?thesis by (cases "rob_stat s") (auto simp: l2_step_def l2_robot_count_def split: if_splits)
qed (use assms in \<open>auto simp: l2_step_def split: if_splits\<close>)

lemma l2_pipe_ok: "l2_run as s = Some t \<Longrightarrow> pipe_ok (core s) \<Longrightarrow> pipe_ok (core t)"
proof (induction as arbitrary: s)
  case (Cons a as)
  then obtain u where u: "l2_step a s = Some u" "l2_run as u = Some t" by (auto split: option.splits)
  from l2_core [OF u(1)] Cons.prems(2) pipe_ok_step have "pipe_ok (core u)" by metis
  with Cons.IH [OF u(2)] show ?case .
qed simp

text \<open>\<open>main\<close> gets past joining the synchronizer only when that has ended.\<close>

definition joined2 :: "main2_pc \<Rightarrow> bool" where
  "joined2 m \<longleftrightarrow> (case m of M2Join i \<Rightarrow> 2 < i | M2Done \<Rightarrow> True | _ \<Rightarrow> False)"

lemma sync_end_stays:
  assumes "pipe_step n a s = Some t" "z_pc s = ZEnd"
  shows "z_pc t = ZEnd"
proof (cases "a = Sync")
  case True
  with assms show ?thesis by (simp add: pipe_step_def sync_next_def)
next
  case False
  with sync_view(1) [OF assms(1)] assms(2) show ?thesis by simp
qed

lemma joined2_step:
  assumes "l2_step a s = Some t" "joined2 (m2_pc s) \<longrightarrow> z_pc (core s) = ZEnd"
  shows "joined2 (m2_pc t) \<longrightarrow> z_pc (core t) = ZEnd"
proof (cases "a = Main2")
  case True
  then have m: "l2_main s = Some t" using assms(1) by (simp add: l2_step_def)
  show ?thesis
  proof (cases "m2_pc s")
    case (M2Join i)
    with m assms(2) show ?thesis
      by (cases "i = 2") (auto simp: l2_main_def joined2_def pipe_ended_def split: if_splits)
  qed (use m assms(2) in \<open>auto simp: l2_main_def joined2_def split: if_splits\<close>)
next
  case False
  have "m2_pc t = m2_pc s"
  proof (cases a)
    case CountCamera2
    with assms(1) show ?thesis by (cases "cam_stat s") (auto simp: l2_step_def l2_camera_count_def split: if_splits)
  next
    case CountRobot2
    with assms(1) show ?thesis by (cases "rob_stat s") (auto simp: l2_step_def l2_robot_count_def split: if_splits)
  qed (use False assms(1) in \<open>auto simp: l2_step_def split: if_splits\<close>)
  then show ?thesis using l2_core [OF assms(1)] assms(2) sync_end_stays by metis
qed

lemma joined2_run:
  "l2_run as s = Some t \<Longrightarrow> joined2 (m2_pc s) \<longrightarrow> z_pc (core s) = ZEnd \<Longrightarrow> joined2 (m2_pc t) \<longrightarrow> z_pc (core t) = ZEnd"
proof (induction as arbitrary: s)
  case (Cons a as)
  then obtain u where u: "l2_step a s = Some u" "l2_run as u = Some t" by (auto split: option.splits)
  with Cons.IH [OF u(2)] joined2_step [OF u(1)] Cons.prems(2) show ?case by blast
qed simp

lemma l2_asleep_run:
  assumes "l2_run bs s = Some t" "asleep (core s)" "Core2 Sigint \<notin> set bs" "\<And>u b. Core2 (Spurious u b) \<notin> set bs"
  shows "asleep (core t)"
  using assms
proof (induction bs arbitrary: s)
  case (Cons a bs)
  then obtain r where r: "l2_step a s = Some r" "l2_run bs r = Some t" by (auto split: option.splits)
  have "asleep (core r)"
    using l2_core [OF r(1)]
  proof
    assume "core r = core s" with Cons.prems(2) show ?thesis by simp
  next
    assume "\<exists>b. pipe_step l2_counts b (core s) = Some (core r) \<and> (a = Core2 b \<or> b = CameraCounted Lft \<or> b = RobotCounted)"
    then obtain b where b: "pipe_step l2_counts b (core s) = Some (core r)"
      "a = Core2 b \<or> b = CameraCounted Lft \<or> b = RobotCounted" by blast
    then show ?thesis
      by (intro asleep_step [OF b(1) Cons.prems(2)]) (use Cons.prems(3,4) in auto)
  qed
  with Cons.IH [OF r(2)] Cons.prems(3,4) show ?case by simp
qed simp

text \<open>
  C12. The shutdown of level 2 can hang: \<open>handle_sigint\<close> broadcasts without the mutex, so it
  can come between the synchronizer's test of \<open>is_running\<close> and its \<open>pthread_cond_wait\<close>.
  From a state after that in which the left camera pushes no more, no step of any thread
  wakes the synchronizer, and \<open>main\<close> never gets past joining it; only another signal or a
  spurious wake-up helps.
\<close>

theorem l2_shutdown_hangs:
  assumes "l2_run as l2_start = Some s" "asleep (core s)" "l2_run bs s = Some t"
    and "Core2 Sigint \<notin> set bs" "\<And>u b. Core2 (Spurious u b) \<notin> set bs"
  shows "z_pc (core t) = ZPopL PopWait \<and> sync_next (core t) = None \<and> m2_pc t \<noteq> M2Done"
proof -
  have a: "asleep (core t)" using l2_asleep_run assms(2-5) by blast
  have "joined2 (m2_pc s) \<longrightarrow> z_pc (core s) = ZEnd"
    by (rule joined2_run [OF assms(1)]) (simp add: l2_start_def joined2_def)
  then have "joined2 (m2_pc t) \<longrightarrow> z_pc (core t) = ZEnd" by (rule joined2_run [OF assms(3)])
  with a show ?thesis by (auto simp: asleep_def joined2_def sync_next_def pop_next_def)
qed

text \<open>
  The schedule: the synchronizer finds its buffer empty and \<open>is_running\<close> true; the signal
  arrives and the handler runs to its end; then the synchronizer goes to sleep, and every
  other thread ends.
\<close>

definition lost_wakeup :: "l2_act list" where
  "lost_wakeup = replicate 3 (Core2 Sync) @ [Core2 Sigint] @ replicate 6 (Core2 Handler) @ [Core2 Sync]"

definition others_end :: "l2_act list" where
  "others_end = [Core2 (Camera Lft (timestamp blank)), Core2 (Camera Rgt (timestamp blank)), Core2 (Write False),
     Core2 (Robot (timestamp blank)), Core2 (Log False), Core2 (Log False), Core2 (Log False), Main2, Main2, Main2]"

lemma l2_view:
  assumes "map_option f (l2_run as s0) = Some v"
  obtains s where "l2_run as s0 = Some s" "f s = v"
  using assms by (cases "l2_run as s0") auto

theorem l2_shutdown_hangs_witness:
  "\<exists>s t. l2_run lost_wakeup l2_start = Some s \<and> l2_run others_end s = Some t \<and>
     m2_pc t = M2Join 2 \<and> z_pc (core t) = ZPopL PopWait \<and> sync_next (core t) = None"
proof -
  have "map_option (\<lambda>s. (running (core s), h_pc (core s), z_pc (core s), sleepers (mon (core s) (CamBuf Lft)),
      k_pc (camera (core s) Lft), map_option m2_pc (l2_run others_end s))) (l2_run lost_wakeup l2_start) =
    Some (False, HIdle, ZPopL PopWait, [SyncThreadT], KTest, Some (M2Join 2))"
    by code_simp
  then obtain s where s: "l2_run lost_wakeup l2_start = Some s"
    "(running (core s), h_pc (core s), z_pc (core s), sleepers (mon (core s) (CamBuf Lft)),
      k_pc (camera (core s) Lft), map_option m2_pc (l2_run others_end s)) =
     (False, HIdle, ZPopL PopWait, [SyncThreadT], KTest, Some (M2Join 2))"
    by (rule l2_view)
  then obtain t where t: "l2_run others_end s = Some t" "m2_pc t = M2Join 2" by auto
  have a: "asleep (core s)" using s(2) by (simp add: asleep_def)
  have "Core2 Sigint \<notin> set others_end" "\<And>u b. Core2 (Spurious u b) \<notin> set others_end"
    by (simp_all add: others_end_def)
  from l2_shutdown_hangs [OF s(1) a t(1) this] s(1) t show ?thesis by blast
qed

section \<open>The statistics of level 2\<close>

definition pending :: "camera_pc \<Rightarrow> bool \<Rightarrow> nat" where
  "pending k uncounted = (case k of KPush p \<Rightarrow> if push_done p then 1 else 0 | KCount \<Rightarrow> if uncounted then 1 else 0 | _ \<Rightarrow> 0)"

text \<open>The mutex, what the count lags behind, and what \<open>main\<close> has read and printed.\<close>

definition stats_ok :: "l2 \<Rightarrow> bool" where
  "stats_ok s \<longleftrightarrow>
     (stats_mutex s = Some StatCamera \<longleftrightarrow> cam_stat s \<noteq> SLock) \<and> (stats_mutex s = Some StatRobot \<longleftrightarrow> rob_stat s \<noteq> SLock) \<and>
     (stats_mutex s = Some StatMain \<longleftrightarrow> m2_pc s \<in> {M2ReadF, M2ReadR, M2Unlock}) \<and>
     (cam_stat s \<noteq> SLock \<longrightarrow> k_pc (camera (core s) Lft) = KCount) \<and>
     int (length (pushed (mon (core s) (CamBuf Lft)))) =
       stats_frames_generated s + int (pending (k_pc (camera (core s) Lft)) (cam_stat s \<noteq> SUnlock)) \<and>
     0 \<le> f_count s \<and> f_count s \<le> stats_frames_generated s \<and> sorted (map fst (printed s)) \<and>
     fst ` set (printed s) \<subseteq> {0..f_count s}"

lemma pending_simps [simp]:
  "pending KTest u = 0" "pending KNew u = 0" "pending KSleep u = 0" "pending KEnd u = 0"
  "pending (KPush p) u = (if push_done p then 1 else 0)" "pending KCount u = (if u then 1 else 0)"
  by (simp_all add: pending_def)

text \<open>How a step of the shared threads changes what the left camera has pushed and not counted.\<close>

lemma pending_core:
  assumes step: "pipe_step n a s = Some t" and a: "\<not> is_count a" and n: "n d"
  shows "int (length (pushed (mon t (CamBuf d)))) - int (pending (k_pc (camera t d)) True) =
    int (length (pushed (mon s (CamBuf d)))) - int (pending (k_pc (camera s d)) True)"
    and "k_pc (camera s d) = KCount \<Longrightarrow> k_pc (camera t d) = KCount \<and> pushed (mon t (CamBuf d)) = pushed (mon s (CamBuf d))"
proof -
  have "int (length (pushed (mon t (CamBuf d)))) - int (pending (k_pc (camera t d)) True) =
      int (length (pushed (mon s (CamBuf d)))) - int (pending (k_pc (camera s d)) True) \<and>
    (k_pc (camera s d) = KCount \<longrightarrow> k_pc (camera t d) = KCount \<and> pushed (mon t (CamBuf d)) = pushed (mon s (CamBuf d)))"
  proof (cases "\<exists>now. a = Camera d now")
    case True
    then obtain now where c: "camera_next (n d) d now s = Some t" using step by (auto simp: pipe_step_def)
    then show ?thesis
    proof (cases rule: camera_cases)
      case (Push p q m)
      then show ?thesis
        using push_next_flow(1) [OF Push(2)] push_next_pc(1,2) [OF Push(2)] by (cases "p = PushBody") auto
    next
      case (Pushed p m)
      then show ?thesis
        using push_next_flow(1) [OF Pushed(2)] push_next_pc(3) [OF Pushed(2)] n by auto
    qed auto
  next
    case False
    have "k_pc (camera t d) = k_pc (camera s d) \<and> pushed (mon t (CamBuf d)) = pushed (mon s (CamBuf d))"
    proof -
      consider (C) e now where "a = Camera e now" "e \<noteq> d" | (S) "a = Sync" | (W) b where "a = Write b"
        | (O) "\<And>d now. a \<noteq> Camera d now" "a \<noteq> Sync" "\<And>b. a \<noteq> Write b" using False by blast
      then show ?thesis
      proof cases
        case C
        then have "camera_next (n e) e now s = Some t" using step by (simp add: pipe_step_def)
        then show ?thesis using C(2) by (cases rule: camera_cases) auto
      next
        case S
        then have "sync_next s = Some t" using step by (simp add: pipe_step_def)
        then show ?thesis by (cases rule: sync_cases) (auto dest: pop_next_flow(1))
      next
        case W
        then have "writer_next b s = Some t" using step by (simp add: pipe_step_def)
        then show ?thesis by (cases rule: writer_cases) auto
      next
        case O
        from step O(2,1,3) show ?thesis
        proof (cases rule: other_steps)
          case (Counted e)
          with a show ?thesis by (simp add: is_count_def)
        qed auto
      qed
    qed
    then show ?thesis by simp
  qed
  then show "int (length (pushed (mon t (CamBuf d)))) - int (pending (k_pc (camera t d)) True) =
    int (length (pushed (mon s (CamBuf d)))) - int (pending (k_pc (camera s d)) True)"
    "k_pc (camera s d) = KCount \<Longrightarrow> k_pc (camera t d) = KCount \<and> pushed (mon t (CamBuf d)) = pushed (mon s (CamBuf d))"
    by blast+
qed

lemma stats_core:
  assumes step: "pipe_step l2_counts b (core s) = Some c" "\<not> is_count b" and t: "t = s\<lparr>core := c\<rparr>" and ok: "stats_ok s"
  shows "stats_ok t"
proof -
  have n: "l2_counts Lft" by (simp add: l2_counts_def)
  note P = pending_core [OF step, of Lft, OF n]
  show ?thesis
  proof (cases "k_pc (camera (core s) Lft) = KCount")
    case True
    with P(2) ok show ?thesis by (simp add: stats_ok_def t)
  next
    case False
    then have "cam_stat s = SLock" using ok by (auto simp: stats_ok_def)
    with P(1) ok show ?thesis by (simp add: stats_ok_def t)
  qed
qed

lemma stats_camera:
  assumes step: "l2_camera_count s = Some t" and ok: "stats_ok s"
  shows "stats_ok t"
proof -
  have k: "k_pc (camera (core s) Lft) = KCount" using step by (simp add: l2_camera_count_def split: if_splits)
  show ?thesis
  proof (cases "cam_stat s")
    case SLock
    with step k have "stats_mutex s = None" "t = s\<lparr>stats_mutex := Some StatCamera, cam_stat := SInc\<rparr>"
      by (auto simp: l2_camera_count_def split: if_splits)
    with ok SLock k show ?thesis by (simp add: stats_ok_def)
  next
    case SInc
    with step k have "t = s\<lparr>stats_frames_generated := stats_frames_generated s + 1, cam_stat := SUnlock\<rparr>"
      by (simp add: l2_camera_count_def)
    moreover have "stats_mutex s = Some StatCamera" using ok SInc by (simp add: stats_ok_def)
    ultimately show ?thesis using ok SInc k by (simp add: stats_ok_def)
  next
    case SUnlock
    with step k have t: "t = s\<lparr>core := set_camera Lft ((camera (core s) Lft)\<lparr>k_pc := KSleep\<rparr>) (core s), stats_mutex := None, cam_stat := SLock\<rparr>"
      by (simp add: l2_camera_count_def pipe_step_def)
    have "stats_mutex s = Some StatCamera" using ok SUnlock by (simp add: stats_ok_def)
    with ok SUnlock k t show ?thesis by (simp add: stats_ok_def)
  qed
qed

lemma stats_robot:
  assumes step: "l2_robot_count s = Some t" and ok: "stats_ok s"
  shows "stats_ok t"
proof -
  have k: "r_pc (rbt (core s)) = RCount" using step by (simp add: l2_robot_count_def split: if_splits)
  show ?thesis
  proof (cases "rob_stat s")
    case SLock
    with step k have "stats_mutex s = None" "t = s\<lparr>stats_mutex := Some StatRobot, rob_stat := SInc\<rparr>"
      by (auto simp: l2_robot_count_def split: if_splits)
    with ok SLock show ?thesis by (simp add: stats_ok_def)
  next
    case SInc
    with step k have "t = s\<lparr>stats_robot_states := stats_robot_states s + 1, rob_stat := SUnlock\<rparr>"
      by (simp add: l2_robot_count_def)
    moreover have "stats_mutex s = Some StatRobot" using ok SInc by (simp add: stats_ok_def)
    ultimately show ?thesis using ok SInc by (simp add: stats_ok_def)
  next
    case SUnlock
    with step k have t: "t = s\<lparr>core := (core s)\<lparr>rbt := (rbt (core s))\<lparr>r_pc := RSleep\<rparr>\<rparr>, stats_mutex := None, rob_stat := SLock\<rparr>"
      by (simp add: l2_robot_count_def pipe_step_def)
    have "stats_mutex s = Some StatRobot" using ok SUnlock by (simp add: stats_ok_def)
    with ok SUnlock t show ?thesis by (simp add: stats_ok_def)
  qed
qed

lemma stats_main:
  assumes step: "l2_main s = Some t" and ok: "stats_ok s"
  shows "stats_ok t"
proof (cases "m2_pc s")
  case M2ReadF
  with step have t: "t = s\<lparr>f_count := stats_frames_generated s, m2_pc := M2ReadR\<rparr>" by (simp add: l2_main_def)
  have le: "0 \<le> f_count s" "f_count s \<le> stats_frames_generated s" "fst ` set (printed s) \<subseteq> {0..f_count s}"
    using ok by (simp_all add: stats_ok_def)
  then have "fst ` set (printed s) \<subseteq> {0..stats_frames_generated s}" by auto
  moreover have "stats_mutex s = Some StatMain" using ok M2ReadF by (simp add: stats_ok_def)
  ultimately show ?thesis using ok le M2ReadF unfolding t by (simp add: stats_ok_def)
next
  case M2Print
  with step have t: "t = s\<lparr>printed := printed s @ [(f_count s, r_count s)], m2_pc := M2Test\<rparr>" by (simp add: l2_main_def)
  from ok M2Print show ?thesis unfolding t by (auto simp: stats_ok_def sorted_append)
next
  case M2Unlock
  with step have t: "t = s\<lparr>stats_mutex := None, m2_pc := M2Print\<rparr>" by (simp add: l2_main_def)
  have "stats_mutex s = Some StatMain" using ok M2Unlock by (simp add: stats_ok_def)
  with ok M2Unlock show ?thesis unfolding t by (simp add: stats_ok_def)
next
  case M2Lock
  with step have t: "stats_mutex s = None" "t = s\<lparr>stats_mutex := Some StatMain, m2_pc := M2ReadF\<rparr>"
    by (auto simp: l2_main_def split: if_splits)
  with ok M2Lock show ?thesis by (simp add: stats_ok_def)
qed (insert step ok, simp add: l2_main_def split: if_splits; hypsubst_thin; simp add: stats_ok_def)+

lemma stats_step:
  assumes "l2_step a s = Some t" "stats_ok s"
  shows "stats_ok t"
proof (cases a)
  case (Core2 b)
  with assms(1) obtain c where "pipe_step l2_counts b (core s) = Some c" "\<not> is_count b" "t = s\<lparr>core := c\<rparr>"
    by (auto simp: l2_step_def split: if_splits)
  with assms(2) stats_core show ?thesis by blast
qed (use assms stats_camera stats_robot stats_main in \<open>auto simp: l2_step_def\<close>)

lemma stats_run: "l2_run as s = Some t \<Longrightarrow> stats_ok s \<Longrightarrow> stats_ok t"
  by (induction as arbitrary: s) (auto split: option.splits dest: stats_step)

text \<open>
  C15. The statistics of level 2: \<open>stats_frames_generated\<close> is the number of frames in the
  left camera's buffer history, or one less while the camera is about to count, so no
  increment is lost; the frame numbers \<open>main\<close> prints never decrease and never exceed the
  frames pushed.
\<close>

theorem l2_statistics:
  assumes "l2_run as l2_start = Some s"
  shows "int (length (pushed (mon (core s) (CamBuf Lft)))) - stats_frames_generated s \<in> {0, 1} \<and>
    sorted (map fst (printed s)) \<and>
    fst ` set (printed s) \<subseteq> {0..int (length (pushed (mon (core s) (CamBuf Lft))))}"
proof -
  have "stats_ok l2_start" by (simp add: stats_ok_def l2_start_def pipe_start_def)
  from stats_run [OF assms this] have ok: "stats_ok s" .
  have p: "pending k u \<in> {0, 1}" for k u by (cases k) simp_all
  have "int (length (pushed (mon (core s) (CamBuf Lft)))) - stats_frames_generated s \<in> {0, 1}"
    using ok p [of "k_pc (camera (core s) Lft)" "cam_stat s \<noteq> SUnlock"] by (auto simp: stats_ok_def)
  moreover from this have "f_count s \<le> int (length (pushed (mon (core s) (CamBuf Lft))))" using ok by (auto simp: stats_ok_def)
  then have "fst ` set (printed s) \<subseteq> {0..int (length (pushed (mon (core s) (CamBuf Lft))))}"
    using ok by (fastforce simp: stats_ok_def)
  ultimately show ?thesis using ok by (simp add: stats_ok_def)
qed

definition count_one :: "l2_act list" where
  "count_one = replicate 6 (Core2 (Camera Lft (timestamp blank))) @ replicate 3 CountCamera2 @ replicate 9 Main2"

theorem l2_statistics_witness:
  "\<exists>s. l2_run count_one l2_start = Some s \<and> printed s = [(1, 0)] \<and>
     fst ` set (printed s) \<subseteq> {0..int (length (pushed (mon (core s) (CamBuf Lft))))}"
proof -
  have "map_option printed (l2_run count_one l2_start) = Some [(1, 0)]" by code_simp
  then obtain s where s: "l2_run count_one l2_start = Some s" "printed s = [(1, 0)]" by (rule l2_view)
  with l2_statistics [OF s(1)] show ?thesis by (intro exI [of _ s] conjI) simp_all
qed

section \<open>Level 3\<close>

datatype count_pc = CTotal | CRecent

datatype watchdog_pc = WdTest | WdSleep | WdCheck | WdLeft | WdRight | WdRobot | WdTell | WdEnd

datatype main3_pc = M3Prio nat | M3Test | M3Sleep | M3Join nat | M3Report | M3Done

text \<open>An \<open>atomic_int\<close> wraps around silently; read as an \<open>int\<close> it is a two's complement number.\<close>

type_synonym atomic_int = "32 word"

record l3 =
  core3 :: pipe
  total_frames :: "side \<Rightarrow> atomic_int"
  total_robot_states :: atomic_int
  recent_frames :: "side \<Rightarrow> atomic_int"
  recent_robot_states :: atomic_int
  cam_count :: "side \<Rightarrow> count_pc"
  rob_count :: count_pc
  wd_pc :: watchdog_pc
  l_frames :: int
  r_frames :: int
  r_states :: int
  warned :: bool
  console :: "string list"
  errors :: "string list"
  m3_pc :: main3_pc
  report :: "string list"
  readings :: "side \<Rightarrow> atomic_int list"

definition l3_start :: l3 where
  "l3_start = \<lparr>core3 = pipe_start, total_frames = (\<lambda>_. 0), total_robot_states = 0, recent_frames = (\<lambda>_. 0),
     recent_robot_states = 0, cam_count = (\<lambda>_. CTotal), rob_count = CTotal, wd_pc = WdTest, l_frames = 0, r_frames = 0,
     r_states = 0, warned = False, console = [], errors = [], m3_pc = M3Prio 0, report = [], readings = (\<lambda>_. [])\<rparr>"

definition l3_counts :: "side \<Rightarrow> bool" where "l3_counts d = True"

text \<open>The two atomic increments of a camera and of the robot.\<close>

definition l3_camera_count :: "side \<Rightarrow> l3 \<Rightarrow> l3 option" where
  "l3_camera_count d s = (if k_pc (camera (core3 s) d) \<noteq> KCount then None else case cam_count s d of
     CTotal \<Rightarrow> Some (s\<lparr>total_frames := (total_frames s)(d := total_frames s d + 1), cam_count := (cam_count s)(d := CRecent)\<rparr>)
   | CRecent \<Rightarrow> map_option (\<lambda>c. s\<lparr>core3 := c, recent_frames := (recent_frames s)(d := recent_frames s d + 1),
        cam_count := (cam_count s)(d := CTotal)\<rparr>) (pipe_step l3_counts (CameraCounted d) (core3 s)))"

definition l3_robot_count :: "l3 \<Rightarrow> l3 option" where
  "l3_robot_count s = (if r_pc (rbt (core3 s)) \<noteq> RCount then None else case rob_count s of
     CTotal \<Rightarrow> Some (s\<lparr>total_robot_states := total_robot_states s + 1, rob_count := CRecent\<rparr>)
   | CRecent \<Rightarrow> map_option (\<lambda>c. s\<lparr>core3 := c, recent_robot_states := recent_robot_states s + 1, rob_count := CTotal\<rparr>)
        (pipe_step l3_counts RobotCounted (core3 s)))"

definition slow_line :: "string \<Rightarrow> int \<Rightarrow> int \<Rightarrow> string" where
  "slow_line what hz expected = ''[WATCHDOG] '' @ what @ '' SLOW: '' @ show_int hz @ '' Hz (Expected: '' @ show_int expected @ '' Hz)''
     @ [CHR 0x0A]"

definition watchdog_next :: "l3 \<Rightarrow> l3 option" where
  "watchdog_next s = (case wd_pc s of
     WdTest \<Rightarrow> Some (s\<lparr>wd_pc := if running (core3 s) then WdSleep else WdEnd\<rparr>)
   | WdSleep \<Rightarrow> Some (s\<lparr>wd_pc := WdCheck\<rparr>)
   | WdCheck \<Rightarrow> Some (s\<lparr>wd_pc := if running (core3 s) then WdLeft else WdEnd\<rparr>)
   | WdLeft \<Rightarrow> Some (s\<lparr>l_frames := sint (recent_frames s Lft), recent_frames := (recent_frames s)(Lft := 0),
        readings := (readings s)(Lft := readings s Lft @ [recent_frames s Lft]), wd_pc := WdRight\<rparr>)
   | WdRight \<Rightarrow> Some (s\<lparr>r_frames := sint (recent_frames s Rgt), recent_frames := (recent_frames s)(Rgt := 0),
        readings := (readings s)(Rgt := readings s Rgt @ [recent_frames s Rgt]), wd_pc := WdRobot\<rparr>)
   | WdRobot \<Rightarrow> Some (s\<lparr>r_states := sint (recent_robot_states s), recent_robot_states := 0, wd_pc := WdTell\<rparr>)
   | WdTell \<Rightarrow> Some (s\<lparr>console := console s
        @ (if l_frames s < 25 - 2 then [slow_line ''LEFT CAMERA'' (l_frames s) 25] else [])
        @ (if r_frames s < 25 - 2 then [slow_line ''RIGHT CAMERA'' (r_frames s) 25] else [])
        @ (if r_states s < 100 - 5 then [slow_line ''ROBOT STATE'' (r_states s) 100] else []), wd_pc := WdTest\<rparr>)
   | WdEnd \<Rightarrow> None)"

text \<open>
  \<open>set_thread_priority\<close>: \<open>pthread_setschedparam\<close> succeeds (\<open>None\<close>) or fails, of which only the
  first time is told, on standard error; \<open>perror\<close> adds the text that the C library has for \<open>errno\<close>.
\<close>

definition set_thread_priority :: "string option \<Rightarrow> l3 \<Rightarrow> l3" where
  "set_thread_priority failure s = (case failure of
     None \<Rightarrow> s
   | Some reason \<Rightarrow> if warned s then s
       else s\<lparr>warned := True, errors := errors s
         @ [''[WARNING] Failed to set Real-Time priority (try running with sudo): '' @ reason @ [CHR 0x0A]]\<rparr>)"

definition report_lines :: "l3 \<Rightarrow> string list" where
  "report_lines s =
     [''==================================='',
      ''    SYSTEM PERFORMANCE REPORT      '',
      ''==================================='',
      ''Total Left Camera Frames  : '' @ show_int (sint (total_frames s Lft)),
      ''Total Right Camera Frames : '' @ show_int (sint (total_frames s Rgt)),
      ''Total Robot States Logged : '' @ show_int (sint (total_robot_states s)),
      ''Expected camera frequency : '' @ show_int 25 @ '' Hz'',
      ''Expected robot frequency  : '' @ show_int 100 @ '' Hz'',
      ''==================================='']"

definition l3_main :: "string option \<Rightarrow> l3 \<Rightarrow> l3 option" where
  "l3_main failure s = (case m3_pc s of
     M3Prio i \<Rightarrow> Some (if i < 4 then set_thread_priority failure s\<lparr>m3_pc := M3Prio (i + 1)\<rparr> else s\<lparr>m3_pc := M3Test\<rparr>)
   | M3Test \<Rightarrow> Some (s\<lparr>m3_pc := if running (core3 s) then M3Sleep else M3Join 0\<rparr>)
   | M3Sleep \<Rightarrow> Some (s\<lparr>m3_pc := M3Test\<rparr>)
   | M3Join i \<Rightarrow> (if i < 6 then if pipe_ended i (core3 s) then Some (s\<lparr>m3_pc := M3Join (i + 1)\<rparr>) else None
        else if i = 6 then if wd_pc s = WdEnd then Some (s\<lparr>m3_pc := M3Join 7\<rparr>) else None
        else Some (s\<lparr>m3_pc := M3Report\<rparr>))
   | M3Report \<Rightarrow> Some (s\<lparr>report := if failure \<noteq> None then [] else report_lines s, m3_pc := M3Done\<rparr>)
   | M3Done \<Rightarrow> None)"

datatype l3_act = Core3 pipe_act | CountCamera3 side | CountRobot3 | Watchdog | Main3 "string option"

definition l3_step :: "l3_act \<Rightarrow> l3 \<Rightarrow> l3 option" where
  "l3_step a s = (case a of
     Core3 b \<Rightarrow> if is_count b then None else map_option (\<lambda>c. s\<lparr>core3 := c\<rparr>) (pipe_step l3_counts b (core3 s))
   | CountCamera3 d \<Rightarrow> l3_camera_count d s
   | CountRobot3 \<Rightarrow> l3_robot_count s
   | Watchdog \<Rightarrow> watchdog_next s
   | Main3 failure \<Rightarrow> l3_main failure s)"

abbreviation l3_run :: "l3_act list \<Rightarrow> l3 \<Rightarrow> l3 option" where
  "l3_run \<equiv> run_acts l3_step"

section \<open>The counters of level 3\<close>

text \<open>
  The exact numbers behind the counters of a camera: \<open>T\<close> frames counted in the total, \<open>rs\<close> the
  numbers the watchdog has read, \<open>r\<close> what it has not read yet.
\<close>

definition counted :: "side \<Rightarrow> l3 \<Rightarrow> nat \<Rightarrow> nat list \<Rightarrow> nat \<Rightarrow> bool" where
  "counted d s T rs r \<longleftrightarrow> total_frames s d = of_nat T \<and> readings s d = map of_nat rs \<and> recent_frames s d = of_nat r"

definition ledger :: "side \<Rightarrow> l3 \<Rightarrow> bool" where
  "ledger d s \<longleftrightarrow> (cam_count s d = CRecent \<longrightarrow> k_pc (camera (core3 s) d) = KCount) \<and>
     (\<exists>T rs r. counted d s T rs r \<and>
       length (pushed (mon (core3 s) (CamBuf d))) = T + pending (k_pc (camera (core3 s) d)) (cam_count s d = CTotal) \<and>
       T = r + sum_list rs + one_if (cam_count s d = CRecent))"

lemma ledger_core:
  assumes step: "pipe_step l3_counts b (core3 s) = Some c" "\<not> is_count b" and ok: "ledger d s"
  shows "ledger d (s\<lparr>core3 := c\<rparr>)"
proof -
  have n: "l3_counts d" by (simp add: l3_counts_def)
  note P = pending_core [OF step, of d, OF n]
  show ?thesis
  proof (cases "k_pc (camera (core3 s) d) = KCount")
    case True
    with P(2) ok show ?thesis by (simp add: ledger_def counted_def)
  next
    case False
    then have "cam_count s d = CTotal" using ok by (cases "cam_count s d") (auto simp: ledger_def)
    moreover have "length (pushed (mon c (CamBuf d))) = T + pending (k_pc (camera c d)) True"
      if "length (pushed (mon (core3 s) (CamBuf d))) = T + pending (k_pc (camera (core3 s) d)) True" for T
      using P(1) that by linarith
    ultimately show ?thesis using ok by (auto simp: ledger_def counted_def)
  qed
qed

lemma ledger_same:
  "core3 t = core3 s \<Longrightarrow> cam_count t d = cam_count s d \<Longrightarrow> total_frames t d = total_frames s d \<Longrightarrow>
   recent_frames t d = recent_frames s d \<Longrightarrow> readings t d = readings s d \<Longrightarrow> ledger d s \<Longrightarrow> ledger d t"
  by (simp add: ledger_def counted_def)

text \<open>The two increments and the watchdog's exchange on the exact numbers.\<close>

lemma counted_simps:
  "counted d (s\<lparr>core3 := c\<rparr>) = counted d s" "counted d (s\<lparr>cam_count := cc\<rparr>) = counted d s"
  "counted d s T rs r \<Longrightarrow> counted d (s\<lparr>total_frames := (total_frames s)(d := total_frames s d + 1)\<rparr>) (Suc T) rs r"
  "counted d s T rs r \<Longrightarrow> counted d (s\<lparr>recent_frames := (recent_frames s)(d := recent_frames s d + 1)\<rparr>) T rs (Suc r)"
  "counted d s T rs r \<Longrightarrow> counted d (s\<lparr>recent_frames := (recent_frames s)(d := 0),
     readings := (readings s)(d := readings s d @ [recent_frames s d])\<rparr>) T (rs @ [r]) 0"
  by (auto simp: counted_def fun_eq_iff add.commute)

lemma ledger_camera:
  assumes step: "l3_camera_count e s = Some t" and ok: "ledger d s"
  shows "ledger d t"
proof (cases "d = e")
  case False
  with step have "cam_count t d = cam_count s d" "total_frames t d = total_frames s d" "recent_frames t d = recent_frames s d"
    "readings t d = readings s d" "camera (core3 t) d = camera (core3 s) d" "mon (core3 t) = mon (core3 s)"
    by (auto simp: l3_camera_count_def pipe_step_def split: if_splits count_pc.splits)
  with ok show ?thesis by (simp add: ledger_def counted_def)
next
  case True
  have k: "k_pc (camera (core3 s) d) = KCount" using step True by (simp add: l3_camera_count_def split: if_splits)
  obtain T rs r where c: "counted d s T rs r"
    and n: "length (pushed (mon (core3 s) (CamBuf d))) = T + one_if (cam_count s d = CTotal)"
      "T = r + sum_list rs + one_if (cam_count s d = CRecent)"
    using ok k by (auto simp: ledger_def)
  show ?thesis
  proof (cases "cam_count s d")
    case CTotal
    with step k True have t: "t = s\<lparr>total_frames := (total_frames s)(d := total_frames s d + 1), cam_count := (cam_count s)(d := CRecent)\<rparr>"
      by (simp add: l3_camera_count_def)
    have "counted d t (Suc T) rs r" unfolding t using counted_simps(3) [OF c] by (simp add: counted_def)
    with n CTotal k show ?thesis unfolding ledger_def
      by (intro conjI exI [of _ "Suc T"] exI [of _ rs] exI [of _ r]) (simp_all add: t)
  next
    case CRecent
    with step k True have t: "t = s\<lparr>core3 := set_camera d ((camera (core3 s) d)\<lparr>k_pc := KSleep\<rparr>) (core3 s),
        recent_frames := (recent_frames s)(d := recent_frames s d + 1), cam_count := (cam_count s)(d := CTotal)\<rparr>"
      by (simp add: l3_camera_count_def pipe_step_def)
    have "counted d t T rs (Suc r)" unfolding t using counted_simps(4) [OF c] by (simp add: counted_def)
    with n CRecent k show ?thesis unfolding ledger_def
      by (intro conjI exI [of _ T] exI [of _ rs] exI [of _ "Suc r"]) (simp_all add: t)
  qed
qed

lemma ledger_read:
  assumes ok: "ledger e s" and t: "core3 t = core3 s" "cam_count t = cam_count s" "total_frames t = total_frames s"
    "recent_frames t = (recent_frames s)(d := 0)" "readings t = (readings s)(d := readings s d @ [recent_frames s d])"
  shows "ledger e t"
proof (cases "e = d")
  case True
  obtain T rs r where c: "counted d s T rs r"
    and n: "length (pushed (mon (core3 s) (CamBuf d))) = T + pending (k_pc (camera (core3 s) d)) (cam_count s d = CTotal)"
      "T = r + sum_list rs + one_if (cam_count s d = CRecent)"
    using ok True by (auto simp: ledger_def)
  have "counted d t T (rs @ [r]) 0" using counted_simps(5) [OF c] t by (simp add: counted_def)
  with n ok True show ?thesis unfolding ledger_def
    by (intro conjI exI [of _ T] exI [of _ "rs @ [r]"] exI [of _ 0]) (simp_all add: t)
next
  case False
  with ok t show ?thesis by (intro ledger_same [of t s]) simp_all
qed

lemma ledger_watchdog:
  assumes step: "watchdog_next s = Some t" and ok: "ledger d s"
  shows "ledger d t"
proof (cases "wd_pc s")
  case WdLeft
  with step show ?thesis by (intro ledger_read [OF ok, of t Lft]) (auto simp: watchdog_next_def)
next
  case WdRight
  with step show ?thesis by (intro ledger_read [OF ok, of t Rgt]) (auto simp: watchdog_next_def)
qed (use step in \<open>auto simp: watchdog_next_def intro!: ledger_same [OF _ _ _ _ _ ok]\<close>)

lemma set_priority_simps [simp]:
  "core3 (set_thread_priority b s) = core3 s" "total_frames (set_thread_priority b s) = total_frames s"
  "recent_frames (set_thread_priority b s) = recent_frames s" "readings (set_thread_priority b s) = readings s"
  "cam_count (set_thread_priority b s) = cam_count s" "report (set_thread_priority b s) = report s"
  "m3_pc (set_thread_priority b s) = m3_pc s"
  by (simp_all add: set_thread_priority_def split: option.split)

lemma l3_main_keeps:
  assumes "l3_main b s = Some t"
  shows "core3 t = core3 s \<and> cam_count t = cam_count s \<and> total_frames t = total_frames s \<and> recent_frames t = recent_frames s \<and>
    readings t = readings s"
  using assms by (cases "m3_pc s") (simp add: l3_main_def split: if_splits; force)+

lemma l3_robot_keeps:
  assumes "l3_robot_count s = Some t"
  shows "mon (core3 t) = mon (core3 s) \<and> camera (core3 t) = camera (core3 s) \<and> cam_count t = cam_count s \<and>
    total_frames t = total_frames s \<and> recent_frames t = recent_frames s \<and> readings t = readings s \<and> m3_pc t = m3_pc s \<and>
    report t = report s"
  using assms by (cases "rob_count s") (auto simp: l3_robot_count_def pipe_step_def split: if_splits)

lemma ledger_step:
  assumes step: "l3_step a s = Some t" and ok: "ledger d s"
  shows "ledger d t"
proof (cases a)
  case (Core3 b)
  with step obtain c where "pipe_step l3_counts b (core3 s) = Some c" "\<not> is_count b" "t = s\<lparr>core3 := c\<rparr>"
    by (auto simp: l3_step_def split: if_splits)
  with ok ledger_core show ?thesis by blast
next
  case (Main3 b)
  with step l3_main_keeps [of b s t] ok show ?thesis by (intro ledger_same [of t s]) (simp_all add: l3_step_def)
next
  case CountRobot3
  with step l3_robot_keeps [of s t] ok show ?thesis by (simp add: l3_step_def ledger_def counted_def)
qed (use step ok ledger_camera ledger_watchdog in \<open>auto simp: l3_step_def\<close>)

text \<open>When \<open>main\<close> writes the report it has joined both cameras, which stay ended.\<close>

definition joined3 :: "main3_pc \<Rightarrow> nat \<Rightarrow> bool" where
  "joined3 m n \<longleftrightarrow> (case m of M3Join i \<Rightarrow> n < i | M3Report \<Rightarrow> True | M3Done \<Rightarrow> True | _ \<Rightarrow> False)"

definition camera_text :: "side \<Rightarrow> string" where
  "camera_text d = (if d = Lft then ''Total Left Camera Frames  : '' else ''Total Right Camera Frames : '')"

definition count_line :: "side \<Rightarrow> l3 \<Rightarrow> string" where
  "count_line d s = camera_text d @ show_int (sint (of_nat (length (pushed (mon (core3 s) (CamBuf d)))) :: atomic_int))"

definition report_ok :: "l3 \<Rightarrow> bool" where
  "report_ok s \<longleftrightarrow> (joined3 (m3_pc s) 0 \<longrightarrow> k_pc (camera (core3 s) Lft) = KEnd) \<and>
     (joined3 (m3_pc s) 1 \<longrightarrow> k_pc (camera (core3 s) Rgt) = KEnd) \<and>
     (report s \<noteq> [] \<longrightarrow> m3_pc s = M3Done \<and> report s ! 3 = count_line Lft s \<and> report s ! 4 = count_line Rgt s)"

lemma camera_end_stays:
  assumes step: "pipe_step n a s = Some t" and k: "k_pc (camera s d) = KEnd"
  shows "k_pc (camera t d) = KEnd \<and> pushed (mon t (CamBuf d)) = pushed (mon s (CamBuf d))"
proof -
  consider (C) e now where "a = Camera e now" | (S) "a = Sync" | (W) b where "a = Write b"
    | (O) "\<And>d now. a \<noteq> Camera d now" "a \<noteq> Sync" "\<And>b. a \<noteq> Write b" by blast
  then show ?thesis
  proof cases
    case C
    then have "camera_next (n e) e now s = Some t" using step by (simp add: pipe_step_def)
    then show ?thesis using k by (cases rule: camera_cases; cases "e = d") auto
  next
    case S
    then have "sync_next s = Some t" using step by (simp add: pipe_step_def)
    then show ?thesis using k by (cases rule: sync_cases) (auto dest: pop_next_flow(1))
  next
    case W
    then have "writer_next b s = Some t" using step by (simp add: pipe_step_def)
    then show ?thesis using k by (cases rule: writer_cases) auto
  next
    case O
    from step O(2,1,3) show ?thesis using k by (cases rule: other_steps) auto
  qed
qed

lemma report_same:
  assumes "report_ok s" "m3_pc t = m3_pc s" "report t = report s"
    and "\<And>d. k_pc (camera (core3 s) d) = KEnd \<Longrightarrow> k_pc (camera (core3 t) d) = KEnd \<and>
      pushed (mon (core3 t) (CamBuf d)) = pushed (mon (core3 s) (CamBuf d))"
  shows "report_ok t"
proof -
  have "count_line Lft t = count_line Lft s \<and> count_line Rgt t = count_line Rgt s" if "report s \<noteq> []"
    using that assms(1,4) by (simp add: report_ok_def count_line_def joined3_def)
  with assms show ?thesis by (simp add: report_ok_def)
qed

lemma report_main:
  assumes step: "l3_main b s = Some t" and ok: "report_ok s" and l: "ledger Lft s" "ledger Rgt s"
  shows "report_ok t"
proof (cases "m3_pc s")
  case M3Report
  then have k: "k_pc (camera (core3 s) Lft) = KEnd" "k_pc (camera (core3 s) Rgt) = KEnd"
    using ok by (simp_all add: report_ok_def joined3_def)
  with l have n: "total_frames s d = of_nat (length (pushed (mon (core3 s) (CamBuf d))))" for d
    by (cases d) (auto simp: ledger_def counted_def)
  have lines: "report_lines s ! 3 = count_line Lft s" "report_lines s ! 4 = count_line Rgt s"
    by (simp_all add: report_lines_def count_line_def camera_text_def n)
  have t: "t = s\<lparr>report := if b \<noteq> None then [] else report_lines s, m3_pc := M3Done\<rparr>"
    using step M3Report by (simp add: l3_main_def)
  have "count_line d t = count_line d s" for d by (simp add: t count_line_def)
  with lines k show ?thesis by (simp add: report_ok_def t)
next
  case (M3Join i)
  with step ok show ?thesis
    by (auto simp: l3_main_def report_ok_def joined3_def pipe_ended_def less_Suc_eq split: if_splits)
next
  case (M3Prio i)
  with step ok show ?thesis by (auto simp: l3_main_def report_ok_def joined3_def split: if_splits)
qed (insert step ok, simp add: l3_main_def split: if_splits; hypsubst_thin; simp add: report_ok_def joined3_def)+

lemma report_step:
  assumes step: "l3_step a s = Some t" and ok: "report_ok s" and l: "ledger Lft s" "ledger Rgt s"
  shows "report_ok t"
proof (cases a)
  case (Core3 b)
  with step obtain c where "pipe_step l3_counts b (core3 s) = Some c" "t = s\<lparr>core3 := c\<rparr>"
    by (auto simp: l3_step_def split: if_splits)
  then show ?thesis using camera_end_stays by (intro report_same [OF ok]) auto
next
  case (CountCamera3 d)
  then have c: "l3_camera_count d s = Some t" using step by (simp add: l3_step_def)
  have "k_pc (camera (core3 s) d) = KCount" using c by (simp add: l3_camera_count_def split: if_splits)
  then show ?thesis
    using c by (intro report_same [OF ok]; cases "cam_count s d") (auto simp: l3_camera_count_def pipe_step_def)
next
  case CountRobot3
  with step l3_robot_keeps [of s t] show ?thesis by (intro report_same [OF ok]) (simp_all add: l3_step_def)
next
  case Watchdog
  then have w: "watchdog_next s = Some t" using step by (simp add: l3_step_def)
  then have "core3 t = core3 s \<and> m3_pc t = m3_pc s \<and> report t = report s"
    by (cases "wd_pc s") (simp add: watchdog_next_def; force)+
  then show ?thesis by (intro report_same [OF ok]) simp_all
next
  case (Main3 b)
  with step ok l report_main show ?thesis by (simp add: l3_step_def)
qed

lemma l3_run_ok:
  "l3_run as s = Some t \<Longrightarrow> report_ok s \<Longrightarrow> ledger Lft s \<Longrightarrow> ledger Rgt s \<Longrightarrow> report_ok t \<and> ledger Lft t \<and> ledger Rgt t"
proof (induction as arbitrary: s)
  case (Cons a as)
  then obtain u where u: "l3_step a s = Some u" "l3_run as u = Some t" by (auto split: option.splits)
  with Cons.IH [OF u(2)] report_step [OF u(1)] ledger_step [OF u(1)] Cons.prems show ?case by blast
qed simp

lemma sint_small: "n < 2 ^ 31 \<Longrightarrow> sint (of_nat n :: atomic_int) = int n"
  by (simp add: signed_of_nat signed_take_bit_int_eq_self)

lemma counted_small:
  assumes c: "counted d s T rs r" and n: "r + sum_list rs \<le> T" "T < 2 ^ 31"
  shows "sint (total_frames s d) = int T" "sint (recent_frames s d) = int r" "map sint (readings s d) = map int rs"
proof -
  have "x < 2 ^ 31" if "x \<in> set rs" for x using member_le_sum_list [OF that] n by linarith
  then show "map sint (readings s d) = map int rs" using c by (simp add: counted_def sint_small)
  show "sint (total_frames s d) = int T" "sint (recent_frames s d) = int r"
    using c n by (simp_all add: counted_def sint_small)
qed

text \<open>
  C14. The counters of level 3 lose nothing: for each camera they are the 32-bit values of exact
  numbers, of which the total is what the watchdog has read so far, what is in the recent
  counter and at most one frame counted in the total only; the total lags behind the frames
  pushed by at most one; and the numbers in the final report are the frames pushed.  While
  fewer than \<open>2 ^ 31\<close> frames have been pushed the counters are the exact numbers themselves.
\<close>

theorem l3_ledger:
  assumes "l3_run as l3_start = Some s"
  shows "(\<exists>T rs r. counted d s T rs r \<and> int T - int (sum_list rs + r) \<in> {0, 1} \<and>
      int (length (pushed (mon (core3 s) (CamBuf d)))) - int T \<in> {0, 1} \<and>
      (length (pushed (mon (core3 s) (CamBuf d))) < 2 ^ 31 \<longrightarrow>
         sint (total_frames s d) = int T \<and> sint (recent_frames s d) = int r \<and> map sint (readings s d) = map int rs \<and>
         count_line d s = camera_text d @ show_int (int (length (pushed (mon (core3 s) (CamBuf d))))))) \<and>
    (report s = [] \<or> report s ! 3 = count_line Lft s \<and> report s ! 4 = count_line Rgt s)"
proof -
  have "ledger d l3_start" for d
    unfolding ledger_def
    by (intro conjI exI [of _ 0] exI [of _ "[]"]) (simp_all add: counted_def l3_start_def pipe_start_def)
  moreover have "report_ok l3_start" by (simp add: report_ok_def joined3_def l3_start_def)
  ultimately have ok: "report_ok s" "ledger Lft s" "ledger Rgt s" using l3_run_ok [OF assms] by blast+
  then have "ledger d s" by (cases d) simp_all
  then obtain T rs r where c: "counted d s T rs r"
    and n: "length (pushed (mon (core3 s) (CamBuf d))) = T + pending (k_pc (camera (core3 s) d)) (cam_count s d = CTotal)"
      "T = r + sum_list rs + one_if (cam_count s d = CRecent)" by (auto simp: ledger_def)
  have p: "pending k u \<in> {0, 1}" for k u by (cases k) simp_all
  have "int T - int (sum_list rs + r) \<in> {0, 1}" using n(2) by (cases "cam_count s d = CRecent") simp_all
  moreover have "int (length (pushed (mon (core3 s) (CamBuf d)))) - int T \<in> {0, 1}"
    using p [of "k_pc (camera (core3 s) d)" "cam_count s d = CTotal"] n(1) by auto
  moreover have "count_line d s = camera_text d @ show_int (int (length (pushed (mon (core3 s) (CamBuf d)))))"
    if "length (pushed (mon (core3 s) (CamBuf d))) < 2 ^ 31"
    unfolding count_line_def sint_small [OF that] ..
  moreover have "sint (total_frames s d) = int T \<and> sint (recent_frames s d) = int r \<and> map sint (readings s d) = map int rs"
    if "length (pushed (mon (core3 s) (CamBuf d))) < 2 ^ 31"
    using counted_small [OF c] n that by simp
  moreover have "report s = [] \<or> report s ! 3 = count_line Lft s \<and> report s ! 4 = count_line Rgt s"
    using ok(1) by (auto simp: report_ok_def)
  ultimately show ?thesis using c by blast
qed

definition short_session :: "l3_act list" where
  "short_session = replicate 5 (Main3 None) @ replicate 6 (Core3 (Camera Lft (timestamp blank))) @ replicate 2 (CountCamera3 Lft) @
     replicate 7 Watchdog @ [Core3 Sigint] @ replicate 6 (Core3 Handler) @
     replicate 2 (Core3 (Camera Lft (timestamp blank))) @
     [Core3 (Camera Rgt (timestamp blank)), Core3 Sync, Core3 (Write False), Core3 (Robot (timestamp blank))] @
     replicate 3 (Core3 (Log False)) @ [Watchdog] @ replicate 10 (Main3 None)"

theorem l3_ledger_witness:
  "\<exists>s. l3_run short_session l3_start = Some s \<and> m3_pc s = M3Done \<and> readings s Lft = [1] \<and>
     report s ! 3 = ''Total Left Camera Frames  : 1'' \<and> report s ! 3 = count_line Lft s \<and> length (console s) = 3"
proof -
  have "map_option (\<lambda>s. (m3_pc s, readings s Lft, report s ! 3, length (report s), length (console s)))
      (l3_run short_session l3_start) = Some (M3Done, [1], ''Total Left Camera Frames  : 1'', 9, 3)"
    by code_simp
  then obtain s where s: "l3_run short_session l3_start = Some s" "m3_pc s = M3Done" "readings s Lft = [1]"
    "report s ! 3 = ''Total Left Camera Frames  : 1''" "length (report s) = 9" "length (console s) = 3" by auto
  then have "report s \<noteq> []" by auto
  with l3_ledger [OF s(1)] s show ?thesis by blast
qed

section \<open>The robot's log, in all levels\<close>

text \<open>
  C16. The log of the robot: in level 1 and in the pipeline of levels 2 and 3, every line
  written is the line of the position after some number of whole moves, never of a
  half-written state, and these numbers never decrease along the log; since a move adds
  the same to x and y, every line shows them equal.
\<close>

theorem robot_log_whole_states:
  assumes "pipe_run n as pipe_start = Some s" "Lab6Level1.l1_run bs Lab6Level1.l1_start = Some u"
    and "r = rbt s \<or> r = Lab6Level1.robot u"
  shows "\<exists>ks. sorted ks \<and> log_file r = map move_line ks \<and>
    set (log_file r) \<subseteq> {''X: '' @ x @ '', Y: '' @ x @ '', Theta: '' @ th @ [CHR 0x0A] | x th. True}"
proof -
  have "rob_ok (rbt s)" using pipe_ok_run [OF assms(1) pipe_ok_start] by (simp add: pipe_ok_def)
  moreover have "rob_ok (Lab6Level1.robot u)"
    using Lab6Level1.l1_ok_run [OF assms(2) Lab6Level1.l1_ok_start] by (simp add: Lab6Level1.l1_ok_def Lab6Level1.locks_ok_def)
  ultimately have "rob_ok r" using assms(3) by blast
  then obtain ks where "sorted ks" "log_file r = map move_line ks" using rob_ok_log by blast
  then show ?thesis using move_line_diagonal by (intro exI [of _ ks]) auto
qed

definition log_two :: "pipe_act list" where
  "log_two = replicate 8 (Robot (timestamp blank)) @ [RobotCounted] @ replicate 7 (Log False)"

theorem robot_log_whole_states_witness:
  "\<exists>s. pipe_run (\<lambda>_. False) log_two pipe_start = Some s \<and>
     log_file (rbt s) = [''X: 0.01, Y: 0.01, Theta: 0.01'' @ [CHR 0x0A]] \<and> (\<exists>ks. sorted ks \<and> log_file (rbt s) = map move_line ks)"
proof -
  have "map_option (\<lambda>s. log_file (rbt s)) (pipe_run (\<lambda>_. False) log_two pipe_start) =
      Some [''X: 0.01, Y: 0.01, Theta: 0.01'' @ [CHR 0x0A]]"
    by code_simp
  then obtain s where s: "pipe_run (\<lambda>_. False) log_two pipe_start = Some s"
    "log_file (rbt s) = [''X: 0.01, Y: 0.01, Theta: 0.01'' @ [CHR 0x0A]]" by auto
  have "Lab6Level1.l1_run [] Lab6Level1.l1_start = Some Lab6Level1.l1_start" by simp
  from robot_log_whole_states [OF s(1) this, of "rbt s"] s show ?thesis by blast
qed

end
