(* ===== verification/Lab7.thy ===== *)
theory Lab7
  imports CLib
begin

text \<open>
  lab7: the iterative TCP server that counts requests (\<open>server/main.c\<close>) and its client
  (\<open>client/main.c\<close>).  The server is a machine whose inputs are what the kernel returns
  (connections, bytes, errors, a SIGINT inside or outside a blocking call) and whose
  history lists the calls it makes.  An abstract counter says what the replies must be.
\<close>

section \<open>The request handler\<close>

definition BUFFER_SIZE :: nat where "BUFFER_SIZE = 1024"

text \<open>\<open>memset\<close>, then \<open>recv\<close> of at most 1023 bytes, then the terminating zero.\<close>

definition rx_fill :: "char list \<Rightarrow> char list" where
  "rx_fill bytes = (bytes @ replicate (BUFFER_SIZE - length bytes) NUL)[length bytes := NUL]"

text \<open>The page text; the letter n-acute is the two bytes C5 84 of the source file.\<close>

definition page_text :: "int \<Rightarrow> char list" where
  "page_text n = ''Liczba pobra'' @ [CHR 0xC5, CHR 0x84] @ '' strony: '' @ show_int n"

definition CRLF :: "char list" where "CRLF = [CHR 0x0D, CHR 0x0A]"

definition http_header :: "int \<Rightarrow> char list" where
  "http_header len =
     ''HTTP/1.1 200 OK'' @ CRLF @
     ''Server: Zajeciowy serwer SO'' @ CRLF @
     ''Content-Type: text/plain; charset=utf-8'' @ CRLF @
     ''Connection: close'' @ CRLF @
     ''Cache-Control: no-store'' @ CRLF @
     ''Content-Length: '' @ show_int len @ CRLF @ CRLF"

text \<open>
  The three branches: HTTP adds one and sends a response with headers, ZADANIE adds the
  number if there is one and sends the bare text, anything else is not answered.  The
  result is the new counter and the bytes given to \<open>send\<close>, if it is called.
\<close>

definition server_handle :: "char list \<Rightarrow> int \<Rightarrow> (int \<times> char list option) c_result" where
  "server_handle rx counter =
     (if c_strncmp_eq rx ''GET'' 3 \<or> c_strncmp_eq rx ''POST'' 4 then
        (if int_ok (counter + 1) then
           (let counter' = counter + 1;
                (http_body, body_len) = c_snprintf BUFFER_SIZE (page_text counter');
                (tx, _) = c_snprintf (BUFFER_SIZE * 2) (http_header body_len @ cstr http_body)
            in Defined (counter', Some (cstr tx)))
         else Undefined)
      else if c_strncmp_eq rx ''ZADANIE'' 7 then
        (case scan_int (drop 7 (cstr rx)) of
           None \<Rightarrow>
             (let (tx, _) = c_snprintf (BUFFER_SIZE * 2) (page_text counter)
              in Defined (counter, Some (cstr tx)))
         | Some (task_value, _) \<Rightarrow>
             if int_ok task_value \<and> int_ok (counter + task_value) then
               (let counter' = counter + task_value;
                    (tx, _) = c_snprintf (BUFFER_SIZE * 2) (page_text counter')
                in Defined (counter', Some (cstr tx)))
             else Undefined)
      else Defined (counter, None))"

section \<open>The server's main function\<close>

datatype srv_call = VSigaction | VSocket | VSetsockopt | VBind | VListen

text \<open>
  Start-up: the first refused call ends the program; the result says whether it succeeded
  and whether the socket was closed.
\<close>

definition server_setup :: "(srv_call \<Rightarrow> bool) \<Rightarrow> bool \<times> bool" where
  "server_setup refused =
     (if refused VSigaction then (False, False)
      else if refused VSocket then (False, False)
      else if refused VSetsockopt then (False, True)
      else if refused VBind then (False, True)
      else if refused VListen then (False, True)
      else (True, False))"

datatype srv_pc = LTest | LAccept | LRecv | LHandle "char list" | LClose | LShutdown | LExit

datatype srv_event =
    EAccept
  | EAcceptFailed
  | ERecvFailed
  | ERequest "char list"
  | ESend "char list"
  | EClose
  | ECloseListener
  | EFinal int

record server =
  keep_running :: bool
  request_counter :: int
  s_pc :: srv_pc
  s_hist :: "srv_event list"

text \<open>
  \<open>Tick\<close>: the next statement that does not wait.  \<open>SigInt\<close>: the handler runs between two
  statements.  \<open>SigIntr\<close>: it runs while \<open>accept4\<close> or \<open>recv\<close> waits, which then fails with
  EINTR (the handler is installed without SA_RESTART).
\<close>

datatype srv_input = Tick | SigInt | SigIntr | Incoming | CallError | Received "char list"

definition server_step :: "srv_input \<Rightarrow> server \<Rightarrow> server c_result option" where
  "server_step x s = (case x of
     SigInt \<Rightarrow> if s_pc s = LExit then None else Some (Defined (s\<lparr>keep_running := False\<rparr>))
   | SigIntr \<Rightarrow> (case s_pc s of
       LAccept \<Rightarrow> Some (Defined (s\<lparr>keep_running := False, s_pc := LTest, s_hist := s_hist s @ [EAcceptFailed]\<rparr>))
     | LRecv \<Rightarrow> Some (Defined (s\<lparr>keep_running := False, s_pc := LTest,
                                s_hist := s_hist s @ [ERecvFailed, EClose]\<rparr>))
     | _ \<Rightarrow> None)
   | Incoming \<Rightarrow> (case s_pc s of
       LAccept \<Rightarrow> Some (Defined (s\<lparr>s_pc := LRecv, s_hist := s_hist s @ [EAccept]\<rparr>))
     | _ \<Rightarrow> None)
   | CallError \<Rightarrow> (case s_pc s of
       LAccept \<Rightarrow> Some (Defined (s\<lparr>s_pc := LTest, s_hist := s_hist s @ [EAcceptFailed]\<rparr>))
     | LRecv \<Rightarrow> Some (Defined (s\<lparr>s_pc := LTest, s_hist := s_hist s @ [ERecvFailed, EClose]\<rparr>))
     | _ \<Rightarrow> None)
   | Received bytes \<Rightarrow> (case s_pc s of
       LRecv \<Rightarrow>
         if length bytes \<ge> BUFFER_SIZE then None
         else if bytes = [] then Some (Defined (s\<lparr>s_pc := LTest, s_hist := s_hist s @ [EClose]\<rparr>))
         else Some (Defined (s\<lparr>s_pc := LHandle bytes\<rparr>))
     | _ \<Rightarrow> None)
   | Tick \<Rightarrow> (case s_pc s of
       LTest \<Rightarrow> Some (Defined (s\<lparr>s_pc := if keep_running s then LAccept else LShutdown\<rparr>))
     | LHandle bytes \<Rightarrow> Some (case server_handle (rx_fill bytes) (request_counter s) of
           Undefined \<Rightarrow> Undefined
         | Defined (c, reply) \<Rightarrow> Defined (s\<lparr>request_counter := c, s_pc := LClose,
             s_hist := s_hist s @ ERequest bytes # (case reply of None \<Rightarrow> [] | Some r \<Rightarrow> [ESend r])\<rparr>))
     | LClose \<Rightarrow> Some (Defined (s\<lparr>s_pc := LTest, s_hist := s_hist s @ [EClose]\<rparr>))
     | LShutdown \<Rightarrow> Some (Defined (s\<lparr>s_pc := LExit,
                                    s_hist := s_hist s @ [ECloseListener, EFinal (request_counter s)]\<rparr>))
     | _ \<Rightarrow> None))"

definition server_init :: server where
  "server_init = \<lparr>keep_running = True, request_counter = 0, s_pc = LTest, s_hist = []\<rparr>"

inductive server_reach :: "server \<Rightarrow> server \<Rightarrow> bool" for s0 where
  start: "server_reach s0 s0"
| step: "server_reach s0 s \<Longrightarrow> server_step x s = Some (Defined t) \<Longrightarrow> server_reach s0 t"

fun server_run :: "srv_input list \<Rightarrow> server \<Rightarrow> server option" where
  "server_run [] s = Some s"
| "server_run (x # xs) s = (case server_step x s of Some (Defined t) \<Rightarrow> server_run xs t | _ \<Rightarrow> None)"

lemma server_run_reach_from: "server_reach s0 s \<Longrightarrow> server_run xs s = Some t \<Longrightarrow> server_reach s0 t"
  by (induction xs arbitrary: s) (auto split: option.splits c_result.splits intro: server_reach.step)

lemma server_run_reach: "server_run xs s = Some t \<Longrightarrow> server_reach s t"
  by (rule server_run_reach_from [OF server_reach.start])

section \<open>The client's main function\<close>

datatype cl_call = LSocket | LPton | LConnect | LSend | LRecvCall

datatype cl_event = KUsage | KError cl_call | KUnexpectedClose | KSend "char list" | KPrint "char list" | KClose | KExit nat

text \<open>
  \<open>args\<close> is \<open>argv\<close>; \<open>refused\<close> says which calls fail; \<open>reply\<close> is what \<open>recv\<close> delivers.
\<close>

definition client_tx :: "string \<Rightarrow> char list" where
  "client_tx number = cstr (fst (c_snprintf BUFFER_SIZE (''ZADANIE '' @ cstr number)))"

definition client_main :: "string list \<Rightarrow> (cl_call \<Rightarrow> bool) \<Rightarrow> char list \<Rightarrow> cl_event list" where
  "client_main args refused reply =
     (if length args \<noteq> 4 then [KUsage, KExit 1]
      else if refused LSocket then [KError LSocket, KExit 1]
      else if refused LPton then [KError LPton, KClose, KExit 1]
      else if refused LConnect then [KError LConnect, KClose, KExit 1]
      else if refused LSend then [KError LSend, KClose, KExit 1]
      else KSend (client_tx (args ! 3)) #
        (if refused LRecvCall then [KError LRecvCall, KClose, KExit 1]
         else if reply = [] then [KUnexpectedClose, KClose, KExit 1]
         else [KPrint (cstr (rx_fill (take (BUFFER_SIZE - 1) reply))), KClose, KExit 0]))"

section \<open>What the replies must be\<close>

datatype request = Http | Add int | NoNumber | Unknown

text \<open>The request that a sequence of bytes is: bytes after a zero byte do not count.\<close>

definition request_of :: "char list \<Rightarrow> request" where
  "request_of bytes =
     (let t = cstr bytes in
      if take 3 t = ''GET'' \<or> take 4 t = ''POST'' then Http
      else if take 7 t = ''ZADANIE'' then
        (case scan_int (drop 7 t) of None \<Rightarrow> NoNumber | Some (n, _) \<Rightarrow> Add n)
      else Unknown)"

primrec request_value :: "request \<Rightarrow> int" where
  "request_value Http = 1"
| "request_value (Add n) = n"
| "request_value NoNumber = 0"
| "request_value Unknown = 0"

text \<open>The reply of a counter that stands at \<open>n\<close> after the request.\<close>

definition counter_reply :: "request \<Rightarrow> int \<Rightarrow> char list option" where
  "counter_reply q n = (case q of
     Http \<Rightarrow> Some (http_header (int (length (page_text n))) @ page_text n)
   | Unknown \<Rightarrow> None
   | _ \<Rightarrow> Some (page_text n))"

fun counter_run :: "char list list \<Rightarrow> int \<Rightarrow> int \<times> char list list" where
  "counter_run [] n = (n, [])"
| "counter_run (b # bs) n =
     (let q = request_of b; n' = n + request_value q; (m, rs) = counter_run bs n'
      in (m, (case counter_reply q n' of None \<Rightarrow> [] | Some r \<Rightarrow> [r]) @ rs))"

section \<open>The handler against the abstract counter\<close>

lemma rx_fill_cstr: "length bytes < BUFFER_SIZE \<Longrightarrow> cstr (rx_fill bytes) = cstr bytes"
proof -
  assume l: "length bytes < BUFFER_SIZE"
  then obtain k where k: "BUFFER_SIZE - length bytes = Suc k" by (metis Suc_diff_Suc)
  have "rx_fill bytes = bytes @ NUL # replicate k NUL"
    by (simp add: rx_fill_def k list_update_append)
  moreover have "cstr (bytes @ NUL # r) = cstr bytes" for r
    by (induction bytes) (auto simp: cstr_def)
  ultimately show ?thesis by simp
qed

lemma page_text_no_NUL [simp]: "NUL \<notin> set (page_text n)"
  by (simp add: page_text_def)

lemma http_header_no_NUL [simp]: "NUL \<notin> set (http_header n)"
  by (simp add: http_header_def CRLF_def)

lemma page_text_length: "int_ok n \<Longrightarrow> length (page_text n) \<le> 34"
  using show_int_length [of n] by (simp add: page_text_def)

lemma http_header_length: "int_ok n \<Longrightarrow> length (http_header n) \<le> 200"
  using show_int_length [of n] by (simp add: http_header_def CRLF_def)

text \<open>Neither buffer of the server ever truncates what is written into it.\<close>

lemma page_text_fits:
  "int_ok n \<Longrightarrow> c_snprintf BUFFER_SIZE (page_text n) = (page_text n @ [NUL], int (length (page_text n)))"
  "int_ok n \<Longrightarrow> c_snprintf (BUFFER_SIZE * 2) (page_text n) = (page_text n @ [NUL], int (length (page_text n)))"
  using page_text_length [of n] by (auto intro!: c_snprintf_fits simp: BUFFER_SIZE_def)

lemma http_response_fits:
  assumes "int_ok n"
  shows "c_snprintf (BUFFER_SIZE * 2) (http_header (int (length (page_text n))) @ page_text n)
    = ((http_header (int (length (page_text n))) @ page_text n) @ [NUL],
       int (length (http_header (int (length (page_text n))) @ page_text n)))"
proof (rule c_snprintf_fits)
  show "NUL \<notin> set (http_header (int (length (page_text n))) @ page_text n)" by simp
  have "int_ok (int (length (page_text n)))" using page_text_length [OF assms] by (simp add: int_ok_def)
  with page_text_length [OF assms] http_header_length
  show "length (http_header (int (length (page_text n))) @ page_text n) < BUFFER_SIZE * 2"
    by (fastforce simp: BUFFER_SIZE_def)
qed

lemma http_response_cstr:
  "cstr (http_header l @ page_text n @ [NUL]) = http_header l @ page_text n"
  using cstr_append_NUL [of "http_header l @ page_text n" "[]"] by simp

text \<open>The handler is the abstract counter whenever it has a defined result.\<close>

lemma server_handle_spec:
  assumes "length bytes < BUFFER_SIZE" "int_ok n"
  shows "server_handle (rx_fill bytes) n =
     (if int_ok (request_value (request_of bytes)) \<and> int_ok (n + request_value (request_of bytes))
      then Defined (n + request_value (request_of bytes),
             counter_reply (request_of bytes) (n + request_value (request_of bytes)))
      else Undefined)"
proof -
  note cs = cstr_id page_text_fits http_response_fits cstr_append_NUL http_response_cstr
  have eqs: "cstr ''GET'' = ''GET''" "cstr ''POST'' = ''POST''" "cstr ''ZADANIE'' = ''ZADANIE''"
    by (simp_all add: cstr_def)
  have ok1: "int_ok 1" and ok0: "int_ok 0" by (simp_all add: int_ok_def)
  show ?thesis
    unfolding server_handle_def request_of_def c_strncmp_eq_def rx_fill_cstr [OF assms(1)] eqs
    using assms(2) ok0 ok1
    by (auto simp: Let_def counter_reply_def cs split: option.splits)
qed

lemma server_handle_int_ok:
  "server_handle rx n = Defined (m, r) \<Longrightarrow> int_ok n \<Longrightarrow> int_ok m"
  by (auto simp: server_handle_def Let_def split: if_splits option.splits prod.splits)

section \<open>The invariant of the server\<close>

definition requests :: "srv_event list \<Rightarrow> char list list" where
  "requests h = concat (map (\<lambda>e. case e of ERequest b \<Rightarrow> [b] | _ \<Rightarrow> []) h)"

definition replies :: "srv_event list \<Rightarrow> char list list" where
  "replies h = concat (map (\<lambda>e. case e of ESend b \<Rightarrow> [b] | _ \<Rightarrow> []) h)"

definition count_ev :: "(srv_event \<Rightarrow> bool) \<Rightarrow> srv_event list \<Rightarrow> nat" where
  "count_ev P h = length (filter P h)"

lemma history_simps [simp]:
  "requests [] = []" "replies [] = []" "requests (h @ h') = requests h @ requests h'"
  "replies (h @ h') = replies h @ replies h'"
  "requests (e # h) = (case e of ERequest b \<Rightarrow> [b] | _ \<Rightarrow> []) @ requests h"
  "replies (e # h) = (case e of ESend b \<Rightarrow> [b] | _ \<Rightarrow> []) @ replies h"
  "count_ev P [] = 0" "count_ev P (h @ h') = count_ev P h + count_ev P h'"
  "count_ev P (e # h) = (if P e then 1 else 0) + count_ev P h"
  by (simp_all add: requests_def replies_def count_ev_def)

definition connected :: "srv_pc \<Rightarrow> bool" where
  "connected pc = (case pc of LRecv \<Rightarrow> True | LHandle b \<Rightarrow> True | LClose \<Rightarrow> True | _ \<Rightarrow> False)"

lemma connected_simps [simp]:
  "\<not> connected LTest" "\<not> connected LAccept" "connected LRecv" "connected (LHandle b)" "connected LClose"
  "\<not> connected LShutdown" "\<not> connected LExit"
  by (simp_all add: connected_def)

lemma counter_run_snoc:
  "counter_run (bs @ [b]) n =
     (let (m, rs) = counter_run bs n; m' = m + request_value (request_of b)
      in (m', rs @ (case counter_reply (request_of b) m' of None \<Rightarrow> [] | Some r \<Rightarrow> [r])))"
  by (induction bs arbitrary: n) (auto simp: Let_def split: prod.splits)

definition counting_inv :: "server \<Rightarrow> bool" where
  "counting_inv s \<longleftrightarrow> int_ok (request_counter s) \<and>
     counter_run (requests (s_hist s)) 0 = (request_counter s, replies (s_hist s)) \<and>
     (\<forall>b. s_pc s = LHandle b \<longrightarrow> 0 < length b \<and> length b < BUFFER_SIZE)"

definition connection_inv :: "server \<Rightarrow> bool" where
  "connection_inv s \<longleftrightarrow>
     count_ev (\<lambda>e. e = EAccept) (s_hist s) =
       count_ev (\<lambda>e. e = EClose) (s_hist s) + (if connected (s_pc s) then 1 else 0) \<and>
     count_ev (\<lambda>e. e = ECloseListener) (s_hist s) = (if s_pc s = LExit then 1 else 0)"

definition shutdown_inv :: "server \<Rightarrow> bool" where
  "shutdown_inv s \<longleftrightarrow>
     (s_pc s = LShutdown \<or> s_pc s = LExit \<longrightarrow> \<not> keep_running s) \<and>
     (s_pc s = LExit \<longrightarrow> last (s_hist s) = EFinal (request_counter s))"

lemma server_step_handle:
  assumes "server_step Tick s = Some (Defined t)" "s_pc s = LHandle b" "counting_inv s"
  defines "n \<equiv> request_counter s + request_value (request_of b)"
  shows "int_ok n \<and> t = s\<lparr>request_counter := n, s_pc := LClose,
    s_hist := s_hist s @ ERequest b # (case counter_reply (request_of b) n of None \<Rightarrow> [] | Some r \<Rightarrow> [ESend r])\<rparr>"
proof -
  have "length b < BUFFER_SIZE" "int_ok (request_counter s)" using assms by (auto simp: counting_inv_def)
  from server_handle_spec [OF this] assms(1,2) show ?thesis
    unfolding n_def by (auto simp: server_step_def split: if_splits)
qed

lemma counting_step:
  assumes "server_step x s = Some (Defined t)" "counting_inv s"
  shows "counting_inv t"
proof (cases "x = Tick \<and> (\<exists>b. s_pc s = LHandle b)")
  case True
  then obtain b where x: "x = Tick" and b: "s_pc s = LHandle b" by blast
  from server_step_handle [OF assms(1) [unfolded x] b assms(2)] assms(2) show ?thesis
    by (auto simp: counting_inv_def counter_run_snoc split: option.splits)
next
  case False
  with assms show ?thesis
    by (cases x; cases "s_pc s") (auto simp: server_step_def counting_inv_def split: if_splits)
qed

lemma connection_step:
  assumes "server_step x s = Some (Defined t)" "connection_inv s"
  shows "connection_inv t"
  using assms
  by (cases x; cases "s_pc s")
    (auto simp: server_step_def connection_inv_def split: if_splits c_result.splits option.splits)

lemma shutdown_step:
  assumes "server_step x s = Some (Defined t)" "shutdown_inv s"
  shows "shutdown_inv t"
  using assms
  by (cases x; cases "s_pc s")
    (auto simp: server_step_def shutdown_inv_def split: if_splits c_result.splits option.splits)

lemma server_reach_inv:
  "server_reach server_init s \<Longrightarrow> counting_inv s \<and> connection_inv s \<and> shutdown_inv s"
proof (induction rule: server_reach.induct)
  case start
  show ?case by (simp add: server_init_def counting_inv_def connection_inv_def shutdown_inv_def int_ok_def)
next
  case (step s x t)
  then show ?case by (blast intro: counting_step connection_step shutdown_step)
qed

lemma counter_run_sum: "fst (counter_run bs n) = n + sum_list (map (\<lambda>b. request_value (request_of b)) bs)"
  by (induction bs arbitrary: n) (simp_all add: Let_def case_prod_beta)

lemma counter_reply_shape:
  "counter_reply Http n = Some (http_header (int (length (page_text n))) @ page_text n)"
  "counter_reply (Add k) n = Some (page_text n)"
  by (simp_all add: counter_reply_def)

lemma client_tx_number: "int_ok n \<Longrightarrow> client_tx (show_int n) = ''ZADANIE '' @ show_int n"
proof -
  assume "int_ok n"
  then have "c_snprintf BUFFER_SIZE (''ZADANIE '' @ show_int n) =
      ((''ZADANIE '' @ show_int n) @ [NUL], int (length (''ZADANIE '' @ show_int n)))"
    using show_int_length [of n] by (intro c_snprintf_fits) (auto simp: BUFFER_SIZE_def)
  then show ?thesis
    using cstr_append_NUL [of "''ZADANIE '' @ show_int n" "[]"] by (simp add: client_tx_def cstr_id)
qed

lemma scan_int_space: "scan_int (CHR '' '' # s) = scan_int s"
  by (simp add: scan_int_def is_space_def)

lemma request_of_client: "request_of (''ZADANIE '' @ show_int n) = Add n"
proof -
  have "cstr (''ZADANIE '' @ show_int n) = ''ZADANIE '' @ show_int n" by (rule cstr_id) simp
  then show ?thesis by (simp add: request_of_def scan_int_space)
qed

section \<open>Properties\<close>

text \<open>
  C4. The server counts requests: in every reachable state the counter is the sum of the
  values of the requests received (one per GET or POST, the number per ZADANIE, zero
  otherwise) and the texts sent are, in order, the replies of the abstract counter.
\<close>

theorem lab7_counts_requests:
  assumes "server_reach server_init s"
  shows "counter_run (requests (s_hist s)) 0 = (request_counter s, replies (s_hist s)) \<and>
    request_counter s = sum_list (map (\<lambda>b. request_value (request_of b)) (requests (s_hist s))) \<and>
    int_ok (request_counter s)"
proof -
  have c: "counter_run (requests (s_hist s)) 0 = (request_counter s, replies (s_hist s))"
    and ok: "int_ok (request_counter s)"
    using server_reach_inv [OF assms] by (auto simp: counting_inv_def)
  with counter_run_sum [of "requests (s_hist s)" 0] show ?thesis by simp
qed

text \<open>A page request and a ZADANIE request of 41.\<close>

definition lab7_demo :: "srv_input list" where
  "lab7_demo = [Tick, Incoming, Received ''GET / HTTP/1.1'', Tick, Tick,
                Tick, Incoming, Received ''ZADANIE 41'', Tick, Tick]"

lemma server_run_reaches:
  assumes "case server_run xs server_init of None \<Rightarrow> False | Some s \<Rightarrow> P s"
  obtains s where "server_reach server_init s" "P s"
  using assms by (auto split: option.splits intro: server_run_reach)

theorem lab7_counts_requests_witness:
  "\<exists>s. server_reach server_init s \<and> request_counter s = 42 \<and>
     sum_list (map (\<lambda>b. request_value (request_of b)) (requests (s_hist s))) = 42"
proof -
  have "case server_run lab7_demo server_init of None \<Rightarrow> False | Some s \<Rightarrow> request_counter s = 42" by code_simp
  then obtain s where r: "server_reach server_init s" and c: "request_counter s = 42"
    by (rule server_run_reaches)
  from lab7_counts_requests [OF r] r c show ?thesis by metis
qed

text \<open>
  C28. The page response is well-formed: headers, an empty line and a body, the number after
  Content-Length is the number of bytes of the body, the body shows the new counter, and
  nothing is cut off by the sizes of the two buffers.
\<close>

theorem lab7_http_response:
  assumes "length bytes < BUFFER_SIZE" and "request_of bytes = Http" and "int_ok n"
    and "server_handle (rx_fill bytes) n = Defined (m, reply)"
  shows "m = n + 1 \<and> (\<exists>headers number.
     reply = Some (headers @ ''Content-Length: '' @ number @ CRLF @ CRLF @ page_text m) \<and>
     scan_int number = Some (int (length (page_text m)), []) \<and>
     length (the reply) < BUFFER_SIZE * 2 \<and> scan_int (drop 23 (page_text m)) = Some (m, []))"
proof -
  from server_handle_spec [OF assms(1,3)] assms(2,4)
  have m: "m = n + 1" "int_ok m" and r: "reply = Some (http_header (int (length (page_text m))) @ page_text m)"
    by (auto simp: counter_reply_shape split: if_splits)
  define number where "number = show_int (int (length (page_text m)))"
  obtain hs where h: "http_header (int (length (page_text m))) =
      hs @ ''Content-Length: '' @ number @ CRLF @ CRLF"
    unfolding http_header_def number_def [symmetric] append_assoc [symmetric] by blast
  have "int_ok (int (length (page_text m)))" using page_text_length [OF m(2)] by (simp add: int_ok_def)
  then have l: "length (the reply) < BUFFER_SIZE * 2"
    using r page_text_length [OF m(2)] http_header_length by (fastforce simp: BUFFER_SIZE_def)
  have d: "scan_int (drop 23 (page_text m)) = Some (m, [])" by (simp add: page_text_def)
  have "reply = Some (hs @ ''Content-Length: '' @ number @ CRLF @ CRLF @ page_text m)"
    unfolding r h by (simp only: append_assoc)
  moreover have "scan_int number = Some (int (length (page_text m)), [])" by (simp add: number_def)
  ultimately show ?thesis using m(1) l d by blast
qed

theorem lab7_http_response_witness:
  "\<exists>m reply. server_handle (rx_fill ''GET /'') 41 = Defined (m, reply) \<and> m = 42 \<and>
     scan_int (drop 23 (page_text m)) = Some (42, [])"
proof -
  have h: "length ''GET /'' < BUFFER_SIZE" "request_of ''GET /'' = Http" "int_ok 41"
    by (simp_all add: BUFFER_SIZE_def request_of_def cstr_def int_ok_def)
  obtain m reply where s: "server_handle (rx_fill ''GET /'') 41 = Defined (m, reply)"
    using server_handle_spec [OF h(1,3)] h(2) by (simp add: int_ok_def)
  from lab7_http_response [OF h s] have "m = 42" "scan_int (drop 23 (page_text m)) = Some (m, [])" by auto
  with s show ?thesis by blast
qed

text \<open>
  C22. Client and server agree: the client run with the number \<open>n\<close> makes the server add
  exactly \<open>n\<close>, prints the reply unchanged, closes its socket and succeeds; the number at
  the end of what it prints is the new counter.  This holds for every \<open>int\<close>, negative
  ones included, as long as the sum is an \<open>int\<close>.
\<close>

theorem lab7_round_trip:
  assumes "int_ok n" "int_ok c" "int_ok (c + n)"
  shows "\<exists>reply. server_handle (rx_fill (client_tx (show_int n))) c = Defined (c + n, Some reply) \<and>
    client_main [prog, address, port, show_int n] (\<lambda>_. False) reply =
      [KSend (client_tx (show_int n)), KPrint reply, KClose, KExit 0] \<and>
    scan_int (drop 23 reply) = Some (c + n, [])"
proof -
  let ?r = "page_text (c + n)"
  define b where "b = ''ZADANIE '' @ show_int n"
  have tx: "client_tx (show_int n) = b" unfolding b_def by (rule client_tx_number [OF assms(1)])
  have q: "request_of b = Add n" unfolding b_def by (rule request_of_client)
  have l: "length b < BUFFER_SIZE" using show_int_length [OF assms(1)] by (simp add: BUFFER_SIZE_def b_def)
  have "server_handle (rx_fill b) c = Defined (c + n, Some ?r)"
    using server_handle_spec [OF l assms(2)] q assms by (simp add: counter_reply_shape)
  moreover have "client_main [prog, address, port, show_int n] (\<lambda>_. False) ?r =
      [KSend b, KPrint ?r, KClose, KExit 0]"
  proof -
    have lr: "length ?r < BUFFER_SIZE" using page_text_length [OF assms(3)] by (simp add: BUFFER_SIZE_def)
    then have "take (BUFFER_SIZE - 1) ?r = ?r" by simp
    moreover have "cstr (rx_fill ?r) = ?r" using rx_fill_cstr [OF lr] by (simp add: cstr_id)
    moreover have "?r \<noteq> []" by (simp add: page_text_def)
    ultimately show ?thesis by (simp add: client_main_def tx)
  qed
  moreover have "scan_int (drop 23 ?r) = Some (c + n, [])" by (simp add: page_text_def)
  ultimately show ?thesis unfolding tx by blast
qed

theorem lab7_round_trip_witness:
  "\<exists>reply. server_handle (rx_fill (client_tx (show_int (- 7)))) 3 = Defined (- 4, Some reply) \<and>
     scan_int (drop 23 reply) = Some (- 4, [])"
proof -
  have "int_ok (- 7)" "int_ok 3" "int_ok (3 + - 7)" by (simp_all add: int_ok_def)
  from lab7_round_trip [OF this, of "[]" "[]" "[]"] show ?thesis by auto
qed

text \<open>
  C30. Where the arithmetic of the counter is undefined: a request that the server is about
  to handle has an undefined effect exactly when its number is not an \<open>int\<close> or the sum
  with the counter overflows; nothing else a client sends can make a step undefined.
\<close>

theorem lab7_overflow:
  assumes "server_reach server_init s"
  shows "server_step x s = Some Undefined \<longleftrightarrow>
    x = Tick \<and> (\<exists>b. s_pc s = LHandle b \<and> \<not> (int_ok (request_value (request_of b)) \<and>
      int_ok (request_counter s + request_value (request_of b))))"
proof -
  have c: "counting_inv s" using server_reach_inv [OF assms] by simp
  show ?thesis
  proof (cases "x = Tick \<and> (\<exists>b. s_pc s = LHandle b)")
    case True
    then obtain b where x: "x = Tick" and b: "s_pc s = LHandle b" by blast
    have "length b < BUFFER_SIZE" "int_ok (request_counter s)" using c b by (auto simp: counting_inv_def)
    from server_handle_spec [OF this] x b show ?thesis by (simp add: server_step_def)
  next
    case False
    then show ?thesis by (cases x; cases "s_pc s") (auto simp: server_step_def)
  qed
qed

text \<open>Two requests that overflow the counter.\<close>

theorem lab7_overflow_witness:
  "\<exists>s. server_reach server_init s \<and> request_counter s = 2147483647 \<and> server_step Tick s = Some Undefined"
proof -
  define b where "b = ''ZADANIE '' @ show_int 2147483647"
  define g where "g = ''GET /''"
  have l: "length b < BUFFER_SIZE" "b \<noteq> []"
    using show_int_length [of 2147483647] by (simp_all add: BUFFER_SIZE_def b_def int_ok_def)
  have lg: "length g < BUFFER_SIZE" "g \<noteq> []" by (simp_all add: BUFFER_SIZE_def g_def)
  have q: "request_of b = Add 2147483647" unfolding b_def by (rule request_of_client)
  have qg: "request_of g = Http" by (simp add: request_of_def g_def cstr_def)
  have h: "server_handle (rx_fill b) 0 = Defined (2147483647, Some (page_text 2147483647))"
    using server_handle_spec [OF l(1), of 0] q by (simp add: counter_reply_shape int_ok_def)
  obtain s where s: "server_run [Tick, Incoming, Received b, Tick, Tick, Tick, Incoming, Received g] server_init = Some s"
      "s_pc s = LHandle g" "request_counter s = 2147483647"
    using l lg h by (simp add: server_step_def server_init_def)
  have r: "server_reach server_init s" by (rule server_run_reach [OF s(1)])
  from lab7_overflow [OF r, of Tick] s qg r show ?thesis by (auto simp: int_ok_def)
qed

text \<open>
  C29. No descriptor leaks: every accepted connection has been closed except the one being
  served, the listening socket is closed exactly once, when the program ends, and the last
  line of the program shows the counter.
\<close>

theorem lab7_connections_closed:
  assumes "server_reach server_init s"
  shows "count_ev (\<lambda>e. e = EAccept) (s_hist s) =
      count_ev (\<lambda>e. e = EClose) (s_hist s) + (if connected (s_pc s) then 1 else 0) \<and>
    count_ev (\<lambda>e. e = ECloseListener) (s_hist s) = (if s_pc s = LExit then 1 else 0) \<and>
    (s_pc s = LExit \<longrightarrow> last (s_hist s) = EFinal (request_counter s))"
  using server_reach_inv [OF assms] by (auto simp: connection_inv_def shutdown_inv_def)

theorem lab7_connections_closed_witness:
  "\<exists>s. server_reach server_init s \<and> s_pc s = LExit \<and> count_ev (\<lambda>e. e = EAccept) (s_hist s) = 2 \<and>
     count_ev (\<lambda>e. e = EClose) (s_hist s) = 2 \<and> last (s_hist s) = EFinal 42"
proof -
  have "case server_run (lab7_demo @ [Tick, SigIntr, Tick, Tick]) server_init of None \<Rightarrow> False
      | Some s \<Rightarrow> (case s_pc s of LExit \<Rightarrow> True | _ \<Rightarrow> False) \<and> length (requests (s_hist s)) = 2 \<and>
          request_counter s = 42 \<and> count_ev (\<lambda>e. case e of EAccept \<Rightarrow> True | _ \<Rightarrow> False) (s_hist s) = 2"
    by code_simp
  then obtain s where r: "server_reach server_init s"
    and c: "(case s_pc s of LExit \<Rightarrow> True | _ \<Rightarrow> False) \<and> length (requests (s_hist s)) = 2 \<and>
          request_counter s = 42 \<and> count_ev (\<lambda>e. case e of EAccept \<Rightarrow> True | _ \<Rightarrow> False) (s_hist s) = 2"
    by (rule server_run_reaches)
  have "(\<lambda>e. case e of EAccept \<Rightarrow> True | _ \<Rightarrow> False) = (\<lambda>e. e = EAccept)"
    by (rule ext) (simp split: srv_event.splits)
  with c have "s_pc s = LExit" "count_ev (\<lambda>e. e = EAccept) (s_hist s) = 2" "request_counter s = 42"
    by (auto split: srv_pc.splits)
  with lab7_connections_closed [OF r] r show ?thesis by auto
qed

text \<open>
  Shutdown: once SIGINT has cleared \<open>keep_running\<close>, the server accepts at most one more
  connection, whatever happens.
\<close>

theorem lab7_shutdown_bound:
  assumes "server_reach s t" and "\<not> keep_running s"
  shows "\<not> keep_running t \<and> count_ev (\<lambda>e. e = EAccept) (s_hist t) \<le> count_ev (\<lambda>e. e = EAccept) (s_hist s) + 1"
proof -
  let ?a = "\<lambda>s. count_ev (\<lambda>e. e = EAccept) (s_hist s) + (if s_pc s = LAccept then 1 else 0)"
  have step: "\<not> keep_running u' \<and> ?a u' \<le> ?a u" if "server_step x u = Some (Defined u')" "\<not> keep_running u" for x u u'
    using that by (cases x; cases "s_pc u")
      (auto simp: server_step_def split: if_splits c_result.splits option.splits)
  have "\<not> keep_running t \<and> ?a t \<le> ?a s"
    using assms
  proof (induction rule: server_reach.induct)
    case start
    then show ?case by simp
  next
    case (step u x u')
    then show ?case using \<open>\<And>x u u'. server_step x u = Some (Defined u') \<Longrightarrow> \<not> keep_running u \<Longrightarrow>
      \<not> keep_running u' \<and> ?a u' \<le> ?a u\<close> le_trans by blast
  qed
  then show ?thesis by (auto split: if_splits)
qed

text \<open>The bound is reached when the signal comes between the loop test and \<open>accept4\<close>.\<close>

theorem lab7_shutdown_bound_witness:
  "\<exists>s t. server_reach server_init s \<and> \<not> keep_running s \<and> server_reach s t \<and> \<not> keep_running t \<and>
     count_ev (\<lambda>e. e = EAccept) (s_hist s) = 0 \<and> count_ev (\<lambda>e. e = EAccept) (s_hist t) \<le> 0 + 1"
proof -
  have "case server_run [Tick, SigInt] server_init of None \<Rightarrow> False
      | Some s \<Rightarrow> \<not> keep_running s \<and> s_hist s = []" by code_simp
  then obtain s where s: "server_reach server_init s" "\<not> keep_running s \<and> s_hist s = []"
    by (rule server_run_reaches)
  have "server_reach s s" by (rule server_reach.start)
  from lab7_shutdown_bound [OF this] s
  have "count_ev (\<lambda>e. e = EAccept) (s_hist s) \<le> 0 + 1" by simp
  with lab7_shutdown_bound [OF \<open>server_reach s s\<close>] s \<open>server_reach s s\<close> show ?thesis
    by (metis history_simps(7))
qed

text \<open>
  A SIGINT can be missed: there is a reachable state in which \<open>keep_running\<close> is already
  zero, the server is about to wait in \<open>accept4\<close> with no statement left to run before it,
  and only a connection, an error or another signal lets it go on.
\<close>

theorem lab7_sigint_missed:
  "\<exists>s. server_reach server_init s \<and> \<not> keep_running s \<and> s_pc s = LAccept \<and>
     {x. server_step x s \<noteq> None} = {SigInt, SigIntr, Incoming, CallError}"
proof -
  have "case server_run [Tick, SigInt] server_init of None \<Rightarrow> False
      | Some s \<Rightarrow> \<not> keep_running s \<and> (case s_pc s of LAccept \<Rightarrow> True | _ \<Rightarrow> False)" by code_simp
  then obtain s where s: "server_reach server_init s" "\<not> keep_running s"
    "(case s_pc s of LAccept \<Rightarrow> True | _ \<Rightarrow> False)"
    by (rule server_run_reaches) blast
  then have "s_pc s = LAccept" by (simp split: srv_pc.splits)
  moreover from this have "server_step x s \<noteq> None \<longleftrightarrow> x \<in> {SigInt, SigIntr, Incoming, CallError}" for x
    by (cases x) (auto simp: server_step_def)
  ultimately show ?thesis using s by blast
qed

text \<open>
  One \<open>recv\<close> is taken for one request: when TCP delivers the first nine bytes of the
  client's message for the number 12 first, the server adds 1, answers and closes.
\<close>

theorem lab7_split_message:
  "\<exists>s. server_reach server_init s \<and> client_tx (show_int 12) = ''ZADANIE 12'' \<and>
     requests (s_hist s) = [take 9 (client_tx (show_int 12))] \<and> request_counter s = 1 \<and> s_pc s = LTest"
proof -
  have "case server_run [Tick, Incoming, Received ''ZADANIE 1'', Tick, Tick] server_init of None \<Rightarrow> False
      | Some s \<Rightarrow> requests (s_hist s) = [''ZADANIE 1''] \<and> request_counter s = 1 \<and>
          (case s_pc s of LTest \<Rightarrow> True | _ \<Rightarrow> False)" by code_simp
  then obtain s where s: "server_reach server_init s" "requests (s_hist s) = [''ZADANIE 1'']"
    "request_counter s = 1" "(case s_pc s of LTest \<Rightarrow> True | _ \<Rightarrow> False)"
    by (rule server_run_reaches) blast
  have t: "client_tx (show_int 12) = ''ZADANIE 12''" by code_simp
  have "s_pc s = LTest" using s(4) by (simp split: srv_pc.splits)
  with s t show ?thesis by auto
qed

end
