(* ===== verification/Spec2Isabelle.thy ===== *)
theory Spec2Isabelle
  imports SysPrelude CLib CNum Double DoubleOrder SemBuffer
    Lab1 Lab1Exec Lab1Append Lab2 Lab2System
    Lab3Integ Lab3Accuracy Lab3Pi Lab3PiProps Lab3Fifo Lab3Served
    Lab4 Lab4Chat
    Lab5Common Lab5Zad1 Lab5Zad3 Lab5Queues Lab5Setup
    Lab6Buffer Lab6Robot Lab6Level1 Lab6Monitor Lab6Pipeline Lab6Levels
    Lab7
begin

text \<open>
  A model of the SysOp repository, seven groups of small C programs about processes,
  signals, pipes, message queues, shared memory, threads and sockets, with the theorems
  that make them correct and those that show where they are not.

  \<^bold>\<open>How the programs are modelled.\<close>  The programs are concurrent, so each one is a machine:
  a record with the shared state (memory, semaphores, queues, pipes, files) and the
  variables of every process or thread, a datatype of program counters whose constructors
  are the statements between two points where others can be observed, and a step function
  that returns the state after the statement, or \<open>None\<close> while the process waits.  An
  act names the process that moves and what the kernel answers (success or failure of a
  call, the time, bytes received).  \<open>run_acts\<close> of SysPrelude runs a list of acts; the
  inductive predicates \<open>*_reach\<close> say what can happen under every interleaving.  Code
  without concurrency is a function.  Strings are lists of bytes, C \<open>int\<close> is an integer with
  overflow as an explicit undefined result where the code can reach it (\<open>c_result\<close> of
  CLib), and \<open>double\<close> is a rational rounded to 53 bits after every operation.

  \<^bold>\<open>General theories.\<close>
  \<^item> SysPrelude: sums over processes, ring buffers read as lists, runs of a machine, and
    the locale \<open>ending_machine\<close> (every step keeps an invariant and lowers a rank, a state
    without a step is an end: runs are bounded, can be continued to an end, and never
    deadlock), interpreted by the systems of labs 1, 2, 3 and 6 (level 1).
  \<^item> CLib, CNum: the functions of the C library on char arrays that the code uses, decimal
    output and input, \<open>strtol\<close> and \<open>strtod\<close> with the rest of the text.
  \<^item> Double, DoubleOrder: rounding, its error, its monotonicity, and when adding a step
    moves a double.
  \<^item> SemBuffer: POSIX semaphores, processes that share them and may be killed at any point.
    The locales \<open>ledger\<close> (a quantity no step creates or loses), \<open>local_invariant\<close>,
    \<open>sem_buffer\<close> (the mutex and the counting semaphores of a bounded buffer: mutual exclusion,
    token counts, the refinement of the shared memory) and \<open>sem_buffer_progress\<close> (who can be
    blocked, and what has been delivered when no living process can move) are interpreted by
    the programs of lab5.

  \<^bold>\<open>Lab 1, processes.\<close>  Lab1 has \<open>lab1/zad1/main.c\<close> (\<open>fk_parent\<close>, \<open>fk_reap\<close>, \<open>fk_kid\<close>: a
  child gets copies of the variable and of the output buffer) and \<open>main_vfork.c\<close>
  (\<open>vf_main\<close>: the child runs in the memory of its parent).  Lab1Exec has \<open>lab1/zad2\<close>
  (\<open>exec_loop\<close>, \<open>child_prog\<close>).  Lab1Append has \<open>lab1/zad3\<close> from the arguments (\<open>zad3_main\<close>,
  \<open>remove_first\<close>) to the end of all processes: \<open>zad3_main_next\<close> is the loop of \<open>main.c\<close> in any
  process that executes it, \<open>zad3_child_next\<close> the program that appends to the file under
  \<open>flock\<close>, with writes that may fail or be cut short (what could not be written is dropped
  with the buffer of the stream, as in glibc).  Shown: that the programs end, with a bound on
  their steps, and the complete output of each program from its arguments on, on a terminal
  and into a file; that every child that is forked is waited for, and the lines of a child
  stay together under the lock; what happens when \<open>execl\<close> fails.

  \<^bold>\<open>Lab 2, signals.\<close>  Lab2: dispositions, blocked and pending signals of a process
  (\<open>sigproc\<close>, \<open>deliver\<close>), \<open>zad1_main\<close>, the child of zad2 and the static and dynamic
  variants of zad3 (\<open>child_step\<close>), the parents (\<open>parent_main\<close>, \<open>zad3_parent\<close>).  Lab2System:
  parent and child interleaved from the arguments to the end (\<open>sys_parent\<close>, \<open>sys_offspring\<close>).
  Shown: the complete behaviour in each of the four modes; every end the two processes can
  come to, whichever calls are refused (an error, a child killed by a signal sent too early, a
  child that agrees with zad1, or the lost wake-up between the test and \<open>pause\<close>); that a mode sent during
  \<open>pause\<close> arrives; what a redirected output loses.

  \<^bold>\<open>Lab 3, pipes.\<close>  Lab3Integ has \<open>zad1/integrator.c\<close>: the loop is a partial function,
  \<open>None\<close> when it does not return, with a condition for ending, a bound on its rounds, and
  the condition for never ending.  Lab3Accuracy bounds the distance of its
  result to \<open>4 (arctan b - arctan a)\<close>.  Lab3Pi has \<open>zad1/main.c\<close>: parent (\<open>parent_next\<close>, \<open>reap_next\<close>) and
  children (\<open>child_next\<close>) over pipes that know who holds their ends, with the stdio buffers
  that \<open>fork\<close> copies.  Lab3PiProps shows that what is printed is the sequential sum, that
  every run ends without deadlock, that a run without failed calls succeeds, how near the
  sums are to \<open>pi\<close>, and what a redirected output contains.  Lab3Fifo has \<open>zad2\<close>: the server
  (\<open>fserver_next\<close>, \<open>handle_shutdown\<close>) and any number of clients (\<open>fclient_next\<close>) over two FIFOs,
  with killed clients; shown are the answer to a single client, the mixed answers of two, and
  how a request or a death stops the service.  Lab3Served has the table of the 52 states of
  one client and the server, and from it that a single client is always served.

  \<^bold>\<open>Lab 4, message queues.\<close>  Lab4 has the server (\<open>server_next\<close>), the two processes of a client
  (\<open>client_next\<close>, \<open>sender_next\<close>, \<open>receiver_next\<close>) and the signal handlers over bounded named
  queues; Lab4Chat the invariants on names, registry and queue contents, and from them unique
  numbers, forwarding to all others, no echo, and two ways in which the chat stops.

  \<^bold>\<open>Lab 5, shared memory and semaphores.\<close>  Lab5Common: the random texts and the printing
  loop.  Lab5Zad1: producers and consumers over one circular queue, refined to a bounded FIFO
  queue.  Lab5Zad3 and Lab5Queues: two queues with priority, the manager that ages and
  monitors, refined to a pair of queues; zad2 is the same without a manager.  Shown: refinement,
  mutual exclusion, delivery of everything produced once no living process can move, order, an ageing bound, the meaning of
  the monitor's numbers, and that a process killed in the critical section blocks the
  others.  Lab5Setup: the kernel's named objects, interleaved set-ups with refused calls,
  the handlers and the cleaner; locale \<open>setup_config\<close>, interpreted for the three tasks.

  \<^bold>\<open>Lab 6, threads.\<close>  Lab6Buffer: \<open>common.c\<close>, time arithmetic on doubles and the circular
  buffer that drops its oldest frame (locale \<open>drop_queue\<close>).  Lab6Monitor: the same buffer with
  mutex and condition variable (\<open>lossless\<close>: it has not overwritten a frame).  Lab6Robot: robot and logger.  Lab6Level1: \<open>program1.c\<close>
  with semaphores; Lab6Pipeline: the threads of \<open>program2.c\<close> and \<open>program3.c\<close>; Lab6Levels: their
  statistics, watchdog, report and main threads; the atomic counters of \<open>program3.c\<close> are
  words of 32 bits.  Shown: whole frames and pairs within the
  tolerance, order, exact counts, the end of level 1 in at most 65 steps after the flag is
  cleared, and the lost wake-up that lets levels 2 and 3 hang at shutdown.

  \<^bold>\<open>Lab 7, sockets.\<close>  Lab7: the counting server (\<open>server_step\<close>, \<open>server_handle\<close>), driven by what
  the kernel returns, and the client; refined to an abstract counter, with the HTTP reply,
  closed connections, the round trip, and the requests that overflow the counter.

  \<^bold>\<open>Fuel and bounds.\<close>  No definition has fuel.  Loops over indices are structural; the loop
  of \<open>rectangular_integration\<close> is \<open>partial_function (option)\<close>, and its termination is a theorem.
  The numbers of processes, clients and acts are arbitrary.

  \<^bold>\<open>Not modelled.\<close>  Makefiles, test scripts, the READMEs; messages on the standard error
  output and messages for information; elapsed times and the lengths of pauses, except as
  arguments of the machine.  Exponents of doubles are unbounded: subnormal results,
  infinities and NaN do not occur.  Loop counters of type \<open>int\<close> that count up to a \<open>long\<close> given by
  the user are taken not to overflow; the output buffers of lab1 and lab3 are taken to hold
  all lines.  Frame numbers and the \<open>int\<close> statistics of level 2 are taken to stay below
  \<open>2 ^ 31\<close>.  Process ids are the numbers of the processes in the order of their creation,
  except in Lab1Append, where they are given (\<open>c_pid\<close>) because they are written to the file.
\<close>

end
